(* ===== verification/Prelude.thy ===== *)
theory Prelude
  imports Main "HOL-Library.Multiset" "HOL-Library.Monad_Syntax"
begin

text \<open>
  Shared vocabulary of the development: the reading of Go's panics as \<open>option\<close>
  (\<open>None\<close> is a panic), the exchange of two slots of a slice, and the lemmas about them that the
  component theories use.  \<open>go_simps\<close> collects the rules that unfold the option monad;
  \<open>frame_simps\<close> collects the facts that an operation leaves a part of the state alone.
\<close>

named_theorems go_simps "unfolding rules of the option monad that carries panics"
named_theorems frame_simps "what an operation leaves unchanged"

section \<open>Panics\<close>

text \<open>A Go computation that may panic: \<open>None\<close> is the panic.\<close>

type_synonym 'a go = "'a option"

definition guard_go :: "bool \<Rightarrow> unit go" where
  "guard_go b = (if b then Some () else None)"

lemma guard_go_simps [simp, go_simps]:
  "guard_go True = Some ()" "guard_go False = None"
  by (simp_all add: guard_go_def)

lemma guard_go_eq_Some [simp]: "guard_go b = Some u \<longleftrightarrow> b"
  by (simp add: guard_go_def)

lemma bind_guard_go: "Option.bind (guard_go b) f = (if b then f () else None)"
  by (simp add: guard_go_def)

lemma bind_Some_iff [go_simps]:
  "Option.bind x f = Some y \<longleftrightarrow> (\<exists>a. x = Some a \<and> f a = Some y)"
  by (cases x) auto

section \<open>Slices\<close>

text \<open>\<open>s[i], s[j] = s[j], s[i]\<close> for indices within the slice.\<close>

definition swap_at :: "'a list \<Rightarrow> nat \<Rightarrow> nat \<Rightarrow> 'a list" where
  "swap_at xs i j = xs[i := xs ! j, j := xs ! i]"

lemma length_swap_at [simp]: "length (swap_at xs i j) = length xs"
  by (simp add: swap_at_def)

lemma nth_swap_at:
  "i < length xs \<Longrightarrow> j < length xs \<Longrightarrow> k < length xs \<Longrightarrow>
    swap_at xs i j ! k = (if k = j then xs ! i else if k = i then xs ! j else xs ! k)"
  by (simp add: swap_at_def nth_list_update)

lemma mset_swap_at [simp]:
  "i < length xs \<Longrightarrow> j < length xs \<Longrightarrow> mset (swap_at xs i j) = mset xs"
  unfolding swap_at_def by (cases "i = j") (simp_all add: mset_swap)

lemma set_swap_at [simp]:
  "i < length xs \<Longrightarrow> j < length xs \<Longrightarrow> set (swap_at xs i j) = set xs"
  by (metis mset_swap_at set_mset_mset)

lemma distinct_swap_at [simp]:
  "i < length xs \<Longrightarrow> j < length xs \<Longrightarrow> distinct (swap_at xs i j) = distinct xs"
  by (metis mset_eq_imp_distinct_iff mset_swap_at)

lemma map_swap_at:
  "i < length xs \<Longrightarrow> j < length xs \<Longrightarrow> map f (swap_at xs i j) = swap_at (map f xs) i j"
  by (simp add: swap_at_def map_update)

lemma take_swap_at:
  "i < n \<Longrightarrow> j < n \<Longrightarrow> n \<le> length xs \<Longrightarrow> take n (swap_at xs i j) = swap_at (take n xs) i j"
  by (simp add: swap_at_def take_update_swap)

lemma mset_butlast_last: "xs \<noteq> [] \<Longrightarrow> mset (butlast xs) + {#last xs#} = mset xs"
  by (cases xs rule: rev_cases) auto

lemma set_butlast_distinct:
  "distinct xs \<Longrightarrow> xs \<noteq> [] \<Longrightarrow> set (butlast xs) = set xs - {last xs}"
  by (cases xs rule: rev_cases) auto

end
