(* ===== verification/GoHeap.thy ===== *)
theory GoHeap
  imports Prelude
begin

text \<open>
  The standard library's \<open>container/heap\<close>, as the matching engine uses it: \<open>Init\<close>, \<open>Push\<close>, \<open>Pop\<close>
  and \<open>Remove\<close> over the five methods of \<open>heap.Interface\<close>, each of which may panic.  The locale
  \<open>heap_laws\<close> is the contract an implementation of the interface owes; inside it the operations
  are shown to keep the heap order, to return the minimum, and never to panic.
\<close>

section \<open>The interface and the library's functions\<close>

record ('s, 'x) heap_Interface =
  hLen :: "'s \<Rightarrow> nat"
  hLess :: "'s \<Rightarrow> nat \<Rightarrow> nat \<Rightarrow> bool go"
  hSwap :: "'s \<Rightarrow> nat \<Rightarrow> nat \<Rightarrow> 's go"
  hPush :: "'s \<Rightarrow> 'x \<Rightarrow> 's go"
  hPop :: "'s \<Rightarrow> ('x \<times> 's) go"

function heap_up :: "('s, 'x) heap_Interface \<Rightarrow> 's \<Rightarrow> nat \<Rightarrow> 's go" where
  "heap_up I s j =
     (let i = (j - 1) div 2
      in if i = j then Some s
         else do {
           b \<leftarrow> hLess I s j i;
           if \<not> b then Some s
           else do { s' \<leftarrow> hSwap I s i j; heap_up I s' i }
         })"
  by pat_completeness auto
termination
  by (relation "measure (\<lambda>(I, s, j). j)") auto

text \<open>The loop of \<open>down\<close>; it returns the state and the index where it stopped.\<close>

function heap_down_loop :: "('s, 'x) heap_Interface \<Rightarrow> 's \<Rightarrow> nat \<Rightarrow> nat \<Rightarrow> ('s \<times> nat) go" where
  "heap_down_loop I s i n =
     (let j1 = 2 * i + 1
      in if n \<le> j1 then Some (s, i)
         else do {
           j \<leftarrow> (if j1 + 1 < n
                then do { b \<leftarrow> hLess I s (j1 + 1) j1; Some (if b then j1 + 1 else j1) }
                else Some j1);
           b \<leftarrow> hLess I s j i;
           if \<not> b then Some (s, i)
           else do { s' \<leftarrow> hSwap I s i j; heap_down_loop I s' j n }
         })"
  by pat_completeness auto
termination
  by (relation "measure (\<lambda>(I, s, i, n). n - i)")
    (auto simp: bind_Some_iff split: if_splits)

declare heap_up.simps [simp del] heap_down_loop.simps [simp del]

definition heap_down :: "('s, 'x) heap_Interface \<Rightarrow> 's \<Rightarrow> nat \<Rightarrow> nat \<Rightarrow> (bool \<times> 's) go" where
  "heap_down I s i0 n = do { (s', i) \<leftarrow> heap_down_loop I s i0 n; Some (i0 < i, s') }"

text \<open>\<open>Init\<close> sifts down from \<open>n/2 - 1\<close> to 0.\<close>

fun heap_Init_loop :: "('s, 'x) heap_Interface \<Rightarrow> 's \<Rightarrow> nat \<Rightarrow> nat \<Rightarrow> 's go" where
  "heap_Init_loop I s n 0 = Some s"
| "heap_Init_loop I s n (Suc i) = do { (_, s') \<leftarrow> heap_down I s i n; heap_Init_loop I s' n i }"

definition heap_Init :: "('s, 'x) heap_Interface \<Rightarrow> 's \<Rightarrow> 's go" where
  "heap_Init I s = heap_Init_loop I s (hLen I s) (hLen I s div 2)"

definition heap_Push :: "('s, 'x) heap_Interface \<Rightarrow> 's \<Rightarrow> 'x \<Rightarrow> 's go" where
  "heap_Push I s x = do { s' \<leftarrow> hPush I s x; heap_up I s' (hLen I s' - 1) }"

text \<open>On an empty heap \<open>Swap(0, -1)\<close> panics.\<close>

definition heap_Pop :: "('s, 'x) heap_Interface \<Rightarrow> 's \<Rightarrow> ('x \<times> 's) go" where
  "heap_Pop I s =
     (if hLen I s = 0 then None
      else let n = hLen I s - 1
           in do {
             s1 \<leftarrow> hSwap I s 0 n;
             (_, s2) \<leftarrow> heap_down I s1 0 n;
             hPop I s2
           })"

text \<open>
  \<open>Remove\<close> takes an \<open>int\<close>: a negative index, or an empty heap, panics in \<open>Swap\<close> or \<open>Pop\<close>.
\<close>

definition heap_Remove :: "('s, 'x) heap_Interface \<Rightarrow> 's \<Rightarrow> int \<Rightarrow> ('x \<times> 's) go" where
  "heap_Remove I s i =
     (if i < 0 \<or> hLen I s = 0 then None
      else let n = hLen I s - 1; k = nat i
           in do {
             s2 \<leftarrow> (if n \<noteq> k
                   then do {
                     s1 \<leftarrow> hSwap I s k n;
                     (moved, s') \<leftarrow> heap_down I s1 k n;
                     if \<not> moved then heap_up I s' k else Some s'
                   }
                   else Some s);
             hPop I s2
           })"

text \<open>What every swap keeps, the sifting loops keep, whatever the implementation.\<close>

lemma heap_up_keeps:
  assumes "heap_up I s j = Some s'" "P s"
    and "\<And>s i j s'. hSwap I s i j = Some s' \<Longrightarrow> P s \<Longrightarrow> P s'"
  shows "P s'"
  using assms
proof (induction I s j rule: heap_up.induct)
  case (1 I s j)
  show ?case
  proof (cases "(j - 1) div 2 = j \<or> hLess I s j ((j - 1) div 2) = Some False")
    case True
    then show ?thesis using "1.prems" by (auto simp: heap_up.simps [of I s j] Let_def split: if_splits)
  next
    case False
    with "1.prems"(1) obtain s1 where s1: "hLess I s j ((j - 1) div 2) = Some True"
      "hSwap I s ((j - 1) div 2) j = Some s1" "heap_up I s1 ((j - 1) div 2) = Some s'"
      unfolding heap_up.simps [of I s j] Let_def by (auto simp: bind_Some_iff split: if_splits)
    then show ?thesis using "1.IH" [OF refl] False "1.prems" by blast
  qed
qed

lemma heap_down_loop_keeps:
  assumes "heap_down_loop I s i n = Some (s', i')" "P s"
    and "\<And>s i j s'. hSwap I s i j = Some s' \<Longrightarrow> P s \<Longrightarrow> P s'"
  shows "P s'"
  using assms
proof (induction I s i n rule: heap_down_loop.induct)
  case (1 I s i n)
  show ?case
  proof (cases "s' = s")
    case True
    with "1.prems" show ?thesis by simp
  next
    case False
    with "1.prems"(1) obtain j s1 where j: "2 * i + 1 < n"
      "(if 2 * i + 1 + 1 < n then do { b \<leftarrow> hLess I s (2 * i + 1 + 1) (2 * i + 1);
          Some (if b then 2 * i + 1 + 1 else 2 * i + 1) } else Some (2 * i + 1)) = Some j"
      "hLess I s j i = Some True" "hSwap I s i j = Some s1" "heap_down_loop I s1 j n = Some (s', i')"
      unfolding heap_down_loop.simps [of I s i n] Let_def
      by (auto simp: bind_Some_iff not_le split: if_splits)
    show ?thesis
      using "1.IH" [OF refl _ j(2,3) _ j(4,5)] j(1) "1.prems" j(4) by (metis not_le)
  qed
qed

section \<open>The heap order on a slice\<close>

abbreviation (input) heap_parent :: "nat \<Rightarrow> nat" where
  "heap_parent k \<equiv> (k - 1) div 2"

text \<open>Slot \<open>k\<close> is not smaller than its parent.\<close>

definition good_at :: "('a \<Rightarrow> 'a \<Rightarrow> bool) \<Rightarrow> 'a list \<Rightarrow> nat \<Rightarrow> bool" where
  "good_at lt xs k \<longleftrightarrow> (0 < k \<longrightarrow> \<not> lt (xs ! k) (xs ! heap_parent k))"

definition heap_ordered :: "('a \<Rightarrow> 'a \<Rightarrow> bool) \<Rightarrow> nat \<Rightarrow> 'a list \<Rightarrow> bool" where
  "heap_ordered lt n xs \<longleftrightarrow> (\<forall>k < n. good_at lt xs k)"

lemma heap_ordered_Nil [simp]: "heap_ordered lt 0 xs"
  by (simp add: heap_ordered_def)

lemma good_at_0 [simp]: "good_at lt xs 0"
  by (simp add: good_at_def)

lemma good_at_cong:
  "xs ! k = ys ! k \<Longrightarrow> xs ! heap_parent k = ys ! heap_parent k \<Longrightarrow> good_at lt xs k = good_at lt ys k"
  by (simp add: good_at_def)

lemma heap_ordered_butlast:
  assumes "heap_ordered lt (length xs - 1) xs"
  shows "heap_ordered lt (length (butlast xs)) (butlast xs)"
  unfolding heap_ordered_def
proof (intro allI impI)
  fix k assume k: "k < length (butlast xs)"
  with assms have "good_at lt xs k" by (simp add: heap_ordered_def)
  moreover have "butlast xs ! k = xs ! k" "butlast xs ! heap_parent k = xs ! heap_parent k"
    using k by (simp_all add: nth_butlast)
  ultimately show "good_at lt (butlast xs) k" using good_at_cong by metis
qed

section \<open>The contract of an implementation\<close>

text \<open>
  \<open>ok\<close> is the implementation's own well-formedness, \<open>elems\<close> the slice it stands for and \<open>lt\<close> the
  priority: a strict weak order.  Within the bounds of the slice no method panics.
\<close>

locale heap_laws =
  fixes I :: "('s, 'x) heap_Interface"
    and ok :: "'s \<Rightarrow> bool"
    and elems :: "'s \<Rightarrow> 'x list"
    and lt :: "'x \<Rightarrow> 'x \<Rightarrow> bool"
    and pushable :: "'s \<Rightarrow> 'x \<Rightarrow> bool"
  assumes len_law: "ok s \<Longrightarrow> hLen I s = length (elems s)"
    and less_law: "ok s \<Longrightarrow> i < length (elems s) \<Longrightarrow> j < length (elems s) \<Longrightarrow>
      hLess I s i j = Some (lt (elems s ! i) (elems s ! j))"
    and swap_law: "ok s \<Longrightarrow> i < length (elems s) \<Longrightarrow> j < length (elems s) \<Longrightarrow>
      \<exists>s'. hSwap I s i j = Some s' \<and> ok s' \<and> elems s' = swap_at (elems s) i j"
    and push_law: "ok s \<Longrightarrow> pushable s x \<Longrightarrow>
      \<exists>s'. hPush I s x = Some s' \<and> ok s' \<and> elems s' = elems s @ [x]"
    and pop_law: "ok s \<Longrightarrow> elems s \<noteq> [] \<Longrightarrow>
      \<exists>s'. hPop I s = Some (last (elems s), s') \<and> ok s' \<and> elems s' = butlast (elems s)"
    and lt_asym: "lt x y \<Longrightarrow> \<not> lt y x"
    and lt_neg_trans: "\<not> lt x y \<Longrightarrow> \<not> lt y z \<Longrightarrow> \<not> lt x z"
begin

lemma lt_irrefl: "\<not> lt x x"
  using lt_asym by blast

text \<open>The root of an ordered slice is a minimum.\<close>

lemma heap_root_min:
  assumes "heap_ordered lt n xs" "k < n"
  shows "\<not> lt (xs ! k) (xs ! 0)"
  using assms(2)
proof (induction k rule: less_induct)
  case (less k)
  show ?case
  proof (cases "k = 0")
    case True
    then show ?thesis by (simp add: lt_irrefl)
  next
    case False
    then have "heap_parent k < k" by simp
    with less have "\<not> lt (xs ! heap_parent k) (xs ! 0)" by simp
    moreover have "\<not> lt (xs ! k) (xs ! heap_parent k)"
      using assms(1) less.prems False by (simp add: heap_ordered_def good_at_def)
    ultimately show ?thesis using lt_neg_trans by blast
  qed
qed

text \<open>One defect, at \<open>j\<close>, that moving up repairs; and one, at \<open>i\<close>, that moving down repairs.\<close>

definition up_defect :: "nat \<Rightarrow> 'x list \<Rightarrow> nat \<Rightarrow> bool" where
  "up_defect n xs j \<longleftrightarrow>
     (\<forall>k < n. k \<noteq> j \<longrightarrow> good_at lt xs k) \<and>
     (\<forall>k < n. 0 < k \<and> heap_parent k = j \<and> 0 < j \<longrightarrow> \<not> lt (xs ! k) (xs ! heap_parent j))"

definition down_defect :: "nat \<Rightarrow> 'x list \<Rightarrow> nat \<Rightarrow> bool" where
  "down_defect n xs i \<longleftrightarrow>
     (\<forall>k < n. k \<noteq> i \<and> heap_parent k \<noteq> i \<longrightarrow> good_at lt xs k) \<and>
     (\<forall>k < n. 0 < k \<and> heap_parent k = i \<and> 0 < i \<longrightarrow> \<not> lt (xs ! k) (xs ! heap_parent i))"

lemma up_defect_swap:
  assumes d: "up_defect n xs j" and j: "0 < j" "j < n" "n \<le> length xs"
    and lt: "lt (xs ! j) (xs ! heap_parent j)"
  shows "up_defect n (swap_at xs (heap_parent j) j) (heap_parent j)"
proof -
  let ?i = "heap_parent j" and ?ys = "swap_at xs (heap_parent j) j"
  have ij: "?i < j" using j by simp
  have ys: "?ys ! k = (if k = j then xs ! ?i else if k = ?i then xs ! j else xs ! k)"
    if "k < n" for k using nth_swap_at [of ?i xs j k] that j ij by simp
  have good: "\<not> lt (xs ! k) (xs ! heap_parent k)" if "0 < k" "k < n" "k \<noteq> j" for k
    using d that by (simp add: up_defect_def good_at_def)
  have "good_at lt ?ys k" if k: "k < n" "k \<noteq> ?i" for k
    unfolding good_at_def
  proof
    assume k0: "0 < k"
    then have pk: "heap_parent k < n" using k by simp
    consider "k = j" | "k \<noteq> j" "heap_parent k = ?i" | "k \<noteq> j" "heap_parent k = j"
      | "k \<noteq> j" "heap_parent k \<noteq> ?i" "heap_parent k \<noteq> j" by blast
    then show "\<not> lt (?ys ! k) (?ys ! heap_parent k)"
    proof cases
      case 1
      then show ?thesis using ys [OF k(1)] ys [OF pk] ij lt lt_asym by simp
    next
      case 2
      then have "\<not> lt (xs ! k) (xs ! ?i)" using good [OF k0 k(1)] by simp
      moreover have "\<not> lt (xs ! ?i) (xs ! j)" using lt lt_asym by blast
      ultimately have "\<not> lt (xs ! k) (xs ! j)" by (rule lt_neg_trans)
      then show ?thesis using 2 ys [OF k(1)] ys [OF pk] k ij by simp
    next
      case 3
      then have "\<not> lt (xs ! k) (xs ! ?i)" using d k k0 j by (simp add: up_defect_def)
      then show ?thesis using 3 ys [OF k(1)] ys [OF pk] k by simp
    next
      case 4
      then show ?thesis using good [OF k0 k(1)] ys [OF k(1)] ys [OF pk] k by simp
    qed
  qed
  moreover have "\<not> lt (?ys ! k) (?ys ! heap_parent ?i)"
    if k: "k < n" "0 < k" "heap_parent k = ?i" "0 < ?i" for k
  proof -
    have pi: "heap_parent ?i < ?i" using k(4) by simp
    then have "?ys ! heap_parent ?i = xs ! heap_parent ?i" using ys [of "heap_parent ?i"] ij j by simp
    moreover have i: "\<not> lt (xs ! ?i) (xs ! heap_parent ?i)" using good [of ?i] k(4) ij j by simp
    moreover have "\<not> lt (xs ! k) (xs ! ?i)" if "k \<noteq> j" using good [of k] k that by simp
    moreover have "k \<noteq> ?i" using k by auto
    ultimately show ?thesis
      using ys [OF k(1)] lt_neg_trans [OF _ i] by (cases "k = j") auto
  qed
  ultimately show ?thesis unfolding up_defect_def by blast
qed

lemma down_defect_swap:
  assumes d: "down_defect n xs i" and j: "j < n" "n \<le> length xs" "0 < j" "heap_parent j = i"
    and lt: "lt (xs ! j) (xs ! i)"
    and min: "\<And>k. k < n \<Longrightarrow> 0 < k \<Longrightarrow> heap_parent k = i \<Longrightarrow> \<not> lt (xs ! k) (xs ! j)"
  shows "down_defect n (swap_at xs i j) j" "good_at lt (swap_at xs i j) j"
proof -
  let ?ys = "swap_at xs i j"
  have ij: "i < j" using j by auto
  have ys: "?ys ! k = (if k = j then xs ! i else if k = i then xs ! j else xs ! k)"
    if "k < n" for k using nth_swap_at [of i xs j k] that j ij by simp
  have good: "\<not> lt (xs ! k) (xs ! heap_parent k)" if "0 < k" "k < n" "k \<noteq> i" "heap_parent k \<noteq> i" for k
    using d that by (simp add: down_defect_def good_at_def)
  have "good_at lt ?ys k" if k: "k < n" "k \<noteq> j" "heap_parent k \<noteq> j" for k
    unfolding good_at_def
  proof
    assume k0: "0 < k"
    then have pk: "heap_parent k < k" "heap_parent k < n" using k by simp_all
    consider "k = i" | "k \<noteq> i" "heap_parent k = i" | "k \<noteq> i" "heap_parent k \<noteq> i" by blast
    then show "\<not> lt (?ys ! k) (?ys ! heap_parent k)"
    proof cases
      case 1
      then have "\<not> lt (xs ! j) (xs ! heap_parent i)" using d j k0 by (simp add: down_defect_def)
      then show ?thesis using 1 ys [OF k(1)] ys [OF pk(2)] pk ij by simp
    next
      case 2
      then show ?thesis using ys [OF k(1)] ys [OF pk(2)] k ij min [OF k(1) k0] by simp
    next
      case 3
      then show ?thesis using good [OF k0 k(1)] ys [OF k(1)] ys [OF pk(2)] k by simp
    qed
  qed
  moreover have "\<not> lt (?ys ! k) (?ys ! heap_parent j)" if k: "k < n" "0 < k" "heap_parent k = j" for k
  proof -
    have "k \<noteq> i" "k \<noteq> j" using k ij by auto
    then show ?thesis using good [of k] k ys [OF k(1)] ys [of i] j ij by simp
  qed
  ultimately show "down_defect n ?ys j" unfolding down_defect_def by blast
  show "good_at lt ?ys j" using ys [OF j(1)] ys [of i] j ij lt lt_asym by (simp add: good_at_def)
qed

text \<open>\<open>up\<close> repairs its defect and touches only the first \<open>n\<close> slots.\<close>

lemma heap_up_spec:
  assumes "ok s" "j < n" "n \<le> length (elems s)" "up_defect n (elems s) j"
  shows "\<exists>s'. heap_up I s j = Some s' \<and> ok s' \<and> mset (elems s') = mset (elems s) \<and>
    heap_ordered lt n (elems s') \<and> (\<forall>k. n \<le> k \<longrightarrow> k < length (elems s) \<longrightarrow> elems s' ! k = elems s ! k)"
  using assms
proof (induction j arbitrary: s rule: less_induct)
  case (less j)
  let ?i = "heap_parent j"
  show ?case
  proof (cases "0 < j \<and> lt (elems s ! j) (elems s ! ?i)")
    case False
    then have "good_at lt (elems s) j" by (auto simp: good_at_def)
    with less.prems have "heap_ordered lt n (elems s)"
      unfolding heap_ordered_def up_defect_def by blast
    moreover have "heap_up I s j = Some s"
    proof (cases "j = 0")
      case True
      then show ?thesis by (simp add: heap_up.simps)
    next
      case j: False
      then show ?thesis
        using False less_law [OF \<open>ok s\<close>, of j ?i] less.prems by (simp add: heap_up.simps [of I s j] Let_def)
    qed
    ultimately show ?thesis using less.prems by auto
  next
    case True
    then have ij: "?i < j" "?i \<noteq> j" by auto
    obtain s1 where s1: "hSwap I s ?i j = Some s1" "ok s1" "elems s1 = swap_at (elems s) ?i j"
      using swap_law [OF \<open>ok s\<close>, of ?i j] less.prems ij by auto
    have "up_defect n (elems s1) ?i"
      unfolding s1(3) using up_defect_swap less.prems True by auto
    then obtain s' where s': "heap_up I s1 ?i = Some s'" "ok s'" "mset (elems s') = mset (elems s1)"
        "heap_ordered lt n (elems s')"
        "\<forall>k. n \<le> k \<longrightarrow> k < length (elems s1) \<longrightarrow> elems s' ! k = elems s1 ! k"
      using less.IH [OF ij(1) s1(2)] less.prems ij s1(3) by auto
    have "heap_up I s j = Some s'"
      using True ij less_law [OF \<open>ok s\<close>, of j ?i] less.prems s1(1) s'(1)
      by (simp add: heap_up.simps [of I s j] Let_def)
    moreover have "elems s1 ! k = elems s ! k" if "n \<le> k" "k < length (elems s)" for k
      unfolding s1(3) using that less.prems ij by (subst nth_swap_at) auto
    ultimately show ?thesis using s' s1(3) less.prems ij by auto
  qed
qed

lemma heap_down_loop_spec:
  assumes "ok s" "n \<le> length (elems s)" "down_defect n (elems s) i" "i < length (elems s)"
  shows "\<exists>s' i'. heap_down_loop I s i n = Some (s', i') \<and> ok s' \<and> mset (elems s') = mset (elems s) \<and>
    (\<forall>k. n \<le> k \<longrightarrow> k < length (elems s) \<longrightarrow> elems s' ! k = elems s ! k) \<and> i \<le> i' \<and>
    (i' = i \<longrightarrow> s' = s \<and> (\<forall>k < n. k \<noteq> i \<longrightarrow> good_at lt (elems s) k)) \<and>
    (i < i' \<or> good_at lt (elems s) i \<longrightarrow> heap_ordered lt n (elems s'))"
  using assms
proof (induction "n - i" arbitrary: s i rule: less_induct)
  case less
  let ?xs = "elems s" and ?j1 = "2 * i + 1"
  have stop: ?case if eq: "heap_down_loop I s i n = Some (s, i)"
    and ch: "\<And>k. k < n \<Longrightarrow> 0 < k \<Longrightarrow> heap_parent k = i \<Longrightarrow> \<not> lt (?xs ! k) (?xs ! i)"
  proof -
    have "good_at lt ?xs k" if "k < n" "k \<noteq> i" for k
      using that ch [of k] less.prems(3) by (cases "heap_parent k = i") (auto simp: down_defect_def good_at_def)
    then show ?thesis using eq less.prems by (auto simp: heap_ordered_def)
  qed
  show ?case
  proof (cases "n \<le> ?j1")
    case True
    then show ?thesis by (intro stop) (auto simp: heap_down_loop.simps)
  next
    case False
    define j where "j = (if ?j1 + 1 < n \<and> lt (?xs ! (?j1 + 1)) (?xs ! ?j1) then ?j1 + 1 else ?j1)"
    have j: "j < n" "i < j" "0 < j" "heap_parent j = i"
      using False by (auto simp: j_def)
    have min: "\<not> lt (?xs ! k) (?xs ! j)" if "k < n" "0 < k" "heap_parent k = i" for k
    proof -
      have "k = ?j1 \<or> k = ?j1 + 1" using that by auto
      then show ?thesis using that lt_irrefl lt_asym by (auto simp: j_def split: if_splits)
    qed
    have pick: "(if ?j1 + 1 < n then do { b \<leftarrow> hLess I s (?j1 + 1) ?j1; Some (if b then ?j1 + 1 else ?j1) }
        else Some ?j1) = Some j"
      using less_law [OF \<open>ok s\<close>] less.prems False by (simp add: j_def)
    have cmp: "hLess I s j i = Some (lt (?xs ! j) (?xs ! i))"
      using less_law [OF \<open>ok s\<close>] less.prems j by simp
    show ?thesis
    proof (cases "lt (?xs ! j) (?xs ! i)")
      case lt: False
      show ?thesis
      proof (rule stop)
        show "heap_down_loop I s i n = Some (s, i)"
          using False lt pick cmp unfolding heap_down_loop.simps [of I s i n] Let_def by simp
        show "\<not> lt (?xs ! k) (?xs ! i)" if "k < n" "0 < k" "heap_parent k = i" for k
          using min [OF that] lt by (rule lt_neg_trans)
      qed
    next
      case lt: True
      obtain s1 where s1: "hSwap I s i j = Some s1" "ok s1" "elems s1 = swap_at ?xs i j"
        using swap_law [OF \<open>ok s\<close>, of i j] less.prems j by auto
      have d: "down_defect n (elems s1) j" "good_at lt (elems s1) j"
        unfolding s1(3) using down_defect_swap [OF less.prems(3) j(1) less.prems(2) j(3,4) lt min] by auto
      have len: "length (elems s1) = length ?xs" by (simp add: s1(3))
      have "n - j < n - i" using j by simp
      from less.hyps [OF this s1(2) _ d(1)] obtain s' i'
        where s': "heap_down_loop I s1 j n = Some (s', i')" "ok s'" "mset (elems s') = mset (elems s1)"
          "\<forall>k. n \<le> k \<longrightarrow> k < length ?xs \<longrightarrow> elems s' ! k = elems s1 ! k" "j \<le> i'"
          "heap_ordered lt n (elems s')"
        using d(2) less.prems j len by auto
      have "heap_down_loop I s i n = Some (s', i')"
        using False lt pick cmp s1(1) s'(1) unfolding heap_down_loop.simps [of I s i n] Let_def by simp
      moreover have "elems s1 ! k = ?xs ! k" if "n \<le> k" "k < length ?xs" for k
        unfolding s1(3) using that less.prems j by (subst nth_swap_at) auto
      ultimately show ?thesis using s' s1(3) less.prems j by auto
    qed
  qed
qed

section \<open>The library's operations\<close>

abbreviation heap_invar :: "'s \<Rightarrow> bool" where
  "heap_invar s \<equiv> heap_ordered lt (length (elems s)) (elems s)"

text \<open>\<open>Push\<close> never panics on a value that may be pushed, adds just it and keeps the order.\<close>

theorem heap_Push_spec:
  assumes "ok s" "heap_invar s" "pushable s x"
  shows "\<exists>s'. heap_Push I s x = Some s' \<and> ok s' \<and> heap_invar s' \<and>
    mset (elems s') = add_mset x (mset (elems s))"
proof -
  obtain s1 where s1: "hPush I s x = Some s1" "ok s1" "elems s1 = elems s @ [x]"
    using push_law [OF assms(1,3)] by blast
  let ?n = "length (elems s)"
  have "good_at lt (elems s1) k" if "k < Suc ?n" "k \<noteq> ?n" for k
  proof -
    have "k < ?n" "heap_parent k < ?n" using that by auto
    then show ?thesis
      using assms(2) by (simp add: heap_ordered_def good_at_def s1(3) nth_append)
  qed
  then have "up_defect (Suc ?n) (elems s1) ?n"
    by (auto simp: up_defect_def)
  then obtain s' where "heap_up I s1 ?n = Some s'" "ok s'" "mset (elems s') = mset (elems s1)"
      "heap_ordered lt (Suc ?n) (elems s')"
    using heap_up_spec [OF s1(2), of ?n "Suc ?n"] s1(3) by auto
  moreover have "length (elems s') = Suc ?n"
    using calculation(3) s1(3) by (metis length_append_singleton size_mset)
  ultimately show ?thesis
    using s1 len_law [OF s1(2)] by (auto simp: heap_Push_def)
qed

text \<open>The last part of \<open>Pop\<close> and \<open>Remove\<close>: the removed value is in the last slot.\<close>

lemma heap_pop_last:
  assumes "ok s" "elems s \<noteq> []" "heap_ordered lt (length (elems s) - 1) (elems s)"
  shows "\<exists>s'. hPop I s = Some (last (elems s), s') \<and> ok s' \<and> heap_invar s' \<and>
    add_mset (last (elems s)) (mset (elems s')) = mset (elems s)"
proof -
  obtain s' where "hPop I s = Some (last (elems s), s')" "ok s'" "elems s' = butlast (elems s)"
    using pop_law [OF assms(1,2)] by blast
  then show ?thesis
    using heap_ordered_butlast [OF assms(3)] mset_butlast_last [OF assms(2)] by auto
qed

text \<open>\<open>Pop\<close> returns the root, which is a minimum, and removes just it.\<close>

theorem heap_Pop_spec:
  assumes "ok s" "heap_invar s" "elems s \<noteq> []"
  shows "\<exists>s'. heap_Pop I s = Some (elems s ! 0, s') \<and> ok s' \<and> heap_invar s' \<and>
    add_mset (elems s ! 0) (mset (elems s')) = mset (elems s)"
proof -
  let ?n = "length (elems s) - 1"
  have n: "?n < length (elems s)" "0 < length (elems s)" using assms(3) by simp_all
  obtain s1 where s1: "hSwap I s 0 ?n = Some s1" "ok s1" "elems s1 = swap_at (elems s) 0 ?n"
    using swap_law [OF assms(1) n(2) n(1)] by blast
  have nth: "elems s1 ! k = (if k = ?n then elems s ! 0 else if k = 0 then elems s ! ?n else elems s ! k)"
    if "k < length (elems s)" for k
    unfolding s1(3) using nth_swap_at [OF n(2) n(1)] that by simp
  have "down_defect ?n (elems s1) 0"
    unfolding down_defect_def good_at_def
  proof (intro conjI allI impI)
    fix k assume k: "k < ?n" "k \<noteq> 0 \<and> heap_parent k \<noteq> 0" "0 < k"
    then have "heap_parent k < ?n" by simp
    with k assms(2) show "\<not> lt (elems s1 ! k) (elems s1 ! heap_parent k)"
      by (simp add: nth heap_ordered_def good_at_def)
  qed simp
  then obtain s2 i' where s2: "heap_down_loop I s1 0 ?n = Some (s2, i')" "ok s2"
      "mset (elems s2) = mset (elems s1)" "heap_ordered lt ?n (elems s2)"
      "\<forall>k. ?n \<le> k \<longrightarrow> k < length (elems s) \<longrightarrow> elems s2 ! k = elems s1 ! k"
    using heap_down_loop_spec [OF s1(2), of ?n 0] s1(3) n by auto
  then have ms: "mset (elems s2) = mset (elems s)" using s1(3) n by simp
  then have len: "length (elems s2) = length (elems s)" by (metis size_mset)
  then have "elems s2 \<noteq> []" using assms(3) by auto
  moreover have "last (elems s2) = elems s ! 0"
    using calculation s2(5) nth [OF n(1)] n len by (simp add: last_conv_nth)
  ultimately obtain s' where "hPop I s2 = Some (elems s ! 0, s')" "ok s'" "heap_invar s'"
      "add_mset (elems s ! 0) (mset (elems s')) = mset (elems s)"
    using heap_pop_last [OF s2(2)] s2(4) len ms by auto
  then show ?thesis
    using s1(1) s2(1) len_law [OF assms(1)] assms(3)
    by (auto simp: heap_Pop_def heap_down_def Let_def)
qed

lemma heap_remove_defect:
  assumes "heap_invar s" "i < n" "n = length (elems s) - 1"
  shows "down_defect n (swap_at (elems s) i n) i"
proof -
  let ?xs = "elems s" and ?ys = "swap_at (elems s) i n"
  have ys: "?ys ! k = (if k = n then ?xs ! i else if k = i then ?xs ! n else ?xs ! k)"
    if "k < length ?xs" for k using nth_swap_at [of i ?xs n k] that assms by simp
  have good: "\<not> lt (?xs ! k) (?xs ! heap_parent k)" if "0 < k" "k < length ?xs" for k
    using assms(1) that by (simp add: heap_ordered_def good_at_def)
  have "good_at lt ?ys k" if k: "k < n" "k \<noteq> i" "heap_parent k \<noteq> i" for k
    unfolding good_at_def
  proof
    assume k0: "0 < k"
    then have "heap_parent k < n" "heap_parent k < length ?xs" "k < length ?xs" using k assms by simp_all
    then show "\<not> lt (?ys ! k) (?ys ! heap_parent k)"
      using ys [of k] ys [of "heap_parent k"] good [OF k0] k by simp
  qed
  moreover have "\<not> lt (?ys ! k) (?ys ! heap_parent i)"
    if k: "k < n" "0 < k" "heap_parent k = i" "0 < i" for k
  proof -
    have "heap_parent i < i" using k(4) by simp
    then have "?ys ! heap_parent i = ?xs ! heap_parent i" using ys [of "heap_parent i"] assms by simp
    moreover have "k \<noteq> i" using k by auto
    then have "?ys ! k = ?xs ! k" using ys [of k] k assms by simp
    moreover have "\<not> lt (?xs ! k) (?xs ! heap_parent i)"
    proof (rule lt_neg_trans)
      show "\<not> lt (?xs ! k) (?xs ! i)" using good [of k] k assms by simp
      show "\<not> lt (?xs ! i) (?xs ! heap_parent i)" using good [of i] k assms by simp
    qed
    ultimately show ?thesis by simp
  qed
  ultimately show ?thesis unfolding down_defect_def by blast
qed

text \<open>\<open>Remove\<close> takes out the value at the given index, wherever it is in the slice.\<close>

theorem heap_Remove_spec:
  assumes "ok s" "heap_invar s" "i < length (elems s)"
  shows "\<exists>s'. heap_Remove I s (int i) = Some (elems s ! i, s') \<and> ok s' \<and> heap_invar s' \<and>
    add_mset (elems s ! i) (mset (elems s')) = mset (elems s)"
proof -
  let ?n = "length (elems s) - 1"
  have n: "?n < length (elems s)" "elems s \<noteq> []" using assms(3) by auto
  have hlen: "hLen I s = length (elems s)" using len_law [OF assms(1)] .
  show ?thesis
  proof (cases "i = ?n")
    case True
    have "heap_ordered lt ?n (elems s)" using assms(2) by (simp add: heap_ordered_def)
    from heap_pop_last [OF assms(1) n(2) this] show ?thesis
      using True n hlen by (auto simp: heap_Remove_def Let_def last_conv_nth)
  next
    case False
    then have i: "i < ?n" using assms(3) by simp
    obtain s1 where s1: "hSwap I s i ?n = Some s1" "ok s1" "elems s1 = swap_at (elems s) i ?n"
      using swap_law [OF assms(1) assms(3) n(1)] by blast
    have d: "down_defect ?n (elems s1) i"
      unfolding s1(3) using heap_remove_defect [OF assms(2) i refl] .
    obtain s2 i' where s2: "heap_down_loop I s1 i ?n = Some (s2, i')" "ok s2"
        "mset (elems s2) = mset (elems s1)" "i \<le> i'"
        "\<forall>k. ?n \<le> k \<longrightarrow> k < length (elems s) \<longrightarrow> elems s2 ! k = elems s1 ! k"
        "i' = i \<longrightarrow> s2 = s1 \<and> (\<forall>k < ?n. k \<noteq> i \<longrightarrow> good_at lt (elems s1) k)"
        "i < i' \<or> good_at lt (elems s1) i \<longrightarrow> heap_ordered lt ?n (elems s2)"
      using heap_down_loop_spec [OF s1(2) _ d] s1(3) assms(3) by auto
    have len1: "length (elems s1) = length (elems s)" by (simp add: s1(3))
    have "\<exists>s3. (if \<not> i < i' then heap_up I s2 i else Some s2) = Some s3 \<and> ok s3 \<and>
      mset (elems s3) = mset (elems s1) \<and> heap_ordered lt ?n (elems s3) \<and>
      elems s3 ! ?n = elems s1 ! ?n"
    proof (cases "i < i'")
      case True
      then show ?thesis using s2 n by auto
    next
      case False
      then have eq: "s2 = s1" and "\<forall>k < ?n. k \<noteq> i \<longrightarrow> good_at lt (elems s1) k" using s2 by auto
      then have "up_defect ?n (elems s1) i" using d by (simp add: up_defect_def down_defect_def)
      from heap_up_spec [OF s1(2) i _ this] show ?thesis using False eq len1 n by auto
    qed
    then obtain s3 where s3: "(if \<not> i < i' then heap_up I s2 i else Some s2) = Some s3" "ok s3"
        "mset (elems s3) = mset (elems s1)" "heap_ordered lt ?n (elems s3)" "elems s3 ! ?n = elems s1 ! ?n"
      by blast
    have ms: "mset (elems s3) = mset (elems s)" using s3(3) s1(3) assms(3) n by simp
    then have len: "length (elems s3) = length (elems s)" by (metis size_mset)
    then have ne: "elems s3 \<noteq> []" using n by auto
    have "elems s1 ! ?n = elems s ! i" unfolding s1(3) using nth_swap_at [OF assms(3) n(1) n(1)] by simp
    then have lst: "last (elems s3) = elems s ! i" using s3(5) ne len by (simp add: last_conv_nth)
    from heap_pop_last [OF s3(2) ne] obtain s' where
      "hPop I s3 = Some (elems s ! i, s')" "ok s'" "heap_invar s'"
      "add_mset (elems s ! i) (mset (elems s')) = mset (elems s)"
      using s3(4) len lst ms by auto
    moreover have "heap_Remove I s (int i) = hPop I s3"
      using False i n hlen s1(1) s2(1) s3(1) by (simp add: heap_Remove_def heap_down_def Let_def)
    ultimately show ?thesis by auto
  qed
qed

end

end
