(* ===== verification/Float64.thy ===== *)
theory Float64
  imports Prelude Complex_Main "HOL-Library.Log_Nat"
begin

text \<open>
  The part of Go's \<open>math/big\<close> floats that prices go through:
  \<open>new(big.Float).SetInt\<close>, \<open>Quo\<close> and \<open>Float64\<close>, all in the default rounding mode
  (to nearest, ties to even).  A float is its exact rational value or an infinity; the sign of zero
  is not kept, since neither Go's comparisons nor its map keys see it.  \<open>Quo\<close> of zero by zero (or
  of infinity by infinity) panics with \<open>ErrNaN\<close>.  Exponents are unbounded: \<open>big.Float\<close>'s are
  32 bits wide, which an amount leaves only with two thousand million binary digits.
\<close>

section \<open>Extended rationals\<close>

datatype xfloat = NInf | Fin rat | PInf

instantiation xfloat :: linorder
begin

fun less_eq_xfloat :: "xfloat \<Rightarrow> xfloat \<Rightarrow> bool" where
  "less_eq_xfloat NInf y = True"
| "less_eq_xfloat (Fin x) (Fin y) = (x \<le> y)"
| "less_eq_xfloat x PInf = True"
| "less_eq_xfloat (Fin x) NInf = False"
| "less_eq_xfloat PInf y = False"

definition less_xfloat :: "xfloat \<Rightarrow> xfloat \<Rightarrow> bool" where
  "less_xfloat x y = (\<not> y \<le> x)"

instance
proof
  fix x y z :: xfloat
  show "(x < y) = (x \<le> y \<and> \<not> y \<le> x)"
    by (cases x; cases y) (auto simp: less_xfloat_def)
  show "x \<le> x" by (cases x) auto
  show "x \<le> y \<Longrightarrow> y \<le> z \<Longrightarrow> x \<le> z" by (cases x; cases y; cases z) auto
  show "x \<le> y \<Longrightarrow> y \<le> x \<Longrightarrow> x = y" by (cases x; cases y) auto
  show "x \<le> y \<or> y \<le> x" by (cases x; cases y) auto
qed

end

lemma PInf_top [simp]: "x \<le> PInf"
  by (cases x) auto

lemma less_xfloat_simps [simp]:
  "Fin x < Fin y \<longleftrightarrow> x < y" "NInf < Fin x" "NInf < PInf" "Fin x < PInf"
  "\<not> z < NInf" "\<not> PInf < z"
  by (auto simp: less_xfloat_def)

section \<open>Rounding to nearest, ties to even\<close>

text \<open>The integer nearest to a rational, an even one where two are equally near.\<close>

definition rne :: "rat \<Rightarrow> int" where
  "rne x =
     (let f = \<lfloor>x\<rfloor>; d = x - of_int f
      in if d < 1/2 then f else if 1/2 < d then f + 1 else if even f then f else f + 1)"

text \<open>A positive rational's binary exponent: \<open>2 powi ilog2 x \<le> x < 2 powi (ilog2 x + 1)\<close>.\<close>

definition ilog2 :: "rat \<Rightarrow> int" where
  "ilog2 x =
     (let (n, d) = quotient_of x; k = bitlen n - bitlen d
      in if 2 powi k \<le> x then k else k - 1)"

text \<open>Rounding to a multiple of the quantum \<open>q\<close>.\<close>

definition round_to :: "rat \<Rightarrow> rat \<Rightarrow> rat" where
  "round_to q x = of_int (rne (x / q)) * q"

text \<open>Rounding a value to \<open>p\<close> significant bits (\<open>big.Float\<close>'s \<open>round\<close>), either sign.\<close>

definition round_prec :: "nat \<Rightarrow> rat \<Rightarrow> rat" where
  "round_prec p x =
     (if x = 0 then 0
      else if 0 < x then round_to (2 powi (ilog2 x - int p + 1)) x
      else - round_to (2 powi (ilog2 (- x) - int p + 1)) (- x))"

text \<open>
  \<open>Float64\<close> of a positive finite value: 53 significant bits, fewer below \<open>2 powi -1022\<close> where the
  quantum stays \<open>2 powi -1074\<close>; a result that needs the exponent 1024 overflows to infinity.
\<close>

definition float64_pos :: "rat \<Rightarrow> xfloat" where
  "float64_pos x =
     (let e = ilog2 x;
          q = (if e < -1022 then 2 powi (-1074) else 2 powi (e - 52));
          r = round_to q x
      in if 2 ^ 1024 \<le> r then PInf else Fin r)"

fun neg_xfloat :: "xfloat \<Rightarrow> xfloat" where
  "neg_xfloat NInf = PInf"
| "neg_xfloat (Fin x) = Fin (- x)"
| "neg_xfloat PInf = NInf"

fun Float64 :: "xfloat \<Rightarrow> xfloat" where
  "Float64 NInf = NInf"
| "Float64 PInf = PInf"
| "Float64 (Fin x) =
     (if x = 0 then Fin 0 else if 0 < x then float64_pos x else neg_xfloat (float64_pos (- x)))"

section \<open>\<open>big.Float\<close>\<close>

record big_float =
  bf_prec :: nat
  bf_val :: xfloat

text \<open>\<open>SetInt\<close> on a fresh float: exact, the precision the larger of 64 and the bit length.\<close>

definition SetInt :: "int \<Rightarrow> big_float" where
  "SetInt x = \<lparr>bf_prec = max (nat (bitlen \<bar>x\<bar>)) 64, bf_val = Fin (of_int x)\<rparr>"

text \<open>The sign of an infinite quotient.\<close>

definition signed_inf :: "bool \<Rightarrow> xfloat" where
  "signed_inf neg = (if neg then NInf else PInf)"

fun is_neg :: "xfloat \<Rightarrow> bool" where
  "is_neg NInf = True"
| "is_neg (Fin x) = (x < 0)"
| "is_neg PInf = False"

text \<open>
  \<open>Quo\<close> into a fresh float: the larger precision of the operands, correctly rounded; zero by zero
  and infinity by infinity panic.
\<close>

definition Quo :: "big_float \<Rightarrow> big_float \<Rightarrow> big_float go" where
  "Quo x y =
     (let p = max (bf_prec x) (bf_prec y); neg = (is_neg (bf_val x) \<noteq> is_neg (bf_val y))
      in case (bf_val x, bf_val y) of
           (Fin a, Fin b) \<Rightarrow>
             if a = 0 \<and> b = 0 then None
             else if a = 0 then Some \<lparr>bf_prec = p, bf_val = Fin 0\<rparr>
             else if b = 0 then Some \<lparr>bf_prec = p, bf_val = signed_inf neg\<rparr>
             else Some \<lparr>bf_prec = p, bf_val = Fin (round_prec p (a / b))\<rparr>
         | (Fin a, _) \<Rightarrow> Some \<lparr>bf_prec = p, bf_val = Fin 0\<rparr>
         | (_, Fin b) \<Rightarrow> Some \<lparr>bf_prec = p, bf_val = signed_inf neg\<rparr>
         | (_, _) \<Rightarrow> None)"

text \<open>The \<open>Price\<close> computation: \<open>price, _ := new(big.Float).Quo(num, den).Float64()\<close>.\<close>

definition quo_float64 :: "int \<Rightarrow> int \<Rightarrow> xfloat go" where
  "quo_float64 n d = map_option (\<lambda>q. Float64 (bf_val q)) (Quo (SetInt n) (SetInt d))"

lemma quo_float64_None_iff: "quo_float64 n d = None \<longleftrightarrow> n = 0 \<and> d = 0"
  by (simp add: quo_float64_def Quo_def SetInt_def Let_def)

definition quo_prec :: "int \<Rightarrow> int \<Rightarrow> nat" where
  "quo_prec n d = max (max (nat (bitlen \<bar>n\<bar>)) 64) (max (nat (bitlen \<bar>d\<bar>)) 64)"

lemma quo_float64_pos:
  "0 < n \<Longrightarrow> 0 < d \<Longrightarrow>
    quo_float64 n d = Some (Float64 (Fin (round_prec (quo_prec n d) (of_int n / of_int d))))"
  unfolding quo_float64_def Quo_def SetInt_def Let_def quo_prec_def by simp

section \<open>Properties of the rounding\<close>

lemma rne_ge_floor: "\<lfloor>x\<rfloor> \<le> rne x"
  by (simp add: rne_def Let_def)

lemma rne_le_floor: "rne x \<le> \<lfloor>x\<rfloor> + 1"
  by (simp add: rne_def Let_def)

lemma rne_of_int [simp]: "rne (of_int n) = n"
  by (simp add: rne_def)

lemma rne_error: "\<bar>of_int (rne x) - x\<bar> \<le> 1/2"
proof -
  have "of_int \<lfloor>x\<rfloor> \<le> x" "x < of_int \<lfloor>x\<rfloor> + 1" by linarith+
  then show ?thesis
    by (auto simp: rne_def Let_def abs_le_iff)
qed

lemma rne_mono:
  assumes "x \<le> y"
  shows "rne x \<le> rne y"
proof (cases "\<lfloor>x\<rfloor> = \<lfloor>y\<rfloor>")
  case True
  then show ?thesis using assms by (auto simp: rne_def Let_def)
next
  case False
  then have "\<lfloor>x\<rfloor> + 1 \<le> \<lfloor>y\<rfloor>" using floor_mono [OF assms] by linarith
  then show ?thesis using rne_le_floor [of x] rne_ge_floor [of y] by linarith
qed

lemma round_to_mono: "0 < q \<Longrightarrow> x \<le> y \<Longrightarrow> round_to q x \<le> round_to q y"
  by (simp add: round_to_def rne_mono divide_right_mono mult_right_mono)

lemma round_to_error:
  assumes "0 < q"
  shows "\<bar>round_to q x - x\<bar> \<le> q / 2"
proof -
  have "round_to q x - x = (of_int (rne (x / q)) - x / q) * q"
    using assms by (simp add: round_to_def left_diff_distrib)
  then have "\<bar>round_to q x - x\<bar> = \<bar>of_int (rne (x / q)) - x / q\<bar> * q"
    using assms by (simp add: abs_mult)
  also have "\<dots> \<le> 1/2 * q"
    using assms rne_error by (intro mult_right_mono) auto
  finally show ?thesis by simp
qed

lemma two_powi_pos [simp]: "0 < (2::rat) powi k"
  by simp

lemma round_to_pow2:
  assumes "k \<le> j"
  shows "round_to (2 powi k) (2 powi j) = 2 powi j"
proof -
  have "(2::rat) powi j / 2 powi k = 2 powi (j - k)"
    by (simp add: power_int_diff)
  also have "\<dots> = of_int (2 ^ nat (j - k))"
    using assms by (simp add: power_int_nonneg_exp)
  finally have quot: "(2::rat) powi j / 2 powi k = of_int (2 ^ nat (j - k))" .
  have "round_to (2 powi k) (2 powi j) = (2::rat) powi j / 2 powi k * 2 powi k"
    unfolding round_to_def quot by (simp only: rne_of_int)
  then show ?thesis by simp
qed

lemma ilog2_bounds:
  assumes "0 < x"
  shows "2 powi ilog2 x \<le> x" "x < 2 powi (ilog2 x + 1)"
proof -
  obtain n d where q: "quotient_of x = (n, d)" by force
  then have d: "0 < d" and x: "x = of_int n / of_int d"
    by (auto intro: quotient_of_denom_pos quotient_of_div)
  with assms have n: "0 < n" by (simp add: zero_less_divide_iff)
  let ?a = "bitlen n" and ?b = "bitlen d"
  have pos: "1 \<le> ?a" "1 \<le> ?b"
    using n d bitlen_nonneg [of n] bitlen_nonneg [of d] bitlen_eq_zero_iff [of n] bitlen_eq_zero_iff [of d]
    by linarith+
  have "2 ^ nat (?a - 1) \<le> n" "n < 2 ^ nat ?a" "2 ^ nat (?b - 1) \<le> d" "d < 2 ^ nat ?b"
    using bitlen_bounds n d by blast+
  then have nb: "(2::rat) ^ nat (?a - 1) \<le> of_int n" "of_int n < (2::rat) ^ nat ?a"
    and db: "(2::rat) ^ nat (?b - 1) \<le> of_int d" "of_int d < (2::rat) ^ nat ?b"
    by (metis of_int_le_iff of_int_less_iff of_int_numeral of_int_power)+
  have up: "x < 2 powi (?a - ?b + 1)"
  proof -
    have "x < 2 ^ nat ?a / 2 ^ nat (?b - 1)"
      unfolding x using nb db n d by (intro frac_less) auto
    also have "\<dots> = 2 powi (?a - (?b - 1))"
      using pos by (simp add: power_int_diff power_int_nonneg_exp)
    finally show ?thesis by (simp add: algebra_simps)
  qed
  have low: "2 powi (?a - ?b - 1) \<le> x"
  proof -
    have "2 powi (?a - ?b - 1) = (2::rat) powi (?a - 1) / 2 powi ?b"
      by (simp add: power_int_diff)
    also have "\<dots> = 2 ^ nat (?a - 1) / 2 ^ nat ?b"
      using pos by (simp add: power_int_nonneg_exp)
    also have "\<dots> \<le> x"
      unfolding x using nb db n d by (intro frac_le) auto
    finally show ?thesis .
  qed
  show "2 powi ilog2 x \<le> x" "x < 2 powi (ilog2 x + 1)"
    using up low by (auto simp: ilog2_def q Let_def)
qed

lemma ilog2_mono:
  assumes "0 < x" "x \<le> y"
  shows "ilog2 x \<le> ilog2 y"
proof -
  have "(2::rat) powi ilog2 x < 2 powi (ilog2 y + 1)"
    using ilog2_bounds(1) [OF assms(1)] ilog2_bounds(2) [of y] assms by linarith
  then have "ilog2 x < ilog2 y + 1"
    by (metis not_less one_le_numeral power_int_increasing)
  then show ?thesis by simp
qed

text \<open>
  Rounding with quanta that depend on the value stays monotone, as long as equal exponents give
  equal quanta and no quantum exceeds the larger value's exponent.
\<close>

lemma round_to_mono_exp:
  assumes "0 < x" "x \<le> y"
    and eq: "ilog2 x = ilog2 y \<Longrightarrow> j = k" and j: "j \<le> ilog2 y" and k: "k \<le> ilog2 y"
  shows "round_to (2 powi j) x \<le> round_to (2 powi k) y"
proof (cases "ilog2 x = ilog2 y")
  case True
  with eq assms(2) show ?thesis by (simp add: round_to_mono)
next
  case False
  with ilog2_mono [OF assms(1,2)] have "ilog2 x + 1 \<le> ilog2 y" by simp
  then have "(2::rat) powi (ilog2 x + 1) \<le> 2 powi ilog2 y"
    by (simp add: power_int_increasing)
  then have "x \<le> 2 powi ilog2 y" using ilog2_bounds(2) [OF assms(1)] by linarith
  then have "round_to (2 powi j) x \<le> round_to (2 powi j) (2 powi ilog2 y)"
    by (simp add: round_to_mono)
  also have "\<dots> = round_to (2 powi k) (2 powi ilog2 y)"
    by (simp add: round_to_pow2 j k)
  also have "\<dots> \<le> round_to (2 powi k) y"
    using assms ilog2_bounds(1) [of y] by (simp add: round_to_mono)
  finally show ?thesis .
qed

lemma round_prec_mono:
  assumes "0 < x" "x \<le> y" "1 \<le> p"
  shows "round_prec p x \<le> round_prec p y"
  using assms ilog2_mono [OF assms(1,2)]
  by (auto simp: round_prec_def intro!: round_to_mono_exp)

text \<open>\<open>Float64\<close>'s quantum as one exponent.\<close>

definition float64_qexp :: "rat \<Rightarrow> int" where
  "float64_qexp x = (if ilog2 x < -1022 then -1074 else ilog2 x - 52)"

lemma float64_pos_qexp:
  "float64_pos x = (let r = round_to (2 powi float64_qexp x) x in if 2 ^ 1024 \<le> r then PInf else Fin r)"
  unfolding float64_pos_def float64_qexp_def Let_def by (simp only: if_distrib [of "\<lambda>k. 2 powi k"])

lemma round_float64_mono:
  assumes "0 < x" "x \<le> y"
  shows "round_to (2 powi float64_qexp x) x \<le> round_to (2 powi float64_qexp y) y"
proof (cases "float64_qexp x = float64_qexp y")
  case True
  with assms(2) show ?thesis by (simp add: round_to_mono)
next
  case False
  with ilog2_mono [OF assms] show ?thesis
    by (intro round_to_mono_exp assms) (auto simp: float64_qexp_def split: if_splits)
qed

lemma float64_pos_mono:
  assumes "0 < x" "x \<le> y"
  shows "float64_pos x \<le> float64_pos y"
  using round_float64_mono [OF assms] by (simp add: float64_pos_qexp Let_def)

lemma ilog2_ge: "0 < x \<Longrightarrow> 2 powi k \<le> x \<Longrightarrow> k \<le> ilog2 x"
proof (rule ccontr)
  assume "0 < x" "2 powi k \<le> x" "\<not> k \<le> ilog2 x"
  then have "(2::rat) powi (ilog2 x + 1) \<le> 2 powi k" by (intro power_int_increasing) auto
  with ilog2_bounds(2) [of x] \<open>0 < x\<close> \<open>2 powi k \<le> x\<close> show False by linarith
qed

text \<open>Relative errors: half a unit in the last place.\<close>

lemma round_prec_error:
  assumes "0 < x"
  shows "\<bar>round_prec p x - x\<bar> \<le> x * 2 powi (- int p)"
proof -
  have "\<bar>round_prec p x - x\<bar> \<le> 2 powi (ilog2 x - int p + 1) / 2"
    using assms round_to_error [of "2 powi (ilog2 x - int p + 1)" x] by (simp add: round_prec_def)
  also have "\<dots> = 2 powi ilog2 x * 2 powi (- int p)"
    by (simp add: power_int_add power_int_diff power_int_minus field_simps)
  also have "\<dots> \<le> x * 2 powi (- int p)"
    using ilog2_bounds(1) [OF assms] by (intro mult_right_mono) auto
  finally show ?thesis .
qed

lemma float64_pos_error:
  assumes "2 powi (-1022) \<le> x" "x < 2 ^ 1023"
  shows "\<exists>r. float64_pos x = Fin r \<and> \<bar>r - x\<bar> \<le> x * 2 powi (-53)"
proof -
  have x: "0 < x" using assms(1) two_powi_pos [of "-1022"] by linarith
  have e: "-1022 \<le> ilog2 x" using ilog2_ge [OF x assms(1)] .
  define r where "r = round_to (2 powi (ilog2 x - 52)) x"
  have "\<bar>r - x\<bar> \<le> 2 powi (ilog2 x - 52) / 2"
    unfolding r_def by (rule round_to_error) simp
  also have "\<dots> = 2 powi ilog2 x * 2 powi (-53)"
    by (simp add: power_int_diff power_int_minus)
  also have "\<dots> \<le> x * 2 powi (-53)"
    using ilog2_bounds(1) [OF x] by (intro mult_right_mono) auto
  finally have err: "\<bar>r - x\<bar> \<le> x * 2 powi (-53)" .
  have "x * 2 powi (-53) \<le> x * 1"
    using x by (intro mult_left_mono) (auto simp: power_int_minus)
  with err have "r \<le> 2 * x" by linarith
  also have "\<dots> < 2 ^ 1024" using assms(2) by simp
  finally show ?thesis
    using e err by (auto simp: float64_pos_def Let_def simp flip: r_def)
qed

section \<open>The quotient of two amounts\<close>

lemma round_prec_pos: "0 < x \<Longrightarrow> 1 \<le> p \<Longrightarrow> 0 < round_prec p x"
proof -
  assume x: "0 < x" and p: "1 \<le> p"
  have "(2::rat) powi ilog2 x = round_to (2 powi (ilog2 x - int p + 1)) (2 powi ilog2 x)"
    using p by (simp add: round_to_pow2)
  also have "\<dots> \<le> round_prec p x"
    using x ilog2_bounds(1) [OF x] by (simp add: round_prec_def round_to_mono)
  finally show ?thesis by (metis two_powi_pos less_le_trans)
qed

lemma quo_prec_ge: "64 \<le> quo_prec n d"
  by (simp add: quo_prec_def)

lemma quo_float64_pos':
  assumes "0 < n" "0 < d"
  shows "quo_float64 n d = Some (float64_pos (round_prec (quo_prec n d) (of_int n / of_int d)))"
    and "0 < round_prec (quo_prec n d) (of_int n / of_int d)"
proof -
  show pos: "0 < round_prec (quo_prec n d) (of_int n / of_int d)"
    using assms quo_prec_ge [of n d] by (intro round_prec_pos) auto
  then show "quo_float64 n d = Some (float64_pos (round_prec (quo_prec n d) (of_int n / of_int d)))"
    using quo_float64_pos [OF assms] by simp
qed

lemma quo_float64_mono:
  assumes "0 < n" "0 < d" "0 < n'" "0 < d'"
    and prec: "quo_prec n d = quo_prec n' d'" and le: "n * d' \<le> n' * d"
    and "quo_float64 n d = Some x" "quo_float64 n' d' = Some y"
  shows "x \<le> y"
proof -
  have "of_int (n * d') \<le> (of_int (n' * d) :: rat)" using le by (simp only: of_int_le_iff)
  then have "of_int n / of_int d \<le> (of_int n' / of_int d' :: rat)"
    using assms(1-4) by (simp add: field_simps)
  then have "round_prec (quo_prec n d) (of_int n / of_int d)
      \<le> round_prec (quo_prec n' d') (of_int n' / of_int d')"
    unfolding prec using assms(1-4) quo_prec_ge [of n' d'] by (intro round_prec_mono) auto
  then show ?thesis
    using assms quo_float64_pos' [of n d] quo_float64_pos' [of n' d'] by (auto intro: float64_pos_mono)
qed

lemma quo_prec_64:
  assumes "0 \<le> n" "n < 2 ^ 64" "0 \<le> d" "d < 2 ^ 64"
  shows "quo_prec n d = 64"
  using assms bitlen_le_iff_power [of n 64] bitlen_le_iff_power [of d 64] by (simp add: quo_prec_def)

text \<open>A price that is a whole number below \<open>2 ^ 53\<close> is computed exactly.\<close>

lemma round_to_int:
  assumes "j \<le> 0"
  shows "round_to (2 powi j) (of_int k) = of_int k"
proof -
  have "(of_int k :: rat) / 2 powi j = of_int k * 2 powi (- j)" by (simp add: power_int_minus field_simps)
  also have "\<dots> = of_int (k * 2 ^ nat (- j))" using assms by (simp add: power_int_nonneg_exp)
  finally have "round_to (2 powi j) (of_int k) = (of_int k :: rat) / 2 powi j * 2 powi j"
    unfolding round_to_def by (simp only: rne_of_int)
  then show ?thesis by simp
qed

lemma quo_float64_whole:
  assumes "0 < k" "k < 2 ^ 53" "0 < d"
  shows "quo_float64 (k * d) d = Some (Fin (of_int k))"
proof -
  let ?x = "of_int k :: rat"
  have x: "0 < ?x" "1 \<le> ?x" "?x < 2 ^ 53" using assms(1,2)
    by (simp, simp, metis of_int_less_iff of_int_numeral of_int_power)
  have lo: "0 \<le> ilog2 ?x" using ilog2_ge [OF x(1), of 0] x(2) by simp
  have "(2::rat) powi ilog2 ?x < 2 ^ 53" using ilog2_bounds(1) [OF x(1)] x(3) by (rule le_less_trans)
  then have "(2::rat) powi ilog2 ?x < 2 powi 53" by simp
  then have hi: "ilog2 ?x < 53"
    by (metis linorder_not_less power_int_increasing one_le_numeral)
  have "round_prec (quo_prec (k * d) d) ?x = ?x"
    using x hi quo_prec_ge [of "k * d" d] by (simp add: round_prec_def round_to_int)
  moreover have "float64_pos ?x = Fin ?x"
    using lo hi x(3) by (simp add: float64_pos_def Let_def round_to_int)
  moreover have "of_int (k * d) / of_int d = ?x" using assms(3) by simp
  ultimately show ?thesis using quo_float64_pos'(1) [of "k * d" d] assms by simp
qed
text \<open>For \<open>uint256\<close> amounts a price is finite and within a relative \<open>2 powi -52\<close> of the quotient.\<close>

lemma quo_float64_error:
  assumes "0 < n" "n \<le> 2 ^ 256" "0 < d" "d \<le> 2 ^ 256"
  shows "\<exists>r. quo_float64 n d = Some (Fin r) \<and>
    \<bar>r - of_int n / of_int d\<bar> \<le> of_int n / of_int d * 2 powi (-52)"
proof -
  define x :: rat where "x = of_int n / of_int d"
  define r1 where "r1 = round_prec (quo_prec n d) x"
  have x: "0 < x" using assms by (simp add: x_def)
  have nd: "(of_int n :: rat) \<le> 2 ^ 256" "(of_int d :: rat) \<le> 2 ^ 256"
    using assms by (metis of_int_le_iff of_int_numeral of_int_power)+
  have xl: "1 / 2 ^ 256 \<le> x"
    unfolding x_def using nd assms by (intro frac_le) auto
  have "x \<le> 2 ^ 256 / 1"
    unfolding x_def using nd assms by (intro frac_le) auto
  then have xu: "x \<le> 2 ^ 256" by simp
  have "\<bar>r1 - x\<bar> \<le> x * 2 powi (- int (quo_prec n d))"
    unfolding r1_def by (rule round_prec_error [OF x])
  also have "\<dots> \<le> x * 2 powi (-64)"
    using x quo_prec_ge [of n d] by (intro mult_left_mono power_int_increasing) auto
  finally have e1: "\<bar>r1 - x\<bar> \<le> x * 2 powi (-64)" .
  then have r1: "r1 \<le> x + x * 2 powi (-64)" "x - x * 2 powi (-64) \<le> r1" by linarith+
  have small: "(2::rat) powi (-1022) \<le> 1 / 2 ^ 257"
    using power_int_increasing [of "-1022" "-257" "2::rat"] by (simp add: power_int_minus field_simps)
  have "1 / 2 ^ 257 \<le> x / 2" using xl by simp
  also have "\<dots> \<le> r1" using r1(2) x by (simp add: power_int_minus)
  finally have lo: "2 powi (-1022) \<le> r1" using small by linarith
  have "r1 \<le> 2 * x" using r1(1) x by (simp add: power_int_minus)
  also have "\<dots> \<le> 2 * 2 ^ 256" using xu by simp
  also have "\<dots> < 2 ^ 1023" by simp
  finally have hi: "r1 < 2 ^ 1023" .
  obtain r where r: "float64_pos r1 = Fin r" "\<bar>r - r1\<bar> \<le> r1 * 2 powi (-53)"
    using float64_pos_error [OF lo hi] by blast
  have "\<bar>r - x\<bar> \<le> \<bar>r - r1\<bar> + \<bar>r1 - x\<bar>" by linarith
  also have "\<dots> \<le> (x + x * 2 powi (-64)) * 2 powi (-53) + x * 2 powi (-64)"
    using r(2) e1 mult_right_mono [OF r1(1), of "2 powi (-53)"] by simp
  also have "\<dots> \<le> x * 2 powi (-52)"
    using x by (simp add: power_int_minus field_simps)
  finally show ?thesis
    using quo_float64_pos'(1) [OF assms(1,3)] r(1) by (auto simp: r1_def x_def)
qed

lemma ilog2_eqI: "2 powi k \<le> x \<Longrightarrow> x < 2 powi (k + 1) \<Longrightarrow> ilog2 x = k"
proof -
  assume a: "2 powi k \<le> x" "x < 2 powi (k + 1)"
  then have x: "0 < x" using two_powi_pos [of k] by linarith
  have "k \<le> ilog2 x" using ilog2_ge [OF x a(1)] .
  moreover have "ilog2 x < k + 1"
  proof (rule ccontr)
    assume "\<not> ilog2 x < k + 1"
    then have "(2::rat) powi (k + 1) \<le> 2 powi ilog2 x" by (intro power_int_increasing) auto
    then show False using ilog2_bounds(1) [OF x] a(2) by linarith
  qed
  ultimately show ?thesis by simp
qed

text \<open>Two different quotients with the same \<open>float64\<close>: \<open>2 - 2 ^ -53\<close> rounds to 2.\<close>

lemma quo_float64_just_below_two: "quo_float64 (2 ^ 54 - 1) (2 ^ 53) = Some (Fin 2)"
proof -
  let ?x = "of_int (2 ^ 54 - 1) / of_int (2 ^ 53) :: rat"
  have e: "ilog2 ?x = 0" by (rule ilog2_eqI) simp_all
  have p: "quo_prec (2 ^ 54 - 1) (2 ^ 53) = 64" by (rule quo_prec_64) simp_all
  have r: "round_to (2 powi (- 63)) ?x = ?x"
    unfolding round_to_def using rne_of_int [of "(2 ^ 54 - 1) * 2 ^ 10"] by (simp add: power_int_minus)
  have rp: "round_prec 64 ?x = ?x" using r e by (simp add: round_prec_def)
  have "\<lfloor>18014398509481983 / 2 :: rat\<rfloor> = 9007199254740991" by (simp add: floor_eq_iff)
  then have f: "float64_pos ?x = Fin 2"
    unfolding float64_pos_def Let_def e by (simp add: round_to_def rne_def power_int_minus Let_def)
  have "quo_float64 (2 ^ 54 - 1) (2 ^ 53) = Some (float64_pos (round_prec (quo_prec (2 ^ 54 - 1) (2 ^ 53)) ?x))"
    by (rule quo_float64_pos'(1)) simp_all
  then show ?thesis by (simp only: p rp f)
qed
end
