(* ===== verification/Orders.thy ===== *)
theory Orders
  imports Float64 "HOL-Library.Word"
begin

text \<open>
  The package \<open>internal/domain\<close>: orders, trades and the submission payload.  \<open>*big.Int\<close> values
  are integers (the code replaces a stored \<open>big.Int\<close> by a fresh one, it never updates one in place
  that another structure can see), \<open>uint64\<close> fields are 64-bit words, and a \<open>time.Time\<close> is its
  position on the time line, an integer.  \<open>Side\<close> and \<open>OrderStatus\<close> are strings, as in the code:
  nothing in Go limits them to the declared constants.
\<close>

section \<open>Sides and statuses\<close>

type_synonym Side = string
type_synonym OrderStatus = string
type_synonym time = int

definition SideBuy :: Side where "SideBuy = ''buy''"
definition SideSell :: Side where "SideSell = ''sell''"

definition OrderStatusOpen :: OrderStatus where "OrderStatusOpen = ''open''"
definition OrderStatusPartiallyFilled :: OrderStatus where
  "OrderStatusPartiallyFilled = ''partially_filled''"
definition OrderStatusFilled :: OrderStatus where "OrderStatusFilled = ''filled''"
definition OrderStatusCancelled :: OrderStatus where "OrderStatusCancelled = ''cancelled''"

lemmas side_defs = SideBuy_def SideSell_def
lemmas status_defs = OrderStatusOpen_def OrderStatusPartiallyFilled_def OrderStatusFilled_def
  OrderStatusCancelled_def

lemma side_distinct [simp]: "SideBuy \<noteq> SideSell" "SideSell \<noteq> SideBuy"
  by (simp_all add: side_defs)

lemma status_distinct [simp]:
  "OrderStatusOpen \<noteq> OrderStatusPartiallyFilled" "OrderStatusPartiallyFilled \<noteq> OrderStatusOpen"
  "OrderStatusOpen \<noteq> OrderStatusFilled" "OrderStatusFilled \<noteq> OrderStatusOpen"
  "OrderStatusOpen \<noteq> OrderStatusCancelled" "OrderStatusCancelled \<noteq> OrderStatusOpen"
  "OrderStatusPartiallyFilled \<noteq> OrderStatusFilled" "OrderStatusFilled \<noteq> OrderStatusPartiallyFilled"
  "OrderStatusPartiallyFilled \<noteq> OrderStatusCancelled" "OrderStatusCancelled \<noteq> OrderStatusPartiallyFilled"
  "OrderStatusFilled \<noteq> OrderStatusCancelled" "OrderStatusCancelled \<noteq> OrderStatusFilled"
  by (simp_all add: status_defs)

section \<open>Orders, trades, submissions\<close>

record Order =
  ID :: string
  Maker :: string
  TokenSell :: string
  TokenBuy :: string
  AmountSell :: int
  AmountBuy :: int
  Expiry :: "64 word"
  Nonce :: "64 word"
  Salt :: int
  Signature :: string
  Side :: Side
  Status :: OrderStatus
  FilledBase :: int
  OPair :: string
  CreatedAt :: time
  UpdatedAt :: time

record Trade =
  TradeID :: string
  BuyOrderID :: string
  SellOrderID :: string
  Buyer :: string
  Seller :: string
  TPair :: string
  BaseAmount :: int
  TQuoteAmount :: int
  TPrice :: xfloat
  TxHash :: string
  SettledOnChain :: bool
  TCreatedAt :: time

record OrderSubmission =
  sMaker :: string
  sTokenSell :: string
  sTokenBuy :: string
  sAmountSell :: string
  sAmountBuy :: string
  sExpiry :: "64 word"
  sNonce :: "64 word"
  sSalt :: string
  sSignature :: string
  sSide :: Side
  sPair :: string

section \<open>Price and remaining amount\<close>

text \<open>\<open>Price\<close>: quote per base as a \<open>float64\<close>.  The quotient of two zero amounts panics.\<close>

definition Price :: "Order \<Rightarrow> xfloat go" where
  "Price od =
     (if Side od = SideBuy then quo_float64 (AmountSell od) (AmountBuy od)
      else quo_float64 (AmountBuy od) (AmountSell od))"

definition RemainingBase :: "Order \<Rightarrow> int" where
  "RemainingBase od =
     (if Side od = SideBuy then AmountBuy od - FilledBase od else AmountSell od - FilledBase od)"

text \<open>The two amounts of an order by token: base (what is filled) and quote (what prices it).\<close>

definition base_amount :: "Order \<Rightarrow> int" where
  "base_amount od = (if Side od = SideBuy then AmountBuy od else AmountSell od)"

definition quote_amount :: "Order \<Rightarrow> int" where
  "quote_amount od = (if Side od = SideBuy then AmountSell od else AmountBuy od)"

lemma RemainingBase_eq: "RemainingBase od = base_amount od - FilledBase od"
  by (simp add: RemainingBase_def base_amount_def)

lemma Price_eq: "Price od = quo_float64 (quote_amount od) (base_amount od)"
  by (simp add: Price_def base_amount_def quote_amount_def)

lemma Price_panics_iff: "Price od = None \<longleftrightarrow> AmountSell od = 0 \<and> AmountBuy od = 0"
  by (auto simp: Price_def quo_float64_None_iff)

lemma Price_base_pos: "base_amount od \<noteq> 0 \<Longrightarrow> \<exists>p. Price od = Some p"
  using Price_panics_iff [of od] by (cases "Price od") (auto simp: base_amount_def split: if_splits)

text \<open>What the mutable fields of an order do not touch.\<close>

lemma order_frame [simp, frame_simps]:
  "Price (od\<lparr>FilledBase := x\<rparr>) = Price od" "Price (od\<lparr>Status := st\<rparr>) = Price od"
  "base_amount (od\<lparr>FilledBase := x\<rparr>) = base_amount od" "base_amount (od\<lparr>Status := st\<rparr>) = base_amount od"
  "quote_amount (od\<lparr>FilledBase := x\<rparr>) = quote_amount od" "quote_amount (od\<lparr>Status := st\<rparr>) = quote_amount od"
  "RemainingBase (od\<lparr>Status := st\<rparr>) = RemainingBase od"
  by (simp_all add: Price_def base_amount_def quote_amount_def RemainingBase_def)

end
