(* ===== verification/BookHeap.thy ===== *)
theory BookHeap
  imports GoHeap Orders
begin

text \<open>
  \<open>internal/orderbook/heap.go\<close>: the two priority queues of the book.  Orders and heap entries are
  shared through pointers (an entry sits in a heap and in the book's \<open>orderMap\<close>, an order is held by
  its entry, by the caller and by match results), so they live in an explicit store \<open>mem\<close> and are
  named by references.  A heap is the slice of its entry references together with that store.
  The last part discharges the contract of \<open>container/heap\<close> for both heaps.
\<close>

section \<open>The store\<close>

type_synonym oref = nat
type_synonym eref = nat

record OrderEntry =
  entryOrder :: oref
  Index :: int

record mem =
  ordAt :: "oref \<Rightarrow> Order"
  entAt :: "eref \<Rightarrow> OrderEntry"
  nextE :: eref

abbreviation order_of :: "mem \<Rightarrow> eref \<Rightarrow> Order" where
  "order_of m e \<equiv> ordAt m (entryOrder (entAt m e))"

definition set_index :: "mem \<Rightarrow> eref \<Rightarrow> int \<Rightarrow> mem" where
  "set_index m e i = m\<lparr>entAt := (entAt m)(e := (entAt m e)\<lparr>Index := i\<rparr>)\<rparr>"

lemma set_index_frame [simp, frame_simps]:
  "ordAt (set_index m e i) = ordAt m" "nextE (set_index m e i) = nextE m"
  "entryOrder (entAt (set_index m e i) e') = entryOrder (entAt m e')"
  by (simp_all add: set_index_def)

lemma Index_set_index [simp]:
  "Index (entAt (set_index m e i) e') = (if e' = e then i else Index (entAt m e'))"
  by (simp add: set_index_def)

type_synonym hstate = "mem \<times> eref list"

section \<open>\<open>BuyHeap\<close>: highest price first, then earliest\<close>

fun BuyHeap_Len :: "hstate \<Rightarrow> nat" where
  "BuyHeap_Len (m, h) = length h"

fun BuyHeap_Less :: "hstate \<Rightarrow> nat \<Rightarrow> nat \<Rightarrow> bool go" where
  "BuyHeap_Less (m, h) i j = do {
     _ \<leftarrow> guard_go (i < length h);
     pi \<leftarrow> Price (order_of m (h ! i));
     _ \<leftarrow> guard_go (j < length h);
     pj \<leftarrow> Price (order_of m (h ! j));
     Some (if pi \<noteq> pj then pj < pi
           else CreatedAt (order_of m (h ! i)) < CreatedAt (order_of m (h ! j)))
   }"

fun BuyHeap_Swap :: "hstate \<Rightarrow> nat \<Rightarrow> nat \<Rightarrow> hstate go" where
  "BuyHeap_Swap (m, h) i j = do {
     _ \<leftarrow> guard_go (i < length h \<and> j < length h);
     let h' = swap_at h i j;
     Some (set_index (set_index m (h' ! i) (int i)) (h' ! j) (int j), h')
   }"

fun BuyHeap_Push :: "hstate \<Rightarrow> eref \<Rightarrow> hstate go" where
  "BuyHeap_Push (m, h) entry = Some (set_index m entry (int (length h)), h @ [entry])"

fun BuyHeap_Pop :: "hstate \<Rightarrow> (eref \<times> hstate) go" where
  "BuyHeap_Pop (m, old) = do {
     _ \<leftarrow> guard_go (old \<noteq> []);
     let entry = last old;
     Some (entry, (set_index m entry (-1), butlast old))
   }"

definition BuyHeap :: "(hstate, eref) heap_Interface" where
  "BuyHeap = \<lparr>hLen = BuyHeap_Len, hLess = BuyHeap_Less, hSwap = BuyHeap_Swap,
     hPush = BuyHeap_Push, hPop = BuyHeap_Pop\<rparr>"

section \<open>\<open>SellHeap\<close>: lowest price first, then earliest\<close>

fun SellHeap_Len :: "hstate \<Rightarrow> nat" where
  "SellHeap_Len (m, h) = length h"

fun SellHeap_Less :: "hstate \<Rightarrow> nat \<Rightarrow> nat \<Rightarrow> bool go" where
  "SellHeap_Less (m, h) i j = do {
     _ \<leftarrow> guard_go (i < length h);
     pi \<leftarrow> Price (order_of m (h ! i));
     _ \<leftarrow> guard_go (j < length h);
     pj \<leftarrow> Price (order_of m (h ! j));
     Some (if pi \<noteq> pj then pi < pj
           else CreatedAt (order_of m (h ! i)) < CreatedAt (order_of m (h ! j)))
   }"

fun SellHeap_Swap :: "hstate \<Rightarrow> nat \<Rightarrow> nat \<Rightarrow> hstate go" where
  "SellHeap_Swap (m, h) i j = do {
     _ \<leftarrow> guard_go (i < length h \<and> j < length h);
     let h' = swap_at h i j;
     Some (set_index (set_index m (h' ! i) (int i)) (h' ! j) (int j), h')
   }"

fun SellHeap_Push :: "hstate \<Rightarrow> eref \<Rightarrow> hstate go" where
  "SellHeap_Push (m, h) entry = Some (set_index m entry (int (length h)), h @ [entry])"

fun SellHeap_Pop :: "hstate \<Rightarrow> (eref \<times> hstate) go" where
  "SellHeap_Pop (m, old) = do {
     _ \<leftarrow> guard_go (old \<noteq> []);
     let entry = last old;
     Some (entry, (set_index m entry (-1), butlast old))
   }"

definition SellHeap :: "(hstate, eref) heap_Interface" where
  "SellHeap = \<lparr>hLen = SellHeap_Len, hLess = SellHeap_Less, hSwap = SellHeap_Swap,
     hPush = SellHeap_Push, hPop = SellHeap_Pop\<rparr>"

section \<open>The priority as an order\<close>

definition price_of :: "Order \<Rightarrow> xfloat" where
  "price_of od = the (Price od)"

text \<open>\<open>better True\<close> is the bid side's preference, \<open>better False\<close> the ask side's.\<close>

definition better :: "bool \<Rightarrow> xfloat \<Rightarrow> xfloat \<Rightarrow> bool" where
  "better bid x y = (if bid then y < x else x < y)"

definition priority :: "bool \<Rightarrow> Order \<Rightarrow> Order \<Rightarrow> bool" where
  "priority bid o1 o2 \<longleftrightarrow> better bid (price_of o1) (price_of o2) \<or>
     price_of o1 = price_of o2 \<and> CreatedAt o1 < CreatedAt o2"

lemma better_simps [simp]: "better True x y \<longleftrightarrow> y < x" "better False x y \<longleftrightarrow> x < y"
  by (simp_all add: better_def)

lemma priority_asym: "priority bid x y \<Longrightarrow> \<not> priority bid y x"
  by (cases bid) (auto simp: priority_def)

lemma priority_neg_trans: "\<not> priority bid x y \<Longrightarrow> \<not> priority bid y z \<Longrightarrow> \<not> priority bid x z"
  by (cases bid) (auto simp: priority_def)

section \<open>Both heaps keep the contract of \<open>container/heap\<close>\<close>

text \<open>
  Relative to the store \<open>m0\<close> before the operation and a set \<open>H\<close> of entries that belong to the heap:
  orders are untouched, only the indices of \<open>H\<close> may change, no entry occurs twice, and each entry's
  \<open>Index\<close> is its position in the slice.
\<close>

fun hs_ok :: "mem \<Rightarrow> eref set \<Rightarrow> hstate \<Rightarrow> bool" where
  "hs_ok m0 H (m, h) \<longleftrightarrow>
     ordAt m = ordAt m0 \<and> nextE m = nextE m0 \<and>
     (\<forall>e. entryOrder (entAt m e) = entryOrder (entAt m0 e)) \<and>
     (\<forall>e. e \<notin> H \<longrightarrow> Index (entAt m e) = Index (entAt m0 e)) \<and>
     set h \<subseteq> H \<and> distinct h \<and> (\<forall>k < length h. Index (entAt m (h ! k)) = int k) \<and>
     (\<forall>e \<in> set h. \<exists>p. Price (order_of m0 e) = Some p)"

fun hs_pushable :: "mem \<Rightarrow> eref set \<Rightarrow> hstate \<Rightarrow> eref \<Rightarrow> bool" where
  "hs_pushable m0 H (m, h) e \<longleftrightarrow> e \<in> H \<and> e \<notin> set h \<and> (\<exists>p. Price (order_of m0 e) = Some p)"

lemma hs_Less:
  assumes "hs_ok m0 H s" "i < length (snd s)" "j < length (snd s)"
  shows "BuyHeap_Less s i j = Some (priority True (order_of m0 (snd s ! i)) (order_of m0 (snd s ! j)))"
    and "SellHeap_Less s i j = Some (priority False (order_of m0 (snd s ! i)) (order_of m0 (snd s ! j)))"
proof -
  obtain m h where s: "s = (m, h)" by (cases s)
  have "h ! i \<in> set h" "h ! j \<in> set h" using assms s by auto
  then obtain pi pj where "Price (order_of m0 (h ! i)) = Some pi" "Price (order_of m0 (h ! j)) = Some pj"
    using assms(1) s by fastforce
  then show "BuyHeap_Less s i j = Some (priority True (order_of m0 (snd s ! i)) (order_of m0 (snd s ! j)))"
    and "SellHeap_Less s i j = Some (priority False (order_of m0 (snd s ! i)) (order_of m0 (snd s ! j)))"
    using assms by (auto simp: s priority_def price_of_def)
qed

lemma hs_Swap:
  assumes "hs_ok m0 H s" "i < length (snd s)" "j < length (snd s)"
  shows "\<exists>s'. BuyHeap_Swap s i j = Some s' \<and> hs_ok m0 H s' \<and> snd s' = swap_at (snd s) i j"
proof -
  obtain m h where s: "s = (m, h)" by (cases s)
  let ?h = "swap_at h i j"
  let ?m = "set_index (set_index m (?h ! i) (int i)) (?h ! j) (int j)"
  have ij: "i < length h" "j < length h" using assms s by simp_all
  have "hs_ok m0 H (m, h)" using assms(1) s by simp
  then have h: "distinct h" "set h \<subseteq> H" "\<forall>k < length h. Index (entAt m (h ! k)) = int k" by simp_all
  have "Index (entAt ?m (?h ! k)) = int k" if k: "k < length h" for k
  proof -
    have d: "distinct ?h" using h(1) ij by simp
    then have "?h ! k = ?h ! i \<longleftrightarrow> k = i" "?h ! k = ?h ! j \<longleftrightarrow> k = j"
      using k ij by (simp_all add: nth_eq_iff_index_eq)
    moreover have "?h ! k = h ! k" if "k \<noteq> i" "k \<noteq> j" using that k ij by (simp add: nth_swap_at)
    ultimately show ?thesis using h(3) k by auto
  qed
  moreover have "?h ! i \<in> H" "?h ! j \<in> H" using h(2) ij by (auto simp: nth_swap_at)
  ultimately have "hs_ok m0 H (?m, ?h)"
    using assms(1) ij unfolding s by auto
  then show ?thesis using ij by (auto simp: s Let_def)
qed

lemma hs_Push:
  assumes "hs_ok m0 H s" "hs_pushable m0 H s x"
  shows "\<exists>s'. BuyHeap_Push s x = Some s' \<and> hs_ok m0 H s' \<and> snd s' = snd s @ [x]"
proof -
  obtain m h where s: "s = (m, h)" by (cases s)
  have "x \<notin> set h" using assms(2) s by simp
  then have "h ! k \<noteq> x" if "k < length h" for k using that nth_mem by blast
  then have "Index (entAt (set_index m x (int (length h))) ((h @ [x]) ! k)) = int k"
    if "k < Suc (length h)" for k
    using assms(1) that by (auto simp: s nth_append less_Suc_eq)
  then show ?thesis using assms by (auto simp: s)
qed

lemma hs_Pop:
  assumes "hs_ok m0 H s" "snd s \<noteq> []"
  shows "\<exists>s'. BuyHeap_Pop s = Some (last (snd s), s') \<and> hs_ok m0 H s' \<and> snd s' = butlast (snd s)"
proof -
  obtain m h where s: "s = (m, h)" by (cases s)
  with assms(2) obtain h' e where h: "h = h' @ [e]" by (cases h rule: rev_cases) auto
  have "h' ! k \<noteq> e" if "k < length h'" for k
    using assms(1) that by (auto simp: s h dest: nth_mem)
  moreover have "Index (entAt m (h' ! k)) = int k" if "k < length h'" for k
    using assms(1) that by (auto simp: s h nth_append dest: spec [of _ k])
  ultimately show ?thesis using assms(1) by (auto simp: s h)
qed

lemma sell_methods: "SellHeap_Len = BuyHeap_Len" "SellHeap_Swap = BuyHeap_Swap"
  "SellHeap_Push = BuyHeap_Push" "SellHeap_Pop = BuyHeap_Pop"
  by (auto intro!: ext)

interpretation bh: heap_laws BuyHeap "hs_ok m0 H" snd
  "\<lambda>x y. priority True (order_of m0 x) (order_of m0 y)" "hs_pushable m0 H" for m0 H
proof (unfold_locales, goal_cases)
  case (1 s)
  then show ?case by (cases s) (simp add: BuyHeap_def)
next
  case (2 s i j)
  then show ?case by (simp add: BuyHeap_def hs_Less)
next
  case (3 s i j)
  then show ?case using hs_Swap by (simp add: BuyHeap_def sell_methods)
next
  case (4 s x)
  then show ?case using hs_Push by (simp add: BuyHeap_def sell_methods)
next
  case (5 s)
  then show ?case using hs_Pop by (simp add: BuyHeap_def sell_methods)
next
  case (6 x y)
  then show ?case by (rule priority_asym)
next
  case (7 x y z)
  then show ?case by (rule priority_neg_trans)
qed

interpretation sh: heap_laws SellHeap "hs_ok m0 H" snd
  "\<lambda>x y. priority False (order_of m0 x) (order_of m0 y)" "hs_pushable m0 H" for m0 H
proof (unfold_locales, goal_cases)
  case (1 s)
  then show ?case by (cases s) (simp add: SellHeap_def)
next
  case (2 s i j)
  then show ?case by (simp add: SellHeap_def hs_Less)
next
  case (3 s i j)
  then show ?case using hs_Swap by (simp add: SellHeap_def sell_methods)
next
  case (4 s x)
  then show ?case using hs_Push by (simp add: SellHeap_def sell_methods)
next
  case (5 s)
  then show ?case using hs_Pop by (simp add: SellHeap_def sell_methods)
next
  case (6 x y)
  then show ?case by (rule priority_asym)
next
  case (7 x y z)
  then show ?case by (rule priority_neg_trans)
qed

end
