(* ===== verification/Engine.thy ===== *)
theory Engine
  imports BookHeap
begin

text \<open>
  \<open>internal/orderbook/engine.go\<close>: the order book of one trading pair.  \<open>AddOrder\<close>, \<open>CancelOrder\<close> and
  \<open>GetSnapshot\<close> hold the book's mutex for their whole body, so each is one atomic function from store
  and book to store and book.  The two matching loops are translated as written, one for each side;
  they end because an iteration either removes the maker from its heap or exhausts the taker.
\<close>

section \<open>Data\<close>

record MatchResult =
  mBuyOrder :: oref
  mSellOrder :: oref
  FillAmount :: int
  QuoteAmount :: int
  MPrice :: xfloat

record OrderBook =
  pair :: string
  buys :: "eref list"
  sells :: "eref list"
  orderMap :: "string \<rightharpoonup> eref"

definition NewOrderBook :: "mem \<Rightarrow> string \<Rightarrow> OrderBook go" where
  "NewOrderBook m p = do {
     (_, bh) \<leftarrow> heap_Init BuyHeap (m, []);
     (_, sh) \<leftarrow> heap_Init SellHeap (m, []);
     Some \<lparr>pair = p, buys = bh, sells = sh, orderMap = Map.empty\<rparr>
   }"

section \<open>Helpers\<close>

text \<open>\<open>big.Int\<close>'s \<open>Div\<close> is Euclidean (the remainder is never negative) and panics on zero.\<close>

definition big_Div :: "int \<Rightarrow> int \<Rightarrow> int go" where
  "big_Div x y = (if y = 0 then None else if 0 < y then Some (x div y) else Some (- (x div (- y))))"

definition minBigInt :: "int \<Rightarrow> int \<Rightarrow> int" where
  "minBigInt a b = (if a < b then a else b)"

definition updateOrderStatus :: "Order \<Rightarrow> Order" where
  "updateOrderStatus od =
     (if RemainingBase od \<le> 0 then od\<lparr>Status := OrderStatusFilled\<rparr>
      else if 0 < FilledBase od then od\<lparr>Status := OrderStatusPartiallyFilled\<rparr>
      else od)"

definition upd_order :: "mem \<Rightarrow> oref \<Rightarrow> (Order \<Rightarrow> Order) \<Rightarrow> mem" where
  "upd_order m r f = m\<lparr>ordAt := (ordAt m)(r := f (ordAt m r))\<rparr>"

text \<open>\<open>x.FilledBase = new(big.Int).Add(x.FilledBase, fillAmount)\<close>\<close>

definition add_filled :: "int \<Rightarrow> Order \<Rightarrow> Order" where
  "add_filled n od = od\<lparr>FilledBase := FilledBase od + n\<rparr>"

text \<open>The updates of one match, in the code's order: both fills, then both statuses.\<close>

definition apply_fill :: "mem \<Rightarrow> oref \<Rightarrow> oref \<Rightarrow> int \<Rightarrow> mem" where
  "apply_fill m taker maker n =
     upd_order (upd_order (upd_order (upd_order m taker (add_filled n)) maker (add_filled n))
       taker updateOrderStatus) maker updateOrderStatus"

lemma upd_order_frame [simp, frame_simps]:
  "entAt (upd_order m r f) = entAt m" "nextE (upd_order m r f) = nextE m"
  by (simp_all add: upd_order_def)

lemma ordAt_upd_order [simp]: "ordAt (upd_order m r f) r' = (if r' = r then f (ordAt m r) else ordAt m r')"
  by (simp add: upd_order_def)

lemma apply_fill_frame [simp, frame_simps]:
  "entAt (apply_fill m t k n) = entAt m" "nextE (apply_fill m t k n) = nextE m"
  by (simp_all add: apply_fill_def)

lemma updateOrderStatus_frame [simp, frame_simps]:
  "FilledBase (updateOrderStatus od) = FilledBase od" "RemainingBase (updateOrderStatus od) = RemainingBase od"
  "Price (updateOrderStatus od) = Price od" "ID (updateOrderStatus od) = ID od" "Side (updateOrderStatus od) = Side od"
  "CreatedAt (updateOrderStatus od) = CreatedAt od" "base_amount (updateOrderStatus od) = base_amount od"
  by (simp_all add: updateOrderStatus_def)

lemma updateOrderStatus_Filled:
  "RemainingBase od \<le> 0 \<Longrightarrow> Status (updateOrderStatus od) = OrderStatusFilled"
  "0 < RemainingBase od \<Longrightarrow> Status od \<noteq> OrderStatusFilled \<Longrightarrow>
    Status (updateOrderStatus od) \<noteq> OrderStatusFilled"
  "0 < RemainingBase od \<Longrightarrow> 0 < FilledBase od \<Longrightarrow>
    Status (updateOrderStatus od) = OrderStatusPartiallyFilled"
  by (simp_all add: updateOrderStatus_def)

lemma add_filled_frame [simp, frame_simps]:
  "FilledBase (add_filled n od) = FilledBase od + n" "RemainingBase (add_filled n od) = RemainingBase od - n"
  "Price (add_filled n od) = Price od" "ID (add_filled n od) = ID od" "Side (add_filled n od) = Side od"
  "CreatedAt (add_filled n od) = CreatedAt od" "base_amount (add_filled n od) = base_amount od"
  "Status (add_filled n od) = Status od"
  by (simp_all add: add_filled_def RemainingBase_eq)

text \<open>With two distinct orders, each gets its fill and its status.\<close>

definition fill_order :: "int \<Rightarrow> Order \<Rightarrow> Order" where
  "fill_order n od = updateOrderStatus (add_filled n od)"

lemma ordAt_apply_fill:
  "t \<noteq> k \<Longrightarrow> ordAt (apply_fill m t k n) r =
    (if r = t \<or> r = k then fill_order n (ordAt m r) else ordAt m r)"
  by (auto simp: apply_fill_def fill_order_def)

section \<open>The matching loops\<close>

lemma heap_Pop_shrinks:
  assumes "heap_Pop I (m, h) = Some (e, (m', h'))" and "I = BuyHeap \<or> I = SellHeap"
  shows "h \<noteq> []" "length h' = length h - 1" "ordAt m' = ordAt m" "nextE m' = nextE m"
    "\<forall>x. entryOrder (entAt m' x) = entryOrder (entAt m x)"
proof -
  define P :: "hstate \<Rightarrow> bool" where "P = (\<lambda>(m1, h1). length h1 = length h \<and> ordAt m1 = ordAt m \<and> nextE m1 = nextE m \<and>
    (\<forall>x. entryOrder (entAt m1 x) = entryOrder (entAt m x)))"
  have meth: "hLen I = BuyHeap_Len" "hSwap I = BuyHeap_Swap" "hPop I = BuyHeap_Pop"
    using assms(2) by (auto simp: BuyHeap_def SellHeap_def sell_methods)
  have keep: "P s'" if "hSwap I s i j = Some s'" "P s" for s i j s'
    using that by (cases s) (auto simp: P_def meth Let_def bind_Some_iff)
  from assms(1) obtain s1 s2 i' where h: "h \<noteq> []"
    and s: "hSwap I (m, h) 0 (length h - 1) = Some s1" "heap_down_loop I s1 0 (length h - 1) = Some (s2, i')"
      "BuyHeap_Pop s2 = Some (e, (m', h'))"
    by (auto simp: heap_Pop_def heap_down_def meth Let_def bind_Some_iff split: if_splits prod.splits)
  have "P s1" by (rule keep [OF s(1)]) (simp add: P_def)
  then have "P s2" using heap_down_loop_keeps [where P = P, OF s(2)] keep by blast
  with s(3) h show "h \<noteq> []" "length h' = length h - 1" "ordAt m' = ordAt m" "nextE m' = nextE m"
    "\<forall>x. entryOrder (entAt m' x) = entryOrder (entAt m x)"
    by (cases s2; auto simp: P_def bind_Some_iff Let_def)+
qed

lemma not_removed_exhausts:
  assumes "Status (ordAt (apply_fill m t k n) k) \<noteq> OrderStatusFilled"
    and "n = minBigInt (RemainingBase (ordAt m t)) (RemainingBase (ordAt m k))" "0 < n"
  shows "RemainingBase (ordAt (apply_fill m t k n) t) \<le> 0"
proof -
  have "0 < RemainingBase (ordAt (apply_fill m t k n) k)"
    using assms(1) by (rule contrapos_np) (auto simp: apply_fill_def updateOrderStatus_Filled)
  then show ?thesis
    using assms(2,3) by (cases "t = k") (auto simp: apply_fill_def minBigInt_def split: if_splits)
qed

function matchBuy_loop ::
  "mem \<Rightarrow> OrderBook \<Rightarrow> oref \<Rightarrow> xfloat \<Rightarrow> MatchResult list \<Rightarrow> (mem \<times> OrderBook \<times> MatchResult list) go"
where
  "matchBuy_loop m ob buyOrder buyPrice matches =
     (if sells ob \<noteq> [] \<and> 0 < RemainingBase (ordAt m buyOrder) then
        let bestSell = sells ob ! 0; sellOrder = entryOrder (entAt m bestSell)
        in do {
          sellPrice \<leftarrow> Price (ordAt m sellOrder);
          if buyPrice < sellPrice then Some (m, ob, matches)
          else
            let fillAmount = minBigInt (RemainingBase (ordAt m buyOrder)) (RemainingBase (ordAt m sellOrder))
            in if fillAmount \<le> 0 then Some (m, ob, matches)
            else do {
              quoteAmount \<leftarrow> big_Div (fillAmount * AmountBuy (ordAt m sellOrder)) (AmountSell (ordAt m sellOrder));
              let matches' = matches @ [\<lparr>mBuyOrder = buyOrder, mSellOrder = sellOrder,
                    FillAmount = fillAmount, QuoteAmount = quoteAmount, MPrice = sellPrice\<rparr>];
                  m1 = apply_fill m buyOrder sellOrder fillAmount
              in if Status (ordAt m1 sellOrder) = OrderStatusFilled then do {
                  (_, (m2, h)) \<leftarrow> heap_Pop SellHeap (m1, sells ob);
                  matchBuy_loop m2
                    (ob\<lparr>sells := h, orderMap := (orderMap ob)(ID (ordAt m2 sellOrder) := None)\<rparr>)
                    buyOrder buyPrice matches'
                }
                else matchBuy_loop m1 ob buyOrder buyPrice matches'
            }
        }
      else Some (m, ob, matches))"
  by pat_completeness auto
termination
proof (relation "measure (\<lambda>(m, ob, r, _, _). length (sells ob) + (if 0 < RemainingBase (ordAt m r) then 1 else 0))",
    goal_cases)
  case 1
  then show ?case by simp
next
  case (2 m ob r p ms bestSell k sp n q ms' m1 x e s m2 h)
  from heap_Pop_shrinks [of SellHeap m1 "sells ob" _ m2 h] 2
  show ?case by auto
next
  case (3 m ob r p ms bestSell k sp n q ms' m1)
  from not_removed_exhausts [of m r k n] 3
  show ?case by auto
qed

function matchSell_loop ::
  "mem \<Rightarrow> OrderBook \<Rightarrow> oref \<Rightarrow> xfloat \<Rightarrow> MatchResult list \<Rightarrow> (mem \<times> OrderBook \<times> MatchResult list) go"
where
  "matchSell_loop m ob sellOrder sellPrice matches =
     (if buys ob \<noteq> [] \<and> 0 < RemainingBase (ordAt m sellOrder) then
        let bestBuy = buys ob ! 0; buyOrder = entryOrder (entAt m bestBuy)
        in do {
          buyPrice \<leftarrow> Price (ordAt m buyOrder);
          if buyPrice < sellPrice then Some (m, ob, matches)
          else
            let fillAmount = minBigInt (RemainingBase (ordAt m sellOrder)) (RemainingBase (ordAt m buyOrder))
            in if fillAmount \<le> 0 then Some (m, ob, matches)
            else do {
              quoteAmount \<leftarrow> big_Div (fillAmount * AmountBuy (ordAt m sellOrder)) (AmountSell (ordAt m sellOrder));
              let matches' = matches @ [\<lparr>mBuyOrder = buyOrder, mSellOrder = sellOrder,
                    FillAmount = fillAmount, QuoteAmount = quoteAmount, MPrice = buyPrice\<rparr>];
                  m1 = apply_fill m sellOrder buyOrder fillAmount
              in if Status (ordAt m1 buyOrder) = OrderStatusFilled then do {
                  (_, (m2, h)) \<leftarrow> heap_Pop BuyHeap (m1, buys ob);
                  matchSell_loop m2
                    (ob\<lparr>buys := h, orderMap := (orderMap ob)(ID (ordAt m2 buyOrder) := None)\<rparr>)
                    sellOrder sellPrice matches'
                }
                else matchSell_loop m1 ob sellOrder sellPrice matches'
            }
        }
      else Some (m, ob, matches))"
  by pat_completeness auto
termination
proof (relation "measure (\<lambda>(m, ob, r, _, _). length (buys ob) + (if 0 < RemainingBase (ordAt m r) then 1 else 0))",
    goal_cases)
  case 1
  then show ?case by simp
next
  case (2 m ob r p ms bestBuy k bp n q ms' m1 x e s m2 h)
  from heap_Pop_shrinks [of BuyHeap m1 "buys ob" _ m2 h] 2
  show ?case by auto
next
  case (3 m ob r p ms bestBuy k bp n q ms' m1)
  from not_removed_exhausts [of m r k n] 3
  show ?case by auto
qed

declare matchBuy_loop.simps [simp del] matchSell_loop.simps [simp del]

definition matchBuy :: "mem \<Rightarrow> OrderBook \<Rightarrow> oref \<Rightarrow> (mem \<times> OrderBook \<times> MatchResult list) go" where
  "matchBuy m ob buyOrder = do {
     buyPrice \<leftarrow> Price (ordAt m buyOrder);
     matchBuy_loop m ob buyOrder buyPrice []
   }"

definition matchSell :: "mem \<Rightarrow> OrderBook \<Rightarrow> oref \<Rightarrow> (mem \<times> OrderBook \<times> MatchResult list) go" where
  "matchSell m ob sellOrder = do {
     sellPrice \<leftarrow> Price (ordAt m sellOrder);
     matchSell_loop m ob sellOrder sellPrice []
   }"

section \<open>The operations of the book\<close>

text \<open>\<open>entry := &OrderEntry{Order: order}\<close>: a fresh entry, its index the zero value.\<close>

definition new_entry :: "mem \<Rightarrow> oref \<Rightarrow> mem" where
  "new_entry m r =
     m\<lparr>entAt := (entAt m)(nextE m := \<lparr>entryOrder = r, Index = 0\<rparr>), nextE := Suc (nextE m)\<rparr>"

definition AddOrder :: "mem \<Rightarrow> OrderBook \<Rightarrow> oref \<Rightarrow> (mem \<times> OrderBook \<times> MatchResult list) go" where
  "AddOrder m ob order = do {
     (m1, ob1, matches) \<leftarrow>
       (if Side (ordAt m order) = SideBuy then matchBuy m ob order else matchSell m ob order);
     if 0 < RemainingBase (ordAt m1 order) \<and> Status (ordAt m1 order) \<noteq> OrderStatusFilled then
       let entry = nextE m1;
           m2 = new_entry m1 order;
           ob2 = ob1\<lparr>orderMap := (orderMap ob1)(ID (ordAt m2 order) \<mapsto> entry)\<rparr>
       in if Side (ordAt m2 order) = SideBuy
          then do { (m3, h) \<leftarrow> heap_Push BuyHeap (m2, buys ob2) entry; Some (m3, ob2\<lparr>buys := h\<rparr>, matches) }
          else do { (m3, h) \<leftarrow> heap_Push SellHeap (m2, sells ob2) entry; Some (m3, ob2\<lparr>sells := h\<rparr>, matches) }
     else Some (m1, ob1, matches)
   }"

text \<open>\<open>CancelOrder\<close>: \<open>None\<close> in the last component is the \<open>nil, false\<close> of an unknown id.\<close>

definition CancelOrder :: "mem \<Rightarrow> OrderBook \<Rightarrow> string \<Rightarrow> (mem \<times> OrderBook \<times> oref option) go" where
  "CancelOrder m ob orderID =
     (case orderMap ob orderID of
        None \<Rightarrow> Some (m, ob, None)
      | Some entry \<Rightarrow>
          let r = entryOrder (entAt m entry);
              m1 = upd_order m r (\<lambda>od. od\<lparr>Status := OrderStatusCancelled\<rparr>);
              ob1 = ob\<lparr>orderMap := (orderMap ob)(orderID := None)\<rparr>
          in if Side (ordAt m1 r) = SideBuy
             then do { (_, (m2, h)) \<leftarrow> heap_Remove BuyHeap (m1, buys ob1) (Index (entAt m1 entry));
                       Some (m2, ob1\<lparr>buys := h\<rparr>, Some r) }
             else do { (_, (m2, h)) \<leftarrow> heap_Remove SellHeap (m1, sells ob1) (Index (entAt m1 entry));
                       Some (m2, ob1\<lparr>sells := h\<rparr>, Some r) })"

end
