(* ===== verification/BookInv.thy ===== *)
theory BookInv
  imports Engine
begin

text \<open>
  The invariant of the order book and what one heap operation does to one side of it.
  \<open>bid = True\<close> is the buy side.
\<close>

section \<open>The sides of the book\<close>

definition side_of :: "bool \<Rightarrow> OrderBook \<Rightarrow> eref list" where
  "side_of bid ob = (if bid then buys ob else sells ob)"

definition set_side :: "bool \<Rightarrow> OrderBook \<Rightarrow> eref list \<Rightarrow> OrderBook" where
  "set_side bid ob h = (if bid then ob\<lparr>buys := h\<rparr> else ob\<lparr>sells := h\<rparr>)"

definition side_heap :: "bool \<Rightarrow> (hstate, eref) heap_Interface" where
  "side_heap bid = (if bid then BuyHeap else SellHeap)"

lemma side_of_simps [simp]:
  "side_of True ob = buys ob" "side_of False ob = sells ob"
  "side_of bid (set_side bid ob h) = h" "side_of (\<not> bid) (set_side bid ob h) = side_of (\<not> bid) ob"
  "side_of bid (set_side (\<not> bid) ob h) = side_of bid ob"
  "side_of bid (ob\<lparr>orderMap := f\<rparr>) = side_of bid ob"
  "orderMap (set_side bid ob h) = orderMap ob" "pair (set_side bid ob h) = pair ob"
  by (simp_all add: side_of_def set_side_def)

definition entries :: "OrderBook \<Rightarrow> eref set" where
  "entries ob = set (buys ob) \<union> set (sells ob)"

lemma entries_sides: "entries ob = set (side_of bid ob) \<union> set (side_of (\<not> bid) ob)"
  by (cases bid) (auto simp: entries_def)

text \<open>The references to the orders resting in a book.\<close>

definition resting :: "mem \<Rightarrow> OrderBook \<Rightarrow> oref set" where
  "resting m ob = (\<lambda>e. entryOrder (entAt m e)) ` entries ob"

declare hs_ok.simps [simp del] hs_pushable.simps [simp del]

interpretation hp: heap_laws "side_heap bid" "hs_ok m0 H" snd
  "\<lambda>x y. priority bid (order_of m0 x) (order_of m0 y)" "hs_pushable m0 H" for bid m0 H
  by (cases bid) (simp_all add: side_heap_def bh.heap_laws_axioms sh.heap_laws_axioms)

section \<open>The invariant\<close>

text \<open>One side as a data structure: positions and heap order.\<close>

definition side_inv :: "bool \<Rightarrow> mem \<Rightarrow> eref list \<Rightarrow> bool" where
  "side_inv bid m h \<longleftrightarrow>
     distinct h \<and> (\<forall>k < length h. Index (entAt m (h ! k)) = int k) \<and>
     (\<forall>e \<in> set h. \<exists>p. Price (order_of m e) = Some p) \<and>
     heap_ordered (\<lambda>x y. priority bid (order_of m x) (order_of m y)) (length h) h"

text \<open>An order that may rest on a side: something is left to fill, and it is still active.\<close>

definition active :: "Order \<Rightarrow> bool" where
  "active od \<longleftrightarrow> Status od = OrderStatusOpen \<or> Status od = OrderStatusPartiallyFilled"

definition live :: "bool \<Rightarrow> Order \<Rightarrow> bool" where
  "live bid od \<longleftrightarrow> (Side od = SideBuy) = bid \<and> 0 \<le> FilledBase od \<and> 0 < RemainingBase od \<and> active od"

definition index_inv :: "mem \<Rightarrow> OrderBook \<Rightarrow> bool" where
  "index_inv m ob \<longleftrightarrow>
     (\<forall>i e. orderMap ob i = Some e \<longleftrightarrow> e \<in> entries ob \<and> ID (order_of m e) = i)"

definition uncrossed :: "mem \<Rightarrow> OrderBook \<Rightarrow> bool" where
  "uncrossed m ob \<longleftrightarrow>
     (\<forall>x \<in> set (buys ob). \<forall>y \<in> set (sells ob). price_of (order_of m x) < price_of (order_of m y))"

definition book_inv :: "mem \<Rightarrow> OrderBook \<Rightarrow> bool" where
  "book_inv m ob \<longleftrightarrow>
     (\<forall>bid. side_inv bid m (side_of bid ob) \<and> (\<forall>e \<in> set (side_of bid ob). e < nextE m \<and> live bid (order_of m e))) \<and>
     index_inv m ob \<and> uncrossed m ob"

lemma live_priced: "live bid od \<Longrightarrow> \<exists>p. Price od = Some p"
  by (rule Price_base_pos) (simp add: live_def RemainingBase_eq)

lemma side_inv_Nil [simp]: "side_inv bid m []"
  by (simp add: side_inv_def)

lemma book_invD:
  assumes "book_inv m ob"
  shows "side_inv bid m (side_of bid ob)" "e \<in> set (side_of bid ob) \<Longrightarrow> live bid (order_of m e)"
    "e \<in> entries ob \<Longrightarrow> e < nextE m" "index_inv m ob" "uncrossed m ob"
  using assms entries_sides [of ob bid] by (auto simp: book_inv_def)

lemma book_inv_disjoint:
  assumes "book_inv m ob"
  shows "set (side_of bid ob) \<inter> set (side_of (\<not> bid) ob) = {}"
proof -
  have "live True (order_of m e)" if "e \<in> set (buys ob)" for e
    using book_invD(2) [OF assms, of e True] that by simp
  moreover have "live False (order_of m e)" if "e \<in> set (sells ob)" for e
    using book_invD(2) [OF assms, of e False] that by simp
  ultimately have "set (buys ob) \<inter> set (sells ob) = {}" by (auto simp: live_def)
  then show ?thesis by (cases bid) auto
qed

lemma orderMap_iff:
  "book_inv m ob \<Longrightarrow> orderMap ob i = Some e \<longleftrightarrow> e \<in> entries ob \<and> ID (order_of m e) = i"
  by (simp add: book_inv_def index_inv_def)

text \<open>Different entries hold different orders, with different ids.\<close>

lemma entries_inj:
  assumes "book_inv m ob" "x \<in> entries ob" "y \<in> entries ob"
    "entryOrder (entAt m x) = entryOrder (entAt m y)"
  shows "x = y"
proof -
  have "orderMap ob (ID (order_of m x)) = Some x" "orderMap ob (ID (order_of m y)) = Some y"
    using assms(2,3) by (simp_all only: orderMap_iff [OF assms(1)] simp_thms)
  then show ?thesis unfolding assms(4) by simp
qed

section \<open>Heap operations on one side\<close>

text \<open>What a heap operation on the entries \<open>H\<close> may do to the store: move indices of \<open>H\<close>.\<close>

definition heap_frame :: "eref set \<Rightarrow> mem \<Rightarrow> mem \<Rightarrow> bool" where
  "heap_frame H m m' \<longleftrightarrow> ordAt m' = ordAt m \<and> nextE m' = nextE m \<and>
     (\<forall>e. entryOrder (entAt m' e) = entryOrder (entAt m e)) \<and>
     (\<forall>e. e \<notin> H \<longrightarrow> Index (entAt m' e) = Index (entAt m e))"

lemma side_inv_hs_ok:
  assumes "side_inv bid m h"
  shows "set h \<subseteq> H \<Longrightarrow> hs_ok m H (m, h)"
    and "heap_ordered (\<lambda>x y. priority bid (order_of m x) (order_of m y)) (length h) h"
  using assms by (auto simp: side_inv_def hs_ok.simps)

lemma hs_ok_side_inv:
  assumes "hs_ok m H (m', h')"
    "heap_ordered (\<lambda>x y. priority bid (order_of m x) (order_of m y)) (length h') h'"
  shows "side_inv bid m' h'" "heap_frame H m m'"
  using assms by (simp_all add: side_inv_def heap_frame_def hs_ok.simps)

text \<open>A side does not see changes that leave its orders' price and time and its indices alone.\<close>

lemma side_inv_cong:
  assumes "side_inv bid m h"
    and "\<And>e. e \<in> set h \<Longrightarrow> Index (entAt m' e) = Index (entAt m e)"
    and "\<And>e. e \<in> set h \<Longrightarrow> Price (order_of m' e) = Price (order_of m e)"
    and "\<And>e. e \<in> set h \<Longrightarrow> CreatedAt (order_of m' e) = CreatedAt (order_of m e)"
  shows "side_inv bid m' h"
proof -
  have "priority bid (order_of m' (h ! i)) (order_of m' (h ! j)) =
      priority bid (order_of m (h ! i)) (order_of m (h ! j))" if "i < length h" "j < length h" for i j
    using that assms(3,4) by (simp add: priority_def price_of_def)
  then have "heap_ordered (\<lambda>x y. priority bid (order_of m' x) (order_of m' y)) (length h) h"
    using assms(1) by (auto simp: side_inv_def heap_ordered_def good_at_def)
  then show ?thesis using assms by (simp add: side_inv_def)
qed

lemma side_pop:
  assumes "side_inv bid m h" "h \<noteq> []"
  shows "\<exists>m' h'. heap_Pop (side_heap bid) (m, h) = Some (h ! 0, (m', h')) \<and> heap_frame (set h) m m' \<and>
    side_inv bid m' h' \<and> mset h = add_mset (h ! 0) (mset h')"
proof -
  note ok = side_inv_hs_ok(1) [OF assms(1) subset_refl] and ord = side_inv_hs_ok(2) [OF assms(1)]
  obtain s' where s': "heap_Pop (side_heap bid) (m, h) = Some (h ! 0, s')" "hs_ok m (set h) s'"
      "heap_ordered (\<lambda>x y. priority bid (order_of m x) (order_of m y)) (length (snd s')) (snd s')"
      "add_mset (h ! 0) (mset (snd s')) = mset h"
    using hp.heap_Pop_spec [OF ok] ord assms(2) by (metis snd_conv)
  obtain m' h' where [simp]: "s' = (m', h')" by (cases s')
  show ?thesis using s' hs_ok_side_inv [of m "set h" m' h' bid] by auto
qed

lemma side_push:
  assumes "side_inv bid m h" "e \<notin> set h" "\<exists>p. Price (order_of m e) = Some p"
  shows "\<exists>m' h'. heap_Push (side_heap bid) (m, h) e = Some (m', h') \<and> heap_frame (insert e (set h)) m m' \<and>
    side_inv bid m' h' \<and> mset h' = add_mset e (mset h)"
proof -
  let ?H = "insert e (set h)"
  have ok: "hs_ok m ?H (m, h)" using side_inv_hs_ok(1) [OF assms(1)] by auto
  have push: "hs_pushable m ?H (m, h) e" using assms by (simp add: hs_pushable.simps)
  obtain s' where s': "heap_Push (side_heap bid) (m, h) e = Some s'" "hs_ok m ?H s'"
      "heap_ordered (\<lambda>x y. priority bid (order_of m x) (order_of m y)) (length (snd s')) (snd s')"
      "mset (snd s') = add_mset e (mset h)"
    using hp.heap_Push_spec [OF ok _ push] side_inv_hs_ok(2) [OF assms(1)] by (metis snd_conv)
  obtain m' h' where [simp]: "s' = (m', h')" by (cases s')
  show ?thesis using s' hs_ok_side_inv [of m ?H m' h' bid] by auto
qed

lemma side_remove:
  assumes "side_inv bid m h" "e \<in> set h"
  shows "\<exists>m' h'. heap_Remove (side_heap bid) (m, h) (Index (entAt m e)) = Some (e, (m', h')) \<and>
    heap_frame (set h) m m' \<and> side_inv bid m' h' \<and> mset h = add_mset e (mset h')"
proof -
  obtain k where k: "k < length h" "h ! k = e" using assms(2) by (auto simp: in_set_conv_nth)
  then have ix: "Index (entAt m e) = int k" using assms(1) by (auto simp: side_inv_def)
  note ok = side_inv_hs_ok(1) [OF assms(1) subset_refl] and ord = side_inv_hs_ok(2) [OF assms(1)]
  obtain s' where s': "heap_Remove (side_heap bid) (m, h) (int k) = Some (e, s')" "hs_ok m (set h) s'"
      "heap_ordered (\<lambda>x y. priority bid (order_of m x) (order_of m y)) (length (snd s')) (snd s')"
      "add_mset e (mset (snd s')) = mset h"
    using hp.heap_Remove_spec [OF ok, of bid k] ord k by (metis snd_conv)
  obtain m' h' where [simp]: "s' = (m', h')" by (cases s')
  show ?thesis using s' hs_ok_side_inv [of m "set h" m' h' bid] by (auto simp: ix)
qed

text \<open>The root is best: no entry of the side has priority over it.\<close>

lemma side_root_best:
  assumes "side_inv bid m h" "e \<in> set h"
  shows "\<not> priority bid (order_of m e) (order_of m (h ! 0))"
proof -
  obtain k where "k < length h" "h ! k = e" using assms(2) by (auto simp: in_set_conv_nth)
  then show ?thesis
    using hp.heap_root_min [of bid m "length h" h k] assms(1) by (auto simp: side_inv_def)
qed

section \<open>Keeping the invariant while the book shrinks\<close>

lemma orderMap_remove:
  assumes "book_inv m ob" "x \<in> entries ob"
  shows "((orderMap ob)(ID (order_of m x) := None)) i = Some e \<longleftrightarrow> orderMap ob i = Some e \<and> e \<noteq> x"
proof -
  have "orderMap ob (ID (order_of m x)) = Some x"
    using assms(2) by (simp only: orderMap_iff [OF assms(1)] simp_thms)
  moreover have "orderMap ob i = Some x \<Longrightarrow> i = ID (order_of m x)"
    by (simp only: orderMap_iff [OF assms(1)])
  ultimately show ?thesis by (cases "i = ID (order_of m x)") (simp_all, metis+)
qed

text \<open>
  Entries may leave, and what stays may change in ways that keep it live and keep its price and id.
\<close>

lemma book_inv_shrink:
  assumes inv: "book_inv m ob"
    and sides: "\<And>b. side_inv b m' (side_of b ob')" "\<And>b. set (side_of b ob') \<subseteq> set (side_of b ob)"
    and live: "\<And>b e. e \<in> set (side_of b ob') \<Longrightarrow> live b (order_of m' e)"
    and same: "\<And>e. e \<in> entries ob' \<Longrightarrow> ID (order_of m' e) = ID (order_of m e)"
      "\<And>e. e \<in> entries ob' \<Longrightarrow> price_of (order_of m' e) = price_of (order_of m e)"
    and next': "nextE m' = nextE m"
    and map': "\<And>i e. orderMap ob' i = Some e \<longleftrightarrow> orderMap ob i = Some e \<and> e \<in> entries ob'"
  shows "book_inv m' ob'"
proof -
  have sub: "entries ob' \<subseteq> entries ob"
    using sides(2) [of True] sides(2) [of False] by (auto simp: entries_def)
  have "index_inv m' ob'"
    unfolding index_inv_def map' using sub same(1) by (auto simp: orderMap_iff [OF inv])
  moreover have "uncrossed m' ob'"
    unfolding uncrossed_def
  proof (intro ballI)
    fix x y assume xy: "x \<in> set (buys ob')" "y \<in> set (sells ob')"
    then have "x \<in> set (buys ob)" "y \<in> set (sells ob)"
      using sides(2) [of True] sides(2) [of False] by auto
    then have "price_of (order_of m x) < price_of (order_of m y)"
      using book_invD(5) [OF inv] by (simp add: uncrossed_def)
    then show "price_of (order_of m' x) < price_of (order_of m' y)"
      using xy same(2) by (simp add: entries_def)
  qed
  moreover have "e < nextE m'" if "e \<in> set (side_of b ob')" for b e
    using that sub book_invD(3) [OF inv] next' entries_sides [of ob' b] by auto
  ultimately show ?thesis using sides(1) live by (simp add: book_inv_def)
qed

end
