(* ===== verification/MatchSpec.thy ===== *)
theory MatchSpec
  imports Engine
begin

text \<open>
  What matching promises, without heaps, indices or references: a taker meets a multiset of resting
  makers.  While it has something left and the best maker's price is compatible, it trades with a
  best maker, and a maker that is exhausted leaves the book.  \<open>tb\<close> says whether the taker buys; the
  makers are then on the other side, so their priority is \<open>priority (\<not> tb)\<close>.
\<close>

definition crosses :: "bool \<Rightarrow> Order \<Rightarrow> Order \<Rightarrow> bool" where
  "crosses tb t s \<longleftrightarrow> (if tb then price_of s \<le> price_of t else price_of t \<le> price_of s)"

definition best :: "bool \<Rightarrow> Order \<Rightarrow> Order multiset \<Rightarrow> bool" where
  "best bid s M \<longleftrightarrow> s \<in># M \<and> (\<forall>s' \<in># M. \<not> priority bid s' s)"

inductive match_spec :: "bool \<Rightarrow> Order \<Rightarrow> Order multiset \<Rightarrow> (Order \<times> int) list \<Rightarrow> Order \<Rightarrow> Order multiset \<Rightarrow> bool"
  for tb where
  stop: "RemainingBase t \<le> 0 \<or> (\<forall>s \<in># M. \<not> crosses tb t s) \<Longrightarrow> match_spec tb t M [] t M"
| full: "best (\<not> tb) s M \<Longrightarrow> crosses tb t s \<Longrightarrow> n = RemainingBase s \<Longrightarrow> n \<le> RemainingBase t \<Longrightarrow>
    match_spec tb (fill_order n t) (M - {#s#}) rs t' M' \<Longrightarrow> match_spec tb t M ((s, n) # rs) t' M'"
| part: "best (\<not> tb) s M \<Longrightarrow> crosses tb t s \<Longrightarrow> n = RemainingBase t \<Longrightarrow> 0 < n \<Longrightarrow> n < RemainingBase s \<Longrightarrow>
    match_spec tb t M [(s, n)] (fill_order n t) (add_mset (fill_order n s) (M - {#s#}))"

inductive_cases match_spec_NilE [elim]: "match_spec tb t M [] t' M'"
inductive_cases match_spec_ConsE: "match_spec tb t M ((s, n) # rs) t' M'"

section \<open>What a fill keeps\<close>

lemma fill_order_frame [simp, frame_simps]:
  "price_of (fill_order n od) = price_of od" "CreatedAt (fill_order n od) = CreatedAt od"
  "FilledBase (fill_order n od) = FilledBase od + n" "RemainingBase (fill_order n od) = RemainingBase od - n"
  "ID (fill_order n od) = ID od" "Side (fill_order n od) = Side od" "Price (fill_order n od) = Price od"
  "base_amount (fill_order n od) = base_amount od"
  by (simp_all add: fill_order_def price_of_def)

lemma fill_order_amounts [simp, frame_simps]:
  "AmountSell (fill_order n od) = AmountSell od" "AmountBuy (fill_order n od) = AmountBuy od"
  by (simp_all add: fill_order_def add_filled_def updateOrderStatus_def)

lemma priority_fill_order [simp]:
  "priority b (fill_order n x) y = priority b x y" "priority b x (fill_order n y) = priority b x y"
  by (simp_all add: priority_def)

lemma crosses_fill_order [simp]:
  "crosses tb (fill_order n t) s = crosses tb t s" "crosses tb t (fill_order n s) = crosses tb t s"
  by (simp_all add: crosses_def)

lemma bestD: "best b s M \<Longrightarrow> s \<in># M" "best b s M \<Longrightarrow> s' \<in># M \<Longrightarrow> \<not> priority b s' s"
  by (simp_all add: best_def)

lemma best_rest: "best b s M \<Longrightarrow> s' \<in># M - {#s#} \<Longrightarrow> \<not> priority b s' s"
  by (auto simp: best_def dest: in_diffD)

section \<open>Consequences of the specification\<close>

lemma match_spec_taker:
  "match_spec tb t M rs t' M' \<Longrightarrow> t' = fold (\<lambda>(s, n). fill_order n) rs t"
  by (induction rule: match_spec.induct) auto

lemma match_spec_filled:
  "match_spec tb t M rs t' M' \<Longrightarrow> FilledBase t' = FilledBase t + sum_list (map snd rs)"
  by (induction rule: match_spec.induct) auto

lemma match_spec_static:
  "match_spec tb t M rs t' M' \<Longrightarrow> price_of t' = price_of t \<and> base_amount t' = base_amount t"
  by (induction rule: match_spec.induct) auto

lemma match_spec_remaining:
  "match_spec tb t M rs t' M' \<Longrightarrow> 0 \<le> RemainingBase t \<Longrightarrow> 0 \<le> RemainingBase t'"
  by (induction rule: match_spec.induct) auto

lemma match_spec_fills:
  "match_spec tb t M rs t' M' \<Longrightarrow> (\<forall>s \<in># M. 0 < RemainingBase s) \<Longrightarrow>
    \<forall>(s, n) \<in> set rs. s \<in># M \<and> 0 < n \<and> n \<le> RemainingBase s \<and> crosses tb t s"
  by (induction rule: match_spec.induct) (fastforce dest: bestD in_diffD)+

text \<open>When matching stops, nothing is left to trade.\<close>

lemma match_spec_exhausted:
  "match_spec tb t M rs t' M' \<Longrightarrow> RemainingBase t' \<le> 0 \<or> (\<forall>s \<in># M'. \<not> crosses tb t s)"
  by (induction rule: match_spec.induct) auto

text \<open>Makers that are left over have no priority over one that traded.\<close>

lemma match_spec_members:
  "match_spec tb t M rs t' M' \<Longrightarrow> s \<in># M' \<Longrightarrow> \<exists>s0 \<in># M. s = s0 \<or> (\<exists>n. s = fill_order n s0)"
proof (induction rule: match_spec.induct)
  case (stop t M)
  then show ?case by blast
next
  case (full s' M t n rs t' M')
  then show ?case by (meson in_diffD)
next
  case (part s' M t n)
  show ?case
  proof (cases "s = fill_order n s'")
    case True
    then show ?thesis using bestD(1) [OF part.hyps(1)] by blast
  next
    case False
    then have "s \<in># M" using part.prems by (auto dest: in_diffD)
    then show ?thesis by blast
  qed
qed

lemma match_spec_left:
  "match_spec tb t M rs t' M' \<Longrightarrow> \<forall>(x, n) \<in> set rs. \<forall>s \<in># M'. \<not> priority (\<not> tb) s x"
proof (induction rule: match_spec.induct)
  case (stop t M)
  then show ?case by simp
next
  case (full s M t n rs t' M')
  have "\<not> priority (\<not> tb) s' s" if "s' \<in># M'" for s'
  proof -
    from match_spec_members [OF full.hyps(5) that] obtain s0 where
      "s0 \<in># M - {#s#}" "s' = s0 \<or> (\<exists>n. s' = fill_order n s0)" by blast
    then show ?thesis using best_rest [OF full.hyps(1)] by auto
  qed
  then show ?case using full.IH by auto
next
  case (part s M t n)
  then show ?case
    using best_rest [OF part.hyps(1)] bestD [OF part.hyps(1)] by (auto dest: priority_asym)
qed

text \<open>Price-time priority: trades happen in priority order, and only the last may be partial.\<close>

lemma match_spec_sorted:
  "match_spec tb t M rs t' M' \<Longrightarrow> sorted_wrt (\<lambda>x y. \<not> priority (\<not> tb) (fst y) (fst x)) rs"
proof (induction rule: match_spec.induct)
  case (full s M t n rs t' M')
  have "\<not> priority (\<not> tb) (fst y) s" if "y \<in> set rs" for y
  proof -
    have "fst y \<in># M - {#s#}"
      using full.hyps(5) that
      by (induction rule: match_spec.induct) (auto dest: bestD in_diffD)
    then show ?thesis using best_rest [OF full.hyps(1)] by blast
  qed
  with full.IH show ?case by simp
qed simp_all

lemma match_spec_complete:
  "match_spec tb t M rs t' M' \<Longrightarrow> \<forall>(s, n) \<in> set (butlast rs). n = RemainingBase s"
  by (induction rule: match_spec.induct) auto

text \<open>Depth: what the makers lose is what the taker gains.\<close>

lemma match_spec_depth:
  "match_spec tb t M rs t' M' \<Longrightarrow>
    (\<Sum>s \<in># M. RemainingBase s) = (\<Sum>s \<in># M'. RemainingBase s) + sum_list (map snd rs)"
proof (induction rule: match_spec.induct)
  case (full s M t n rs t' M')
  have "M = add_mset s (M - {#s#})" using bestD(1) [OF full.hyps(1)] by simp
  then have "(\<Sum>s \<in># M. RemainingBase s) = RemainingBase s + (\<Sum>s \<in># M - {#s#}. RemainingBase s)"
    by (metis image_mset_add_mset sum_mset.add_mset)
  then show ?case using full.IH full.hyps(3) by simp
next
  case (part s M t n)
  have "M = add_mset s (M - {#s#})" using bestD(1) [OF part.hyps(1)] by simp
  then have "(\<Sum>s \<in># M. RemainingBase s) = RemainingBase s + (\<Sum>s \<in># M - {#s#}. RemainingBase s)"
    by (metis image_mset_add_mset sum_mset.add_mset)
  then show ?case by simp
qed simp

text \<open>With distinct priorities the outcome is determined.\<close>

definition strict_priorities :: "bool \<Rightarrow> Order multiset \<Rightarrow> bool" where
  "strict_priorities bid M \<longleftrightarrow>
     (\<forall>x y. {#x, y#} \<subseteq># M \<longrightarrow> priority bid x y \<or> priority bid y x)"

lemma best_unique:
  assumes "strict_priorities b M" "best b x M" "best b y M"
  shows "x = y"
proof (rule ccontr)
  assume "x \<noteq> y"
  then have "{#x, y#} \<subseteq># M"
    using assms(2,3) by (auto simp: best_def insert_subset_eq_iff in_diff_count)
  then show False using assms by (auto simp: strict_priorities_def best_def)
qed

lemma strict_priorities_diff: "strict_priorities b M \<Longrightarrow> strict_priorities b (M - {#x#})"
  unfolding strict_priorities_def by (meson diff_subset_eq_self subset_mset.order_trans)

lemma match_spec_deterministic:
  assumes "match_spec tb t M rs t1 M1" "match_spec tb t M rs' t2 M2"
    and "strict_priorities (\<not> tb) M" "\<forall>s \<in># M. 0 < RemainingBase s"
  shows "rs = rs' \<and> t1 = t2 \<and> M1 = M2"
  using assms
proof (induction arbitrary: rs' t2 M2 rule: match_spec.induct)
  case (stop t M)
  from stop.prems(1) show ?case
  proof cases
    case (full s n rs)
    then have "0 < RemainingBase s" using stop.prems(3) bestD(1) by blast
    then show ?thesis using stop.hyps full by (auto dest: bestD)
  next
    case (part s n)
    then show ?thesis using stop.hyps by (auto dest: bestD)
  qed simp
next
  case (full s M t n rs t' M')
  have s: "s \<in># M" "0 < n" using bestD(1) [OF full.hyps(1)] full.hyps(3) full.prems(3) by auto
  from full.prems(1) show ?case
  proof cases
    case stop
    then show ?thesis using full.hyps s by auto
  next
    case (full s2 n2 rs2)
    then have "s2 = s" using best_unique full.prems(2) full.hyps(1) by blast
    then show ?thesis
      using full full.IH [of rs2 t2 M2] full.hyps full.prems strict_priorities_diff
      by (auto dest: in_diffD)
  next
    case (part s2 n2)
    then have "s2 = s" using best_unique full.prems(2) full.hyps(1) by blast
    then show ?thesis using part full.hyps by simp
  qed
next
  case (part s M t n)
  note n = part.hyps(3)
  from part.prems(1) show ?case
  proof cases
    case stop
    then show ?thesis using part.hyps bestD(1) [OF part.hyps(1)] by auto
  next
    case (full s2 n2 rs2)
    then have "s2 = s" using best_unique part.prems(2) part.hyps(1) by blast
    then show ?thesis using full part.hyps by simp
  next
    case (part s2 n2)
    then have "s2 = s" using best_unique part.prems(2) part.hyps(1) by blast
    then show ?thesis using part n by simp
  qed
qed

end
