(* ===== verification/Matching.thy ===== *)
theory Matching
  imports BookInv MatchSpec
begin

text \<open>
  Both matching loops refine the specification of \<open>MatchSpec\<close>.  One iteration is the same function of
  the taker's side, \<open>match_step\<close>; the locale \<open>matching_loop\<close> is the contract "repeat \<open>match_step\<close> until
  it stops", proved correct once and interpreted for \<open>matchBuy_loop\<close> and \<open>matchSell_loop\<close>.
\<close>

section \<open>One iteration\<close>

text \<open>The record of a trade of \<open>n\<close> between the taker \<open>t\<close> and the maker \<open>k\<close>.\<close>

definition match_record :: "mem \<Rightarrow> bool \<Rightarrow> oref \<Rightarrow> oref \<Rightarrow> int \<Rightarrow> int \<Rightarrow> MatchResult" where
  "match_record m tb t k n q =
     \<lparr>mBuyOrder = (if tb then t else k), mSellOrder = (if tb then k else t),
      FillAmount = n, QuoteAmount = q, MPrice = price_of (ordAt m k)\<rparr>"

definition match_step ::
  "bool \<Rightarrow> mem \<Rightarrow> OrderBook \<Rightarrow> oref \<Rightarrow> xfloat \<Rightarrow> (mem \<times> OrderBook \<times> MatchResult) option go"
where
  "match_step tb m ob t tp =
     (if side_of (\<not> tb) ob \<noteq> [] \<and> 0 < RemainingBase (ordAt m t) then
        let k = entryOrder (entAt m (side_of (\<not> tb) ob ! 0))
        in do {
          kp \<leftarrow> Price (ordAt m k);
          if (if tb then tp < kp else kp < tp) then Some None
          else
            let n = minBigInt (RemainingBase (ordAt m t)) (RemainingBase (ordAt m k)); s = (if tb then k else t)
            in if n \<le> 0 then Some None
            else do {
              q \<leftarrow> big_Div (n * AmountBuy (ordAt m s)) (AmountSell (ordAt m s));
              let x = match_record m tb t k n q; m1 = apply_fill m t k n
              in if Status (ordAt m1 k) = OrderStatusFilled then do {
                  (_, (m2, h)) \<leftarrow> heap_Pop (side_heap (\<not> tb)) (m1, side_of (\<not> tb) ob);
                  Some (Some (m2, (set_side (\<not> tb) ob h)\<lparr>orderMap := (orderMap ob)(ID (ordAt m2 k) := None)\<rparr>, x))
                }
                else Some (Some (m1, ob, x))
            }
        }
      else Some None)"

definition repeat_step ::
  "(mem \<Rightarrow> OrderBook \<Rightarrow> MatchResult list \<Rightarrow> (mem \<times> OrderBook \<times> MatchResult list) go) \<Rightarrow>
    mem \<Rightarrow> OrderBook \<Rightarrow> MatchResult list \<Rightarrow> (mem \<times> OrderBook \<times> MatchResult) option \<Rightarrow>
    (mem \<times> OrderBook \<times> MatchResult list) go"
where
  "repeat_step f m ob ms r = (case r of None \<Rightarrow> Some (m, ob, ms) | Some (m', ob', x) \<Rightarrow> f m' ob' (ms @ [x]))"

lemma set_side_update [simp]:
  "set_side True ob h = ob\<lparr>buys := h\<rparr>" "set_side False ob h = ob\<lparr>sells := h\<rparr>"
  by (simp_all add: set_side_def)

lemma matchBuy_loop_step:
  "matchBuy_loop m ob t tp ms =
    Option.bind (match_step True m ob t tp) (repeat_step (\<lambda>m ob ms. matchBuy_loop m ob t tp ms) m ob ms)"
  unfolding matchBuy_loop.simps [of m ob t tp ms] match_step_def
  by (auto simp: Let_def repeat_step_def match_record_def price_of_def side_heap_def
      intro!: Option.bind_cong split: prod.split)

lemma matchSell_loop_step:
  "matchSell_loop m ob t tp ms =
    Option.bind (match_step False m ob t tp) (repeat_step (\<lambda>m ob ms. matchSell_loop m ob t tp ms) m ob ms)"
  unfolding matchSell_loop.simps [of m ob t tp ms] match_step_def
  by (auto simp: Let_def repeat_step_def match_record_def price_of_def side_heap_def
      intro!: Option.bind_cong split: prod.split)

section \<open>The effect of one iteration\<close>

definition book_side :: "mem \<Rightarrow> eref list \<Rightarrow> Order multiset" where
  "book_side m h = image_mset (order_of m) (mset h)"

text \<open>A taker that is about to be matched: known, priced, and not in the book.\<close>

definition taker_ok :: "bool \<Rightarrow> mem \<Rightarrow> OrderBook \<Rightarrow> oref \<Rightarrow> xfloat \<Rightarrow> bool" where
  "taker_ok tb m ob t tp \<longleftrightarrow> book_inv m ob \<and> t \<notin> resting m ob \<and> (Side (ordAt m t) = SideBuy) = tb \<and>
     0 \<le> FilledBase (ordAt m t) \<and> Price (ordAt m t) = Some tp"

text \<open>The rounding of the quote amount, at the sell order's own terms whichever side it is on.\<close>

definition quote_at :: "Order \<Rightarrow> int \<Rightarrow> int" where
  "quote_at sell n = n * AmountBuy sell div AmountSell sell"

definition trade_record :: "mem \<Rightarrow> bool \<Rightarrow> oref \<Rightarrow> oref \<times> int \<Rightarrow> MatchResult" where
  "trade_record m tb t = (\<lambda>(k, n). match_record m tb t k n (quote_at (ordAt m (if tb then k else t)) n))"

text \<open>
  An iteration that trades: the best maker, a positive compatible fill, both orders updated, and the
  maker leaves its side exactly when it is exhausted; otherwise the taker is.
\<close>

definition traded :: "bool \<Rightarrow> mem \<Rightarrow> OrderBook \<Rightarrow> oref \<Rightarrow> mem \<Rightarrow> OrderBook \<Rightarrow> eref \<Rightarrow> int \<Rightarrow> bool" where
  "traded tb m ob t m' ob' e n \<longleftrightarrow>
     (let k = entryOrder (entAt m e) in
       e \<in> set (side_of (\<not> tb) ob) \<and>
       (\<forall>e' \<in> set (side_of (\<not> tb) ob). \<not> priority (\<not> tb) (order_of m e') (ordAt m k)) \<and>
       crosses tb (ordAt m t) (ordAt m k) \<and> 0 < n \<and>
       n = min (RemainingBase (ordAt m t)) (RemainingBase (ordAt m k)) \<and>
       ordAt m' = (ordAt m)(t := fill_order n (ordAt m t), k := fill_order n (ordAt m k)) \<and>
       nextE m' = nextE m \<and> (\<forall>x. entryOrder (entAt m' x) = entryOrder (entAt m x)) \<and>
       (\<forall>x. x \<notin> entries ob \<longrightarrow> Index (entAt m' x) = Index (entAt m x)) \<and>
       side_of tb ob' = side_of tb ob \<and> pair ob' = pair ob \<and>
       (if n = RemainingBase (ordAt m k)
        then mset (side_of (\<not> tb) ob) = add_mset e (mset (side_of (\<not> tb) ob'))
        else side_of (\<not> tb) ob' = side_of (\<not> tb) ob))"

lemma resting_neq:
  assumes "t \<notin> resting m ob" "e \<in> entries ob"
  shows "entryOrder (entAt m e) \<noteq> t"
  using assms by (auto simp: resting_def)

lemma fill_live:
  assumes "live b od" "0 < n" "n < RemainingBase od"
  shows "live b (fill_order n od)" "Status (fill_order n od) \<noteq> OrderStatusFilled"
proof -
  have "Status (fill_order n od) = OrderStatusPartiallyFilled"
    unfolding fill_order_def
    by (rule updateOrderStatus_Filled(3)) (use assms in \<open>simp_all add: live_def\<close>)
  then show "live b (fill_order n od)" "Status (fill_order n od) \<noteq> OrderStatusFilled"
    using assms by (simp_all add: live_def active_def)
qed

lemma fill_full: "Status (fill_order (RemainingBase od) od) = OrderStatusFilled"
  by (simp add: fill_order_def updateOrderStatus_Filled(1))

lemma quote_panic_free:
  "0 < AmountSell od \<Longrightarrow> big_Div (n * AmountBuy od) (AmountSell od) = Some (quote_at od n)"
  by (simp add: big_Div_def quote_at_def)

lemma live_ask_amount: "live False od \<Longrightarrow> 0 < AmountSell od"
  by (simp add: live_def RemainingBase_def split: if_splits)

text \<open>A fill of the root maker and an outsider: every side keeps its shape, other orders are untouched.\<close>

lemma apply_fill_sides:
  assumes inv: "book_inv m ob" and t: "t \<notin> resting m ob" and e: "e \<in> entries ob"
    and m1: "m1 = apply_fill m t (entryOrder (entAt m e)) n"
  shows "side_inv b m1 (side_of b ob)"
    and "x \<in> entries ob \<Longrightarrow> order_of m1 x = (if x = e then fill_order n (order_of m e) else order_of m x)"
    and "ordAt m1 = (ordAt m)(t := fill_order n (ordAt m t),
      entryOrder (entAt m e) := fill_order n (order_of m e))"
proof -
  have te: "t \<noteq> entryOrder (entAt m e)" using resting_neq [OF t e] by simp
  show om: "ordAt m1 = (ordAt m)(t := fill_order n (ordAt m t),
      entryOrder (entAt m e) := fill_order n (order_of m e))"
    using te by (auto simp: m1 ordAt_apply_fill fun_eq_iff)
  show ord: "order_of m1 x = (if x = e then fill_order n (order_of m e) else order_of m x)"
    if "x \<in> entries ob" for x
  proof -
    have "entryOrder (entAt m x) = entryOrder (entAt m e) \<Longrightarrow> x = e"
      using entries_inj [OF inv that e] by blast
    then show ?thesis using om resting_neq [OF t that] by (auto simp: m1)
  qed
  show "side_inv b m1 (side_of b ob)"
  proof (rule side_inv_cong [OF book_invD(1) [OF inv]])
    fix x assume "x \<in> set (side_of b ob)"
    then have "x \<in> entries ob" using entries_sides [of ob b] by simp
    then show "Price (order_of m1 x) = Price (order_of m x)"
      "CreatedAt (order_of m1 x) = CreatedAt (order_of m x)"
      using ord by simp_all
  qed (simp add: m1)
qed

lemma book_inv_partial_fill:
  assumes inv: "book_inv m ob" and t: "t \<notin> resting m ob" and e: "e \<in> entries ob"
    and n: "0 < n" "n < RemainingBase (order_of m e)"
  shows "book_inv (apply_fill m t (entryOrder (entAt m e)) n) ob"
proof (rule book_inv_shrink [OF inv])
  let ?m1 = "apply_fill m t (entryOrder (entAt m e)) n"
  note af = apply_fill_sides [OF inv t e refl, where n = n]
  show "side_inv b ?m1 (side_of b ob)" for b by (rule af(1))
  show "live b (order_of ?m1 x)" if "x \<in> set (side_of b ob)" for b x
    using book_invD(2) [OF inv that] fill_live(1) [of b "order_of m e" n] n
      af(2) [of x] that entries_sides [of ob b] by auto
  show "ID (order_of ?m1 x) = ID (order_of m x)" "price_of (order_of ?m1 x) = price_of (order_of m x)"
    if "x \<in> entries ob" for x
    using af(2) [OF that] by simp_all
  show "orderMap ob i = Some x \<longleftrightarrow> orderMap ob i = Some x \<and> x \<in> entries ob" for i x
    using orderMap_iff [OF inv, of i x] by blast
qed simp_all

text \<open>Taking an entry out of its side, after its order and an outsider may have changed.\<close>

lemma book_inv_removed:
  assumes inv: "book_inv m ob" and e: "e \<in> set (side_of b ob)"
    and ord: "\<And>x. x \<in> entries ob \<Longrightarrow> x \<noteq> e \<Longrightarrow> order_of m1 x = order_of m x"
    and side: "side_inv (\<not> b) m1 (side_of (\<not> b) ob)" "side_inv b m2 h"
    and ms: "mset (side_of b ob) = add_mset e (mset h)"
    and frame: "heap_frame (set (side_of b ob)) m1 m2" and next1: "nextE m1 = nextE m"
    and ob': "ob' = (set_side b ob h)\<lparr>orderMap := (orderMap ob)(ID (order_of m e) := None)\<rparr>"
  shows "book_inv m2 ob'"
proof (rule book_inv_shrink [OF inv])
  have "distinct (side_of b ob)" using book_invD(1) [OF inv, of b] by (simp add: side_inv_def)
  then have h: "set h = set (side_of b ob) - {e}"
    using ms by (metis Diff_insert_absorb add_mset_remove_trivial count_mset_0_iff distinct_count_atmost_1
      set_mset_add_mset_insert set_mset_mset distinct.simps(2) mset.simps(2) mset_eq_imp_distinct_iff)
  have o2: "order_of m2 x = order_of m1 x" for x using frame by (simp add: heap_frame_def)
  have disj: "set (side_of b ob) \<inter> set (side_of (\<not> b) ob) = {}" using book_inv_disjoint [OF inv] .
  have sides: "side_of b ob' = h" "side_of (\<not> b) ob' = side_of (\<not> b) ob" by (simp_all add: ob')
  then have ent: "entries ob' = entries ob - {e}"
    using h e disj by (auto simp: entries_sides [of _ b])
  have oth: "side_inv (\<not> b) m2 (side_of (\<not> b) ob)"
    using side(1) frame disj by (rule_tac side_inv_cong) (auto simp: heap_frame_def)
  show "side_inv b' m2 (side_of b' ob')" for b'
    using oth side(2) sides by (cases "b' = b") auto
  show "set (side_of b' ob') \<subseteq> set (side_of b' ob)" for b'
    using h sides by (cases "b' = b") auto
  show "live b' (order_of m2 x)" if "x \<in> set (side_of b' ob')" for b' x
  proof -
    have "x \<in> entries ob" "x \<noteq> e" using that ent entries_sides [of ob' b'] by auto
    moreover have "x \<in> set (side_of b' ob)" using that h sides by (cases "b' = b") auto
    ultimately show ?thesis using book_invD(2) [OF inv] ord o2 by metis
  qed
  show "ID (order_of m2 x) = ID (order_of m x)" "price_of (order_of m2 x) = price_of (order_of m x)"
    if "x \<in> entries ob'" for x
    using that ent ord o2 by auto
  show "nextE m2 = nextE m" using frame next1 by (simp add: heap_frame_def)
  show "orderMap ob' i = Some x \<longleftrightarrow> orderMap ob i = Some x \<and> x \<in> entries ob'" for i x
  proof -
    have "e \<in> entries ob" using e entries_sides [of ob b] by simp
    from orderMap_remove [OF inv this] show ?thesis
      using orderMap_iff [OF inv, of i x] by (auto simp: ob' ent [unfolded ob'])
  qed
qed

lemma match_step_spec:
  assumes ok: "taker_ok tb m ob t tp"
  shows "(match_step tb m ob t tp = Some None \<and>
      (RemainingBase (ordAt m t) \<le> 0 \<or> (\<forall>e \<in> set (side_of (\<not> tb) ob). \<not> crosses tb (ordAt m t) (order_of m e))))
    \<or> (\<exists>m' ob' e n. match_step tb m ob t tp =
          Some (Some (m', ob', trade_record m tb t (entryOrder (entAt m e), n))) \<and>
        traded tb m ob t m' ob' e n \<and> book_inv m' ob' \<and> 0 < RemainingBase (ordAt m t))"
proof (cases "side_of (\<not> tb) ob \<noteq> [] \<and> 0 < RemainingBase (ordAt m t)")
  case False
  then show ?thesis by (auto simp: match_step_def)
next
  case True
  from ok have inv: "book_inv m ob" and t: "t \<notin> resting m ob" and tside: "(Side (ordAt m t) = SideBuy) = tb"
    and filled: "0 \<le> FilledBase (ordAt m t)" and tp: "Price (ordAt m t) = Some tp"
    by (simp_all add: taker_ok_def)
  let ?h = "side_of (\<not> tb) ob"
  define e where "e = ?h ! 0"
  define k where "k = entryOrder (entAt m e)"
  define n where "n = minBigInt (RemainingBase (ordAt m t)) (RemainingBase (ordAt m k))"
  have e: "e \<in> set ?h" using True by (simp add: e_def)
  then have eb: "e \<in> entries ob" using entries_sides [of ob "\<not> tb"] by simp
  have lk: "live (\<not> tb) (ordAt m k)" using book_invD(2) [OF inv e] by (simp add: k_def)
  then obtain kp where kp: "Price (ordAt m k) = Some kp" using live_priced by blast
  have prices: "price_of (ordAt m t) = tp" "price_of (ordAt m k) = kp"
    by (simp_all add: price_of_def tp kp)
  have root: "\<not> priority (\<not> tb) (order_of m x) (ordAt m k)" if "x \<in> set ?h" for x
    using side_root_best [OF book_invD(1) [OF inv] that] by (simp add: k_def e_def)
  have test: "(if tb then tp < kp else kp < tp) \<longleftrightarrow> \<not> crosses tb (ordAt m t) (ordAt m k)"
    by (simp add: crosses_def prices not_le)
  show ?thesis
  proof (cases "crosses tb (ordAt m t) (ordAt m k)")
    case False
    have "\<not> crosses tb (ordAt m t) (order_of m x)" if "x \<in> set ?h" for x
      using root [OF that] False by (cases tb) (auto simp: priority_def crosses_def)
    moreover have "match_step tb m ob t tp = Some None"
      using True False test kp by (simp add: match_step_def k_def e_def)
    ultimately show ?thesis by blast
  next
    case cross: True
    have n: "0 < n" "n = min (RemainingBase (ordAt m t)) (RemainingBase (ordAt m k))"
      using True lk by (auto simp: n_def minBigInt_def live_def)
    let ?s = "if tb then k else t"
    have "0 < AmountSell (ordAt m ?s)"
      using lk tside True filled live_ask_amount by (cases tb) (auto simp: RemainingBase_def)
    note quote = quote_panic_free [OF this, of n]
    define m1 where "m1 = apply_fill m t k n"
    note af = apply_fill_sides [OF inv t eb, of m1 n, folded k_def, OF m1_def]
    define x where "x = trade_record m tb t (k, n)"
    have step: "match_step tb m ob t tp =
      (if Status (ordAt m1 k) = OrderStatusFilled then do {
         (_, (m2, h)) \<leftarrow> heap_Pop (side_heap (\<not> tb)) (m1, ?h);
         Some (Some (m2, (set_side (\<not> tb) ob h)\<lparr>orderMap := (orderMap ob)(ID (ordAt m2 k) := None)\<rparr>, x))
       } else Some (Some (m1, ob, x)))"
      using True cross test kp n(1) quote
      unfolding match_step_def e_def [symmetric] k_def [symmetric] Let_def n_def [symmetric] m1_def [symmetric]
      by (simp add: x_def trade_record_def)
    have om1: "ordAt m1 = (ordAt m)(t := fill_order n (ordAt m t), k := fill_order n (ordAt m k))"
      using af(3) by simp
    have tk: "t \<noteq> k" using resting_neq [OF t eb] by (simp add: k_def)
    show ?thesis
    proof (cases "n = RemainingBase (ordAt m k)")
      case False
      then have lt: "n < RemainingBase (ordAt m k)" using n(2) by simp
      then have "Status (ordAt m1 k) \<noteq> OrderStatusFilled"
        using fill_live(2) [OF lk n(1)] by (simp add: om1)
      moreover have "book_inv m1 ob"
        using book_inv_partial_fill [OF inv t eb n(1)] lt by (simp add: k_def m1_def)
      moreover have "traded tb m ob t m1 ob e n"
        using False e root cross n om1 by (simp add: traded_def k_def [symmetric] Let_def m1_def)
      ultimately show ?thesis using step True by (auto simp: x_def k_def)
    next
      case full: True
      then have "Status (ordAt m1 k) = OrderStatusFilled"
        using fill_full [of "ordAt m k"] by (simp add: om1)
      moreover obtain m2 h where pop: "heap_Pop (side_heap (\<not> tb)) (m1, ?h) = Some (e, (m2, h))"
          "heap_frame (set ?h) m1 m2" "side_inv (\<not> tb) m2 h" "mset ?h = add_mset e (mset h)"
        using side_pop [OF af(1) [of "\<not> tb"]] True unfolding e_def by blast
      moreover define ob' where
        "ob' = (set_side (\<not> tb) ob h)\<lparr>orderMap := (orderMap ob)(ID (ordAt m k) := None)\<rparr>"
      moreover have o2: "ordAt m2 = ordAt m1" using pop(2) by (simp add: heap_frame_def)
      moreover have "ID (ordAt m2 k) = ID (ordAt m k)" using tk by (simp add: o2 om1)
      ultimately have "match_step tb m ob t tp = Some (Some (m2, ob', x))" using step by simp
      moreover have "book_inv m2 ob'"
      proof (rule book_inv_removed [OF inv e, of m1])
        show "order_of m1 y = order_of m y" if "y \<in> entries ob" "y \<noteq> e" for y
          using af(2) [OF that(1)] that(2) by simp
        show "side_inv (\<not> (\<not> tb)) m1 (side_of (\<not> (\<not> tb)) ob)" by (rule af(1))
        show "ob' = (set_side (\<not> tb) ob h)\<lparr>orderMap := (orderMap ob)(ID (order_of m e) := None)\<rparr>"
          by (simp add: ob'_def k_def)
      qed (use pop in \<open>simp_all add: m1_def\<close>)
      moreover have "traded tb m ob t m2 ob' e n"
        using full e root cross n om1 o2 pop tk
        by (cases tb) (simp_all add: traded_def k_def [symmetric] Let_def m1_def heap_frame_def ob'_def entries_def)
      ultimately show ?thesis using True by (auto simp: x_def k_def)
    qed
  qed
qed

section \<open>The loops\<close>

text \<open>
  What a run of matching did: it followed the specification, its trades \<open>ks\<close> (maker and amount) are
  with distinct resting makers, and it changed nothing but the taker, those makers and their side.
\<close>

definition matched :: "bool \<Rightarrow> mem \<Rightarrow> OrderBook \<Rightarrow> oref \<Rightarrow> mem \<Rightarrow> OrderBook \<Rightarrow> (oref \<times> int) list \<Rightarrow> bool" where
  "matched tb m ob t m' ob' ks \<longleftrightarrow>
     match_spec tb (ordAt m t) (book_side m (side_of (\<not> tb) ob)) (map (\<lambda>(k, n). (ordAt m k, n)) ks)
       (ordAt m' t) (book_side m' (side_of (\<not> tb) ob')) \<and>
     distinct (map fst ks) \<and>
     fst ` set ks \<subseteq> (\<lambda>e. entryOrder (entAt m e)) ` set (side_of (\<not> tb) ob) \<and>
     (\<forall>(k, n) \<in> set ks. ordAt m' k = fill_order n (ordAt m k)) \<and>
     (\<forall>r. r \<noteq> t \<longrightarrow> r \<notin> fst ` set ks \<longrightarrow> ordAt m' r = ordAt m r) \<and>
     nextE m' = nextE m \<and> (\<forall>x. entryOrder (entAt m' x) = entryOrder (entAt m x)) \<and>
     side_of tb ob' = side_of tb ob \<and> pair ob' = pair ob \<and>
     set (side_of (\<not> tb) ob') \<subseteq> set (side_of (\<not> tb) ob) \<and>
     (\<forall>x. x \<notin> entries ob \<longrightarrow> Index (entAt m' x) = Index (entAt m x))"

lemma matchedD:
  assumes "matched tb m ob t m' ob' ks"
  shows "match_spec tb (ordAt m t) (book_side m (side_of (\<not> tb) ob)) (map (\<lambda>(k, n). (ordAt m k, n)) ks)
      (ordAt m' t) (book_side m' (side_of (\<not> tb) ob'))"
    and "distinct (map fst ks)"
    and "fst ` set ks \<subseteq> (\<lambda>e. entryOrder (entAt m e)) ` set (side_of (\<not> tb) ob)"
    and "\<And>k n. (k, n) \<in> set ks \<Longrightarrow> ordAt m' k = fill_order n (ordAt m k)"
    and "\<And>r. r \<noteq> t \<Longrightarrow> r \<notin> fst ` set ks \<Longrightarrow> ordAt m' r = ordAt m r"
    and "nextE m' = nextE m" "\<And>x. entryOrder (entAt m' x) = entryOrder (entAt m x)"
      "side_of tb ob' = side_of tb ob" "pair ob' = pair ob"
      "set (side_of (\<not> tb) ob') \<subseteq> set (side_of (\<not> tb) ob)"
      "\<And>x. x \<notin> entries ob \<Longrightarrow> Index (entAt m' x) = Index (entAt m x)"
  using assms unfolding matched_def by blast+

lemma trade_record_cong:
  assumes "ordAt m' t = fill_order nn (ordAt m t)" "ordAt m' (fst kn) = ordAt m (fst kn)"
  shows "trade_record m' tb t kn = trade_record m tb t kn"
  using assms by (cases kn) (simp add: trade_record_def match_record_def quote_at_def)

lemma book_side_split:
  assumes "mset h = add_mset e (mset h')" "distinct h"
    and "\<And>x. x \<in> set h \<Longrightarrow> x \<noteq> e \<Longrightarrow> order_of m' x = order_of m x"
  shows "book_side m h = add_mset (order_of m e) (book_side m h')" "book_side m' h' = book_side m h'"
    "set h' \<subseteq> set h" "e \<notin> set h'"
proof -
  have h: "set h = insert e (set h')" using assms(1) by (metis set_mset_add_mset_insert set_mset_mset)
  have "distinct (e # h')"
    by (rule iffD1 [OF mset_eq_imp_distinct_iff assms(2)]) (simp add: assms(1))
  then show e: "e \<notin> set h'" by simp
  show "set h' \<subseteq> set h" using h by blast
  show "book_side m h = add_mset (order_of m e) (book_side m h')" by (simp add: book_side_def assms(1))
  show "book_side m' h' = book_side m h'"
    unfolding book_side_def using assms(3) h e by (intro image_mset_cong) auto
qed

text \<open>A complete fill of the best maker, followed by a run on what is left, is a run.\<close>

lemma matched_full:
  assumes ok: "taker_ok tb m ob t tp" and tr: "traded tb m ob t m1 ob1 e n"
    and n: "n = RemainingBase (order_of m e)" and run: "matched tb m1 ob1 t m' ob' ks"
  shows "matched tb m ob t m' ob' ((entryOrder (entAt m e), n) # ks)"
    "map (trade_record m1 tb t) ks = map (trade_record m tb t) ks"
proof -
  let ?k = "entryOrder (entAt m e)" and ?h = "side_of (\<not> tb) ob" and ?h1 = "side_of (\<not> tb) ob1"
  have e: "e \<in> set ?h" and ms: "mset ?h = add_mset e (mset ?h1)"
    and frame: "nextE m1 = nextE m" "\<And>x. entryOrder (entAt m1 x) = entryOrder (entAt m x)"
      "side_of tb ob1 = side_of tb ob" "pair ob1 = pair ob"
    and nt: "n \<le> RemainingBase (ordAt m t)" "crosses tb (ordAt m t) (ordAt m ?k)"
    using tr n by (auto simp: traded_def Let_def)
  have eb: "e \<in> entries ob" using e entries_sides [of ob "\<not> tb"] by simp
  have inv: "book_inv m ob" and tres: "t \<notin> resting m ob" using ok by (simp_all add: taker_ok_def)
  have tk: "t \<noteq> ?k" using resting_neq [OF tres eb] by simp
  have om: "ordAt m1 = (ordAt m)(t := fill_order n (ordAt m t), ?k := fill_order n (ordAt m ?k))"
    using tr by (simp add: traded_def Let_def)
  have d: "distinct ?h" using book_invD(1) [OF inv, of "\<not> tb"] by (simp add: side_inv_def)
  have neq: "entryOrder (entAt m x) \<noteq> ?k" "entryOrder (entAt m x) \<noteq> t" if "x \<in> set ?h" "x \<noteq> e" for x
  proof -
    have "x \<in> entries ob" using that entries_sides [of ob "\<not> tb"] by simp
    then show "entryOrder (entAt m x) \<noteq> ?k" "entryOrder (entAt m x) \<noteq> t"
      using entries_inj [OF inv _ eb] that(2) resting_neq [OF tres] by blast+
  qed
  have "order_of m1 x = order_of m x" if "x \<in> set ?h" "x \<noteq> e" for x
    using neq [OF that] om frame by simp
  note bs = book_side_split [OF ms d this]
  have makers: "fst ` set ks \<subseteq> (\<lambda>x. entryOrder (entAt m x)) ` set ?h1"
    using matchedD(3) [OF run] frame by simp
  have kt: "?k \<notin> fst ` set ks" "t \<notin> fst ` set ks"
    using makers bs(3,4) neq by force+
  have same: "ordAt m1 x = ordAt m x" if "x \<in> fst ` set ks" for x
  proof -
    have "x \<noteq> ?k" "x \<noteq> t" using that kt by blast+
    then show ?thesis by (simp add: om)
  qed
  have kn: "(\<lambda>(k, n). (ordAt m1 k, n)) kn = (\<lambda>(k, n). (ordAt m k, n)) kn" if "kn \<in> set ks" for kn
    using same [of "fst kn"] that by (auto simp: case_prod_beta)
  have "match_spec tb (ordAt m t) (book_side m ?h) ((ordAt m ?k, n) # map (\<lambda>(k, n). (ordAt m k, n)) ks)
      (ordAt m' t) (book_side m' (side_of (\<not> tb) ob'))"
  proof (rule match_spec.full)
    show "best (\<not> tb) (ordAt m ?k) (book_side m ?h)"
      using tr e by (auto simp: best_def book_side_def traded_def Let_def)
    note matchedD(1) [OF run]
    moreover have "map (\<lambda>(k, n). (ordAt m1 k, n)) ks = map (\<lambda>(k, n). (ordAt m k, n)) ks"
      using kn by (rule map_cong [OF refl])
    moreover have "ordAt m1 t = fill_order n (ordAt m t)" using om tk by simp
    moreover have "book_side m1 ?h1 = book_side m ?h - {#ordAt m ?k#}" using bs(1,2) by simp
    ultimately show "match_spec tb (fill_order n (ordAt m t)) (book_side m ?h - {#ordAt m ?k#})
        (map (\<lambda>(k, n). (ordAt m k, n)) ks) (ordAt m' t) (book_side m' (side_of (\<not> tb) ob'))"
      by (simp only:)
  qed (use n nt in simp_all)
  moreover have "ordAt m' x = fill_order n' (ordAt m x)" if "(x, n') \<in> set ((?k, n) # ks)" for x n'
  proof (cases "(x, n') \<in> set ks")
    case True
    then show ?thesis using matchedD(4) [OF run True] same [of x] by force
  next
    case False
    then show ?thesis using that matchedD(5) [OF run, of ?k] kt om tk by simp
  qed
  moreover have "ordAt m' r = ordAt m r" if "r \<noteq> t" "r \<notin> fst ` set ((?k, n) # ks)" for r
    using matchedD(5) [OF run that(1)] that om by simp
  moreover have "fst ` set ((?k, n) # ks) \<subseteq> (\<lambda>x. entryOrder (entAt m x)) ` set ?h"
    using makers bs(3) e by auto
  moreover have "Index (entAt m' x) = Index (entAt m x)" if "x \<notin> entries ob" for x
  proof -
    have "x \<notin> entries ob1" using that bs(3) frame(3) by (auto simp: entries_sides [of _ tb])
    then show ?thesis using matchedD(11) [OF run] tr that by (simp add: traded_def Let_def)
  qed
  ultimately show "matched tb m ob t m' ob' ((?k, n) # ks)"
    using matchedD(2,6-10) [OF run] kt(1) frame bs(3) unfolding matched_def by force
  show "map (trade_record m1 tb t) ks = map (trade_record m tb t) ks"
    using same om tk by (intro map_cong refl trade_record_cong [where nn = n]) auto
qed

locale matching_loop =
  fixes tb :: bool
    and loop :: "mem \<Rightarrow> OrderBook \<Rightarrow> oref \<Rightarrow> xfloat \<Rightarrow> MatchResult list \<Rightarrow>
      (mem \<times> OrderBook \<times> MatchResult list) go"
  assumes unroll: "loop m ob t tp ms =
    Option.bind (match_step tb m ob t tp) (repeat_step (\<lambda>m ob ms. loop m ob t tp ms) m ob ms)"
begin

lemma loop_stops:
  assumes "match_step tb m ob t tp = Some None"
    "RemainingBase (ordAt m t) \<le> 0 \<or> (\<forall>e \<in> set (side_of (\<not> tb) ob). \<not> crosses tb (ordAt m t) (order_of m e))"
  shows "loop m ob t tp ms = Some (m, ob, ms)" "matched tb m ob t m ob []"
proof -
  show "loop m ob t tp ms = Some (m, ob, ms)"
    using assms(1) by (simp add: unroll [of m ob t tp ms] repeat_step_def)
  have "match_spec tb (ordAt m t) (book_side m (side_of (\<not> tb) ob)) [] (ordAt m t) (book_side m (side_of (\<not> tb) ob))"
    using assms(2) by (intro match_spec.stop) (auto simp: book_side_def)
  then show "matched tb m ob t m ob []" by (simp add: matched_def)
qed

text \<open>A partial fill exhausts the taker, so the loop ends after it.\<close>

lemma loop_partial:
  assumes ok: "taker_ok tb m ob t tp" and tr: "traded tb m ob t m1 ob1 e n" and inv: "book_inv m1 ob1"
    and n: "n \<noteq> RemainingBase (order_of m e)"
  shows "loop m1 ob1 t tp ms = Some (m1, ob1, ms)" "matched tb m ob t m1 ob1 [(entryOrder (entAt m e), n)]"
proof -
  let ?k = "entryOrder (entAt m e)" and ?h = "side_of (\<not> tb) ob"
  have e: "e \<in> set ?h" and sides: "side_of (\<not> tb) ob1 = ?h" "side_of tb ob1 = side_of tb ob"
    using tr n by (simp_all add: traded_def Let_def)
  have eb: "e \<in> entries ob" using e entries_sides [of ob "\<not> tb"] by simp
  have inv0: "book_inv m ob" and tres: "t \<notin> resting m ob" using ok by (simp_all add: taker_ok_def)
  have tk: "t \<noteq> ?k" using resting_neq [OF tres eb] by simp
  have om: "ordAt m1 = (ordAt m)(t := fill_order n (ordAt m t), ?k := fill_order n (ordAt m ?k))"
    using tr by (simp add: traded_def Let_def)
  have nt: "n = RemainingBase (ordAt m t)" "n < RemainingBase (ordAt m ?k)" "0 < n"
    using tr n by (auto simp: traded_def Let_def)
  have "RemainingBase (ordAt m1 t) \<le> 0" using om tk nt by simp
  then show "loop m1 ob1 t tp ms = Some (m1, ob1, ms)"
    by (simp add: unroll [of m1 ob1 t tp ms] repeat_step_def match_step_def)
  have d: "distinct ?h" using book_invD(1) [OF inv0, of "\<not> tb"] by (simp add: side_inv_def)
  obtain xs ys where h: "?h = xs @ e # ys" using e by (meson split_list)
  have ord: "order_of m1 x = order_of m x" if "x \<in> set ?h" "x \<noteq> e" for x
  proof -
    have "x \<in> entries ob" using that entries_sides [of ob "\<not> tb"] by simp
    then have "entryOrder (entAt m x) \<noteq> ?k" "entryOrder (entAt m x) \<noteq> t"
      using entries_inj [OF inv0 _ eb] that(2) resting_neq [OF tres] by blast+
    then show ?thesis using om tr by (simp add: traded_def Let_def)
  qed
  have "mset ?h = add_mset e (mset (xs @ ys))" by (simp add: h)
  note bs = book_side_split [OF this d ord]
  have "order_of m1 e = fill_order n (ordAt m ?k)" using tr om by (simp add: traded_def Let_def)
  then have "book_side m1 ?h = add_mset (fill_order n (ordAt m ?k)) (book_side m1 (xs @ ys))"
    by (simp add: book_side_def h)
  then have "book_side m1 ?h = add_mset (fill_order n (ordAt m ?k)) (book_side m ?h - {#ordAt m ?k#})"
    using bs(1,2) by simp
  moreover have "match_spec tb (ordAt m t) (book_side m ?h) [(ordAt m ?k, n)] (fill_order n (ordAt m t))
      (add_mset (fill_order n (ordAt m ?k)) (book_side m ?h - {#ordAt m ?k#}))"
    using tr nt e by (intro match_spec.part) (auto simp: traded_def Let_def best_def book_side_def)
  ultimately show "matched tb m ob t m1 ob1 [(?k, n)]"
    using tr om tk e sides by (auto simp: matched_def traded_def Let_def)
qed

text \<open>The loop never panics, ends, and refines the specification.\<close>

lemma loop_correct:
  assumes "taker_ok tb m ob t tp"
  shows "\<exists>m' ob' ks. loop m ob t tp ms = Some (m', ob', ms @ map (trade_record m tb t) ks) \<and>
    matched tb m ob t m' ob' ks \<and> book_inv m' ob'"
  using assms
proof (induction "length (side_of (\<not> tb) ob)" arbitrary: m ob ms rule: less_induct)
  case less
  from match_step_spec [OF less.prems] show ?case
  proof (elim disjE exE conjE)
    assume stop: "match_step tb m ob t tp = Some None" "RemainingBase (ordAt m t) \<le> 0"
    note st = loop_stops [OF stop(1) disjI1 [OF stop(2)]]
    show ?thesis using st less.prems
      by (intro exI [of _ m] exI [of _ ob] exI [of _ "[]"]) (simp add: taker_ok_def)
  next
    assume stop: "match_step tb m ob t tp = Some None"
      "\<forall>e \<in> set (side_of (\<not> tb) ob). \<not> crosses tb (ordAt m t) (order_of m e)"
    note st = loop_stops [OF stop(1) disjI2 [OF stop(2)]]
    show ?thesis using st less.prems
      by (intro exI [of _ m] exI [of _ ob] exI [of _ "[]"]) (simp add: taker_ok_def)
  next
    fix m1 ob1 e n
    assume step: "match_step tb m ob t tp = Some (Some (m1, ob1, trade_record m tb t (entryOrder (entAt m e), n)))"
      and tr: "traded tb m ob t m1 ob1 e n" and inv: "book_inv m1 ob1" and pos: "0 < RemainingBase (ordAt m t)"
    let ?kn = "(entryOrder (entAt m e), n)"
    have next_run: "loop m ob t tp ms = loop m1 ob1 t tp (ms @ [trade_record m tb t ?kn])"
      by (simp add: unroll [of m ob t tp ms] step repeat_step_def)
    show ?thesis
    proof (cases "n = RemainingBase (order_of m e)")
      case False
      from loop_partial [OF less.prems tr inv False] show ?thesis
        by (intro exI [of _ m1] exI [of _ ob1] exI [of _ "[?kn]"]) (simp add: next_run inv)
    next
      case True
      then have ms': "mset (side_of (\<not> tb) ob) = add_mset e (mset (side_of (\<not> tb) ob1))"
        and frame: "\<And>x. entryOrder (entAt m1 x) = entryOrder (entAt m x)" "side_of tb ob1 = side_of tb ob"
        and om: "ordAt m1 = (ordAt m)(t := fill_order n (ordAt m t),
          entryOrder (entAt m e) := fill_order n (order_of m e))" and e: "e \<in> set (side_of (\<not> tb) ob)" and n: "0 < n"
        using tr by (auto simp: traded_def Let_def)
      have sub: "entries ob1 \<subseteq> entries ob"
        using ms' frame by (auto simp: entries_sides [of _ tb] dest!: arg_cong [where f = set_mset])
      have "t \<noteq> entryOrder (entAt m e)"
        using less.prems e entries_sides [of ob "\<not> tb"] resting_neq [of t m ob e] by (auto simp: taker_ok_def)
      then have "taker_ok tb m1 ob1 t tp"
        using less.prems inv sub frame n om by (auto simp: taker_ok_def resting_def)
      moreover have "length (side_of (\<not> tb) ob1) < length (side_of (\<not> tb) ob)"
        using ms' by (metis lessI size_add_mset size_mset)
      ultimately obtain m' ob' ks where
        run: "loop m1 ob1 t tp (ms @ [trade_record m tb t ?kn]) =
          Some (m', ob', (ms @ [trade_record m tb t ?kn]) @ map (trade_record m1 tb t) ks)"
          "matched tb m1 ob1 t m' ob' ks" "book_inv m' ob'"
        using less.hyps by blast
      from matched_full [OF less.prems tr True run(2)] run(1,3) show ?thesis
        by (intro exI [of _ m'] exI [of _ ob'] exI [of _ "?kn # ks"]) (simp add: next_run)
    qed
  qed
qed

end

interpretation buy_loop: matching_loop True matchBuy_loop
  by unfold_locales (rule matchBuy_loop_step)

interpretation sell_loop: matching_loop False matchSell_loop
  by unfold_locales (rule matchSell_loop_step)

end
