(* ===== verification/BookOps.thy ===== *)
theory BookOps
  imports Matching
begin

text \<open>
  \<open>AddOrder\<close> and \<open>CancelOrder\<close> on a book that satisfies its invariant: neither panics, both keep the
  invariant, and their effect is stated over the two sides of the book as multisets of orders.
\<close>

section \<open>What matching leaves alone\<close>

text \<open>Only the filled amount and the status of an order ever change in the engine.\<close>

definition same_terms :: "Order \<Rightarrow> Order \<Rightarrow> bool" where
  "same_terms od od' \<longleftrightarrow> od' = od\<lparr>FilledBase := FilledBase od', Status := Status od'\<rparr>"

lemma same_terms_refl [simp]: "same_terms od od"
  by (simp add: same_terms_def)

lemma same_terms_fill [simp]: "same_terms od (fill_order n od)"
  by (simp add: same_terms_def fill_order_def add_filled_def updateOrderStatus_def)

lemma same_terms_trans: "same_terms x y \<Longrightarrow> same_terms y z \<Longrightarrow> same_terms x z"
  by (cases x; cases y; cases z) (simp add: same_terms_def)

lemma same_terms_eqs:
  assumes "same_terms x y"
  shows "ID y = ID x" "Side y = Side x" "Price y = Price x" "CreatedAt y = CreatedAt x"
    "AmountSell y = AmountSell x" "AmountBuy y = AmountBuy x" "Maker y = Maker x"
    "Expiry y = Expiry x" "Nonce y = Nonce x" "Salt y = Salt x" "base_amount y = base_amount x"
proof -
  obtain f st where "y = x\<lparr>FilledBase := f, Status := st\<rparr>" using assms by (auto simp: same_terms_def)
  then show "ID y = ID x" "Side y = Side x" "Price y = Price x" "CreatedAt y = CreatedAt x"
    "AmountSell y = AmountSell x" "AmountBuy y = AmountBuy x" "Maker y = Maker x"
    "Expiry y = Expiry x" "Nonce y = Nonce x" "Salt y = Salt x" "base_amount y = base_amount x"
    by simp_all
qed

lemma match_spec_terms: "match_spec tb t M rs t' M' \<Longrightarrow> same_terms t t'"
  by (induction rule: match_spec.induct) (auto intro: same_terms_trans [OF same_terms_fill])

text \<open>The status after matching says whether anything was filled and whether anything is left.\<close>

lemma fill_order_status:
  "0 \<le> FilledBase od \<Longrightarrow> 0 < n \<Longrightarrow>
    Status (fill_order n od) = (if RemainingBase od \<le> n then OrderStatusFilled else OrderStatusPartiallyFilled)"
  by (simp add: fill_order_def updateOrderStatus_def)

lemma match_spec_status:
  assumes "match_spec tb t M rs t' M'" "0 \<le> FilledBase t" "\<forall>s \<in># M. 0 < RemainingBase s" "rs \<noteq> []"
  shows "Status t' = (if RemainingBase t' \<le> 0 then OrderStatusFilled else OrderStatusPartiallyFilled)"
  using assms
proof (induction rule: match_spec.induct)
  case (full s M t n rs t' M')
  have s: "s \<in># M" "0 < n" using bestD(1) [OF full.hyps(1)] full.hyps(3) full.prems(2) by auto
  show ?case
  proof (cases "rs = []")
    case True
    with full.hyps(5) have "t' = fill_order n t" by (auto elim: match_spec.cases)
    then show ?thesis using s full.prems(1) by (simp add: fill_order_status)
  next
    case False
    have "\<forall>s' \<in># M - {#s#}. 0 < RemainingBase s'" using full.prems(2) by (meson in_diffD)
    then show ?thesis using full.IH full.prems(1) False s by simp
  qed
qed (simp_all add: fill_order_status)

section \<open>Resting an order\<close>

lemma new_entry_frame [simp, frame_simps]:
  "ordAt (new_entry m t) = ordAt m" "nextE (new_entry m t) = Suc (nextE m)"
  "entAt (new_entry m t) e = (if e = nextE m then \<lparr>entryOrder = t, Index = 0\<rparr> else entAt m e)"
  by (simp_all add: new_entry_def)

text \<open>A live order that crosses nothing may rest.\<close>

lemma book_inv_insert:
  assumes inv: "book_inv m ob" and t: "live b (ordAt m t)" "t \<notin> resting m ob"
    and fresh: "orderMap ob (ID (ordAt m t)) = None"
    and cross: "\<forall>e \<in> set (side_of (\<not> b) ob). \<not> crosses b (ordAt m t) (order_of m e)"
  shows "\<exists>m' h. heap_Push (side_heap b) (new_entry m t, side_of b ob) (nextE m) = Some (m', h) \<and>
    book_inv m' (set_side b (ob\<lparr>orderMap := (orderMap ob)(ID (ordAt m t) \<mapsto> nextE m)\<rparr>) h) \<and>
    heap_frame (insert (nextE m) (set (side_of b ob))) (new_entry m t) m' \<and>
    mset h = add_mset (nextE m) (mset (side_of b ob))"
proof -
  let ?m1 = "new_entry m t" and ?n = "nextE m" and ?h = "side_of b ob"
  have small: "e \<in> entries ob \<Longrightarrow> e < ?n" for e using book_invD(3) [OF inv] .
  then have new: "?n \<notin> entries ob" by blast
  then have newh: "?n \<notin> set (side_of c ob)" for c using entries_sides [of ob c] by simp
  have o1: "order_of ?m1 e = (if e = ?n then ordAt m t else order_of m e)" for e by simp
  have side: "side_inv c ?m1 (side_of c ob)" for c
    by (rule side_inv_cong [OF book_invD(1) [OF inv]]) (use newh in \<open>auto\<close>)
  obtain m' h where push: "heap_Push (side_heap b) (?m1, ?h) ?n = Some (m', h)"
    "heap_frame (insert ?n (set ?h)) ?m1 m'" "side_inv b m' h" "mset h = add_mset ?n (mset ?h)"
    using side_push [OF side [of b] newh [of b]] live_priced [OF t(1)] o1 [of ?n] by auto
  let ?ob' = "set_side b (ob\<lparr>orderMap := (orderMap ob)(ID (ordAt m t) \<mapsto> ?n)\<rparr>) h"
  have frame: "ordAt m' = ordAt m" "nextE m' = Suc ?n" "entryOrder (entAt m' e) = entryOrder (entAt ?m1 e)" for e
    using push(2) by (simp_all add: heap_frame_def)
  then have o2: "order_of m' e = (if e = ?n then ordAt m t else order_of m e)" for e by simp
  have h: "set h = insert ?n (set ?h)" using push(4) by (metis set_mset_add_mset_insert set_mset_mset)
  have sides: "side_of b ?ob' = h" "side_of (\<not> b) ?ob' = side_of (\<not> b) ob" by simp_all
  then have ent: "entries ?ob' = insert ?n (entries ob)" using h by (auto simp: entries_sides [of _ b])
  have oth: "side_inv (\<not> b) m' (side_of (\<not> b) ob)"
    by (rule side_inv_cong [OF side])
      (use newh push(2) book_inv_disjoint [OF inv, of b] o1 o2 in \<open>auto simp: heap_frame_def\<close>)
  have "side_inv c m' (side_of c ?ob') \<and> (\<forall>e \<in> set (side_of c ?ob'). e < nextE m' \<and> live c (order_of m' e))" for c
  proof (cases "c = b")
    case True
    then show ?thesis
      using push(3) h t(1) o2 small book_invD(2) [OF inv, of _ b] frame entries_sides [of ob b]
      by (auto intro: less_SucI)
  next
    case False
    then have c: "c = (\<not> b)" by simp
    show ?thesis unfolding c sides
      using oth newh o2 book_invD(2) [OF inv, of _ "\<not> b"] frame small entries_sides [of ob b]
      by (auto intro: less_SucI)
  qed
  moreover have "index_inv m' ?ob'"
    unfolding index_inv_def
  proof (intro allI)
    fix i e
    show "orderMap ?ob' i = Some e \<longleftrightarrow> e \<in> entries ?ob' \<and> ID (order_of m' e) = i"
      using orderMap_iff [OF inv, of i e] orderMap_iff [OF inv, of "ID (ordAt m t)" e] fresh new o2 [of e]
      by (cases "i = ID (ordAt m t)"; cases "e = ?n") (simp_all add: ent)
  qed
  moreover have "uncrossed m' ?ob'"
    using book_invD(5) [OF inv] cross h newh [of True] newh [of False] o2
    by (cases b) (auto simp: uncrossed_def crosses_def not_le)
  ultimately show ?thesis using push by (auto simp: book_inv_def)
qed

section \<open>\<open>AddOrder\<close>\<close>

text \<open>What an incoming order has to satisfy, and what adding it does.\<close>

definition add_ok :: "mem \<Rightarrow> OrderBook \<Rightarrow> oref \<Rightarrow> bool" where
  "add_ok m ob t \<longleftrightarrow> book_inv m ob \<and> t \<notin> resting m ob \<and> orderMap ob (ID (ordAt m t)) = None \<and>
     0 \<le> FilledBase (ordAt m t) \<and> active (ordAt m t) \<and> Price (ordAt m t) \<noteq> None"

abbreviation is_buy :: "mem \<Rightarrow> oref \<Rightarrow> bool" where
  "is_buy m t \<equiv> Side (ordAt m t) = SideBuy"

definition added :: "mem \<Rightarrow> OrderBook \<Rightarrow> oref \<Rightarrow> mem \<Rightarrow> OrderBook \<Rightarrow> (oref \<times> int) list \<Rightarrow> bool" where
  "added m ob t m' ob' ks \<longleftrightarrow>
     (let tb = is_buy m t; t' = ordAt m' t in
       match_spec tb (ordAt m t) (book_side m (side_of (\<not> tb) ob)) (map (\<lambda>(k, n). (ordAt m k, n)) ks)
         t' (book_side m' (side_of (\<not> tb) ob')) \<and>
       book_side m' (side_of tb ob') =
         book_side m (side_of tb ob) + (if 0 < RemainingBase t' then {#t'#} else {#}) \<and>
       distinct (map fst ks) \<and> fst ` set ks \<subseteq> resting m ob \<and>
       (\<forall>(k, n) \<in> set ks. ordAt m' k = fill_order n (ordAt m k)) \<and>
       (\<forall>r. r \<noteq> t \<longrightarrow> r \<notin> fst ` set ks \<longrightarrow> ordAt m' r = ordAt m r) \<and>
       pair ob' = pair ob \<and> nextE m \<le> nextE m' \<and>
       (\<forall>e < nextE m. entryOrder (entAt m' e) = entryOrder (entAt m e)) \<and>
       (\<forall>e < nextE m. e \<notin> entries ob \<longrightarrow> entAt m' e = entAt m e) \<and> entries ob' \<subseteq> insert (nextE m) (entries ob) \<and>
       resting m' ob' \<subseteq> insert t (resting m ob) \<and> (t \<in> resting m' ob' \<longleftrightarrow> 0 < RemainingBase t'))"

lemma entry_eqI: "entryOrder x = entryOrder y \<Longrightarrow> Index x = Index y \<Longrightarrow> x = (y :: OrderEntry)"
  by simp

lemma add_match:
  assumes "add_ok m ob t"
  shows "\<exists>m1 ob1 ks.
    (if is_buy m t then matchBuy m ob t else matchSell m ob t) =
      Some (m1, ob1, map (trade_record m (is_buy m t) t) ks) \<and>
    matched (is_buy m t) m ob t m1 ob1 ks \<and> book_inv m1 ob1"
proof -
  obtain p where p: "Price (ordAt m t) = Some p" using assms by (auto simp: add_ok_def)
  then have "taker_ok (is_buy m t) m ob t p" using assms by (simp add: add_ok_def taker_ok_def)
  then show ?thesis
    using buy_loop.loop_correct [of m ob t p "[]"] sell_loop.loop_correct [of m ob t p "[]"] p
    by (cases "is_buy m t") (simp_all add: matchBuy_def matchSell_def)
qed

lemma orderMap_shrink:
  assumes "book_inv m ob" "book_inv m1 ob1" "entries ob1 \<subseteq> entries ob"
    and "\<And>e. e \<in> entries ob1 \<Longrightarrow> ID (order_of m1 e) = ID (order_of m e)" "orderMap ob i = None"
  shows "orderMap ob1 i = None"
proof (rule ccontr)
  assume "orderMap ob1 i \<noteq> None"
  then obtain e where "orderMap ob1 i = Some e" by blast
  then have "e \<in> entries ob1" "ID (order_of m1 e) = i" using orderMap_iff [OF assms(2)] by blast+
  then have "orderMap ob i = Some e" using orderMap_iff [OF assms(1)] assms(3,4) by (metis subsetD)
  then show False using assms(5) by simp
qed


text \<open>What a run of matching leaves of the rest of the book.\<close>

lemma matched_frame:
  assumes ok: "add_ok m ob t" and run: "matched (is_buy m t) m ob t m1 ob1 ks" and inv1: "book_inv m1 ob1"
  shows "entries ob1 \<subseteq> entries ob" "resting m1 ob1 \<subseteq> resting m ob" "t \<notin> resting m1 ob1"
    "same_terms (ordAt m r) (ordAt m1 r)" "fst ` set ks \<subseteq> resting m ob"
    "orderMap ob1 (ID (ordAt m1 t)) = None"
    "book_side m1 (side_of (is_buy m t) ob1) = book_side m (side_of (is_buy m t) ob)"
proof -
  let ?tb = "is_buy m t"
  have inv: "book_inv m ob" and t: "t \<notin> resting m ob" and fresh: "orderMap ob (ID (ordAt m t)) = None"
    using ok by (simp_all add: add_ok_def)
  note D = matchedD [OF run]
  show ents: "entries ob1 \<subseteq> entries ob"
    using D(8,10) by (auto simp: entries_sides [of _ ?tb])
  then show rest: "resting m1 ob1 \<subseteq> resting m ob" using D(7) by (auto simp: resting_def)
  then show "t \<notin> resting m1 ob1" using t by blast
  show makers: "fst ` set ks \<subseteq> resting m ob"
    using D(3) by (auto simp: resting_def entries_sides [of ob ?tb])
  show same: "same_terms (ordAt m r) (ordAt m1 r)" for r
  proof (cases "r = t \<or> r \<in> fst ` set ks")
    case True
    then show ?thesis using match_spec_terms [OF D(1)] D(4) by auto
  next
    case False
    then show ?thesis using D(5) [of r] by simp
  qed
  show "orderMap ob1 (ID (ordAt m1 t)) = None"
  proof (rule orderMap_shrink [OF inv inv1 ents])
    show "orderMap ob (ID (ordAt m1 t)) = None" using same_terms_eqs(1) [OF same] fresh by simp
    show "ID (order_of m1 e) = ID (order_of m e)" for e
      using same_terms_eqs(1) [OF same] D(7) by simp
  qed
  show "book_side m1 (side_of ?tb ob1) = book_side m (side_of ?tb ob)"
    unfolding book_side_def D(8)
  proof (intro image_mset_cong)
    fix e assume "e \<in># mset (side_of ?tb ob)"
    then have e: "e \<in> set (side_of ?tb ob)" by simp
    then have eb: "e \<in> entries ob" by (auto simp: entries_sides [of ob ?tb])
    have "entryOrder (entAt m e) \<notin> fst ` set ks"
    proof
      assume "entryOrder (entAt m e) \<in> fst ` set ks"
      then obtain e' where e': "e' \<in> set (side_of (\<not> ?tb) ob)" "entryOrder (entAt m e') = entryOrder (entAt m e)"
        using D(3) by fastforce
      then have "e' \<in> entries ob" by (auto simp: entries_sides [of ob ?tb])
      then have "e' = e" using entries_inj [OF inv] eb e'(2) by blast
      then show False using e e'(1) book_inv_disjoint [OF inv, of ?tb] by blast
    qed
    then show "order_of m1 e = order_of m e"
      using D(5,7) resting_neq [OF t eb] by simp
  qed
qed

lemma AddOrder_eq:
  "AddOrder m ob t = Option.bind (if is_buy m t then matchBuy m ob t else matchSell m ob t)
     (\<lambda>(m1, ob1, ms).
       if 0 < RemainingBase (ordAt m1 t) \<and> Status (ordAt m1 t) \<noteq> OrderStatusFilled then
         Option.bind (heap_Push (side_heap (is_buy m1 t)) (new_entry m1 t, side_of (is_buy m1 t) ob1) (nextE m1))
           (\<lambda>(m3, h). Some (m3, set_side (is_buy m1 t)
              (ob1\<lparr>orderMap := (orderMap ob1)(ID (ordAt m1 t) \<mapsto> nextE m1)\<rparr>) h, ms))
       else Some (m1, ob1, ms))"
  by (auto simp: AddOrder_def Let_def side_heap_def intro!: Option.bind_cong)

lemma match_side_pos:
  "book_inv m ob \<Longrightarrow> s \<in># book_side m (side_of b ob) \<Longrightarrow> 0 < RemainingBase s"
  using book_invD(2) by (fastforce simp: book_side_def live_def)

lemma taker_live:
  assumes ok: "add_ok m ob t" and run: "matched (is_buy m t) m ob t m1 ob1 ks"
    and left: "0 < RemainingBase (ordAt m1 t)"
  shows "live (is_buy m t) (ordAt m1 t)" "Status (ordAt m1 t) \<noteq> OrderStatusFilled"
proof -
  let ?rs = "map (\<lambda>(k, n). (ordAt m k, n)) ks"
  have inv: "book_inv m ob" and filled: "0 \<le> FilledBase (ordAt m t)" and act: "active (ordAt m t)"
    using ok by (simp_all add: add_ok_def)
  note spec = matchedD(1) [OF run]
  have pos: "\<forall>s \<in># book_side m (side_of (\<not> is_buy m t) ob). 0 < RemainingBase s"
    using match_side_pos [OF inv] by blast
  have "\<forall>(s, n) \<in> set ?rs. 0 < n" using match_spec_fills [OF spec pos] by auto
  then have "0 \<le> sum_list (map snd ?rs)" by (intro sum_list_nonneg) fastforce
  then have f: "0 \<le> FilledBase (ordAt m1 t)" using match_spec_filled [OF spec] filled by simp
  have a: "active (ordAt m1 t)"
  proof (cases "ks = []")
    case True
    then have "ordAt m1 t = ordAt m t" using match_spec_taker [OF spec] by simp
    then show ?thesis using act by simp
  next
    case False
    then show ?thesis using match_spec_status [OF spec filled pos] left by (simp add: active_def)
  qed
  then show "live (is_buy m t) (ordAt m1 t)"
    using left f same_terms_eqs(2) [OF match_spec_terms [OF spec]] by (simp add: live_def)
  show "Status (ordAt m1 t) \<noteq> OrderStatusFilled" using a by (auto simp: active_def)
qed

lemma AddOrder_spec:
  assumes ok: "add_ok m ob t"
  shows "\<exists>m' ob' ks. AddOrder m ob t = Some (m', ob', map (trade_record m (is_buy m t) t) ks) \<and>
    book_inv m' ob' \<and> added m ob t m' ob' ks"
proof -
  let ?tb = "is_buy m t"
  obtain m1 ob1 ks where run: "(if ?tb then matchBuy m ob t else matchSell m ob t) =
      Some (m1, ob1, map (trade_record m ?tb t) ks)"
    and mt: "matched ?tb m ob t m1 ob1 ks" and inv1: "book_inv m1 ob1"
    using add_match [OF ok] by blast
  note D = matchedD [OF mt] and F = matched_frame [OF ok mt inv1]
  have tb1: "is_buy m1 t = ?tb" using same_terms_eqs(2) [OF F(4)] by simp
  show ?thesis
  proof (cases "0 < RemainingBase (ordAt m1 t)")
    case False
    then have "AddOrder m ob t = Some (m1, ob1, map (trade_record m ?tb t) ks)"
      by (simp add: AddOrder_eq run)
    moreover have "\<forall>e < nextE m. e \<notin> entries ob \<longrightarrow> entAt m1 e = entAt m e"
      using D(7,11) by (blast intro: entry_eqI)
    then have "added m ob t m1 ob1 ks"
      using D F False unfolding added_def Let_def by auto
    ultimately show ?thesis using inv1 by blast
  next
    case True
    note tl = taker_live [OF ok mt True]
    have noncross: "\<forall>e \<in> set (side_of (\<not> ?tb) ob1). \<not> crosses ?tb (ordAt m1 t) (order_of m1 e)"
      using match_spec_exhausted [OF D(1)] True
      by (auto simp: book_side_def crosses_def price_of_def same_terms_eqs(3) [OF F(4) [of t]] split: if_splits)
    obtain m' h where push: "heap_Push (side_heap ?tb) (new_entry m1 t, side_of ?tb ob1) (nextE m1) = Some (m', h)"
      and inv': "book_inv m' (set_side ?tb (ob1\<lparr>orderMap := (orderMap ob1)(ID (ordAt m1 t) \<mapsto> nextE m1)\<rparr>) h)"
      and frame: "heap_frame (insert (nextE m1) (set (side_of ?tb ob1))) (new_entry m1 t) m'"
      and h: "mset h = add_mset (nextE m1) (mset (side_of ?tb ob1))"
      using book_inv_insert [OF inv1 tl(1) F(3) F(6) noncross] by blast
    let ?ob' = "set_side ?tb (ob1\<lparr>orderMap := (orderMap ob1)(ID (ordAt m1 t) \<mapsto> nextE m1)\<rparr>) h"
    have "AddOrder m ob t = Some (m', ?ob', map (trade_record m ?tb t) ks)"
      using True tl(2) push by (simp add: AddOrder_eq run tb1)
    moreover have "added m ob t m' ?ob' ks"
    proof -
      have new: "nextE m1 \<notin> entries ob1" using book_invD(3) [OF inv1] by blast
      have om: "ordAt m' = ordAt m1" "nextE m' = Suc (nextE m1)"
        and eo: "entryOrder (entAt m' e) = (if e = nextE m1 then t else entryOrder (entAt m1 e))" for e
        using frame by (simp_all add: heap_frame_def)
      have same: "book_side m' (side_of b ob1) = book_side m1 (side_of b ob1)" for b
        unfolding book_side_def using new entries_sides [of ob1 b]
        by (intro image_mset_cong) (auto simp: om eo)
      have own: "book_side m' h = add_mset (ordAt m1 t) (book_side m1 (side_of ?tb ob1))"
        using same [of ?tb] by (simp add: book_side_def h om eo)
      have seth: "set h = insert (nextE m1) (set (side_of ?tb ob1))"
        using h by (metis set_mset_add_mset_insert set_mset_mset)
      have ents: "entries ?ob' = insert (nextE m1) (entries ob1)"
        by (auto simp: entries_sides [of _ ?tb] seth)
      have rest: "resting m' ?ob' = insert t (resting m1 ob1)"
      proof -
        have "(\<lambda>e. entryOrder (entAt m' e)) ` entries ob1 = (\<lambda>e. entryOrder (entAt m1 e)) ` entries ob1"
          using new by (intro image_cong) (auto simp: eo)
        then show ?thesis unfolding resting_def ents image_insert by (simp only: eo if_True simp_thms)
      qed
      have old: "entAt m' e = entAt m e" if "e < nextE m" "e \<notin> entries ob" for e
      proof (rule entry_eqI)
        show "entryOrder (entAt m' e) = entryOrder (entAt m e)" using that(1) D(6,7) by (simp add: eo)
        have "e \<notin> set (side_of ?tb ob1)" using that(2) F(1) entries_sides [of ob1 ?tb] by auto
        then show "Index (entAt m' e) = Index (entAt m e)"
          using frame that D(6) D(11) [OF that(2)] by (simp add: heap_frame_def)
      qed
      have "\<forall>(k, n) \<in> set ks. ordAt m1 k = fill_order n (ordAt m k)" using D(4) by auto
      moreover have "entries ?ob' \<subseteq> insert (nextE m) (entries ob)" unfolding ents using F(1) D(6) by auto
      ultimately show ?thesis
        unfolding added_def Let_def using D F True rest om eo own same old
        by (simp add: subset_insertI2)
    qed
    ultimately show ?thesis using inv' by blast
  qed
qed


section \<open>\<open>CancelOrder\<close>\<close>

lemma CancelOrder_eq:
  "orderMap ob i = Some e \<Longrightarrow> CancelOrder m ob i =
    (let r = entryOrder (entAt m e); m1 = upd_order m r (\<lambda>od. od\<lparr>Status := OrderStatusCancelled\<rparr>); b = is_buy m r in
      Option.bind (heap_Remove (side_heap b) (m1, side_of b ob) (Index (entAt m1 e)))
        (\<lambda>(_, (m2, h)). Some (m2, set_side b (ob\<lparr>orderMap := (orderMap ob)(i := None)\<rparr>) h, Some r)))"
  by (auto simp: CancelOrder_def Let_def side_heap_def intro!: Option.bind_cong)

definition cancelled :: "mem \<Rightarrow> OrderBook \<Rightarrow> oref \<Rightarrow> mem \<Rightarrow> OrderBook \<Rightarrow> bool" where
  "cancelled m ob r m' ob' \<longleftrightarrow>
     (let b = is_buy m r in
       ordAt m' = (ordAt m)(r := (ordAt m r)\<lparr>Status := OrderStatusCancelled\<rparr>) \<and>
       book_side m (side_of b ob) = add_mset (ordAt m r) (book_side m' (side_of b ob')) \<and>
       book_side m' (side_of (\<not> b) ob') = book_side m (side_of (\<not> b) ob) \<and>
       orderMap ob' = (orderMap ob)(ID (ordAt m r) := None) \<and>
       (\<forall>e. e \<notin> entries ob \<longrightarrow> entAt m' e = entAt m e) \<and> entries ob' \<subseteq> entries ob \<and>
       resting m' ob' = resting m ob - {r} \<and> r \<in> resting m ob \<and> pair ob' = pair ob \<and> nextE m' = nextE m)"

lemma CancelOrder_spec:
  assumes inv: "book_inv m ob" and i: "orderMap ob i = Some e"
  shows "\<exists>m' ob'. CancelOrder m ob i = Some (m', ob', Some (entryOrder (entAt m e))) \<and>
    book_inv m' ob' \<and> cancelled m ob (entryOrder (entAt m e)) m' ob' \<and> ID (order_of m e) = i"
proof -
  define r where "r = entryOrder (entAt m e)"
  define b where "b = is_buy m r"
  define m1 where "m1 = upd_order m r (\<lambda>od. od\<lparr>Status := OrderStatusCancelled\<rparr>)"
  have eb: "e \<in> entries ob" and id: "ID (order_of m e) = i" using orderMap_iff [OF inv] i by blast+
  have e: "e \<in> set (side_of b ob)"
  proof (rule ccontr)
    assume "e \<notin> set (side_of b ob)"
    then have "e \<in> set (side_of (\<not> b) ob)" using eb entries_sides [of ob b] by auto
    then show False using book_invD(2) [OF inv] by (auto simp: live_def b_def r_def)
  qed
  have o1: "order_of m1 x = order_of m x" if "x \<in> entries ob" "x \<noteq> e" for x
    using entries_inj [OF inv that(1) eb] that(2) by (auto simp: m1_def r_def)
  have side1: "side_inv c m1 (side_of c ob)" for c
    by (rule side_inv_cong [OF book_invD(1) [OF inv]]) (simp_all add: m1_def)
  obtain m2 h where rem: "heap_Remove (side_heap b) (m1, side_of b ob) (Index (entAt m1 e)) = Some (e, (m2, h))"
    "heap_frame (set (side_of b ob)) m1 m2" "side_inv b m2 h" "mset (side_of b ob) = add_mset e (mset h)"
    using side_remove [OF side1 e] by blast
  let ?ob' = "set_side b (ob\<lparr>orderMap := (orderMap ob)(i := None)\<rparr>) h"
  have run: "CancelOrder m ob i = Some (m2, ?ob', Some r)"
    unfolding CancelOrder_eq [OF i] Let_def r_def [symmetric] m1_def [symmetric] b_def [symmetric] rem(1) by simp
  have "?ob' = (set_side b ob h)\<lparr>orderMap := (orderMap ob)(ID (order_of m e) := None)\<rparr>"
    by (cases b) (simp_all add: id)
  moreover have n1: "nextE m1 = nextE m" by (simp add: m1_def)
  ultimately have inv': "book_inv m2 ?ob'"
    using book_inv_removed [OF inv e o1 side1 rem(3,4,2)] by blast
  have d: "distinct (side_of b ob)" using book_invD(1) [OF inv] by (simp add: side_inv_def)
  have eo: "entryOrder (entAt m2 x) = entryOrder (entAt m x)" for x
    using rem(2) by (simp add: heap_frame_def m1_def)
  have om: "ordAt m2 = (ordAt m)(r := (ordAt m r)\<lparr>Status := OrderStatusCancelled\<rparr>)" "nextE m2 = nextE m"
    using rem(2) by (auto simp: heap_frame_def m1_def)
  have o2: "order_of m2 x = order_of m x" if "x \<in> entries ob" "x \<noteq> e" for x
    using o1 [OF that] rem(2) by (simp add: heap_frame_def)
  have bs: "book_side m (side_of b ob) = add_mset (ordAt m r) (book_side m h)" "book_side m2 h = book_side m h"
    "set h \<subseteq> set (side_of b ob)" "e \<notin> set h"
    using book_side_split [OF rem(4) d, of m2 m] o2 entries_sides [of ob b] by (auto simp: r_def)
  have disj: "e \<notin> set (side_of (\<not> b) ob)" using e book_inv_disjoint [OF inv, of b] by blast
  then have other: "book_side m2 (side_of (\<not> b) ob) = book_side m (side_of (\<not> b) ob)"
    unfolding book_side_def using o2 entries_sides [of ob b] by (intro image_mset_cong) auto
  have "set (side_of b ob) = insert e (set h)" using rem(4) by (metis set_mset_add_mset_insert set_mset_mset)
  then have ents: "entries ?ob' = entries ob - {e}" using bs(4) disj by (auto simp: entries_sides [of _ b])
  have "resting m2 ?ob' = resting m ob - {r}"
    unfolding resting_def ents eo using entries_inj [OF inv _ eb] eb by (auto simp: r_def)
  moreover have "\<forall>x. x \<notin> entries ob \<longrightarrow> entAt m2 x = entAt m x"
    using rem(2) entries_sides [of ob b] by (auto simp: heap_frame_def m1_def intro!: entry_eqI)
  moreover have "r \<in> resting m ob" "ID (ordAt m r) = i" using eb id by (simp_all add: resting_def r_def)
  ultimately have "cancelled m ob r m2 ?ob'"
    using om bs(1,2) other ents unfolding cancelled_def Let_def b_def [symmetric] by simp
  then show ?thesis using run inv' id by (auto simp: r_def)
qed

section \<open>An empty book\<close>

lemma NewOrderBook_spec:
  "NewOrderBook m p = Some \<lparr>pair = p, buys = [], sells = [], orderMap = Map.empty\<rparr>"
  by (simp add: NewOrderBook_def heap_Init_def BuyHeap_def SellHeap_def)

lemma book_inv_new: "book_inv m \<lparr>pair = p, buys = [], sells = [], orderMap = Map.empty\<rparr>"
  by (auto simp: book_inv_def index_inv_def uncrossed_def entries_def side_of_def)

end
