(* ===== verification/BookExample.thy ===== *)
theory BookExample
  imports BookOps
begin

text \<open>
  A concrete book for the witnesses: two resting sell orders, \<open>a\<close> (100 base at price 2) and
  \<open>b\<close> (50 base at price 3), and an incoming buy order \<open>c\<close> for 130 base at price 4.
\<close>

definition ex_order :: "string \<Rightarrow> Side \<Rightarrow> int \<Rightarrow> int \<Rightarrow> time \<Rightarrow> Order" where
  "ex_order i sd amtSell amtBuy created =
     \<lparr>ID = i, Maker = ''0xm'', TokenSell = ''0xs'', TokenBuy = ''0xb'', AmountSell = amtSell,
      AmountBuy = amtBuy, Expiry = 0, Nonce = 0, Salt = 1, Signature = ''0x'', Side = sd,
      Status = OrderStatusOpen, FilledBase = 0, OPair = ''NEXUS-USDC'', CreatedAt = created,
      UpdatedAt = created\<rparr>"

definition ex_mem :: mem where
  "ex_mem = \<lparr>ordAt = (\<lambda>r. if r = 0 then ex_order ''a'' SideSell 100 200 1
       else if r = Suc 0 then ex_order ''b'' SideSell 50 150 2 else ex_order ''c'' SideBuy 520 130 3),
     entAt = (\<lambda>e. \<lparr>entryOrder = e, Index = int e\<rparr>), nextE = 2\<rparr>"

definition ex_book :: OrderBook where
  "ex_book = \<lparr>pair = ''NEXUS-USDC'', buys = [], sells = [0, Suc 0], orderMap = [''a'' \<mapsto> 0, ''b'' \<mapsto> Suc 0]\<rparr>"

lemma ex_prices [simp]:
  "quo_float64 200 100 = Some (Fin 2)" "quo_float64 150 50 = Some (Fin 3)" "quo_float64 520 130 = Some (Fin 4)"
  using quo_float64_whole [of 2 100] quo_float64_whole [of 3 50] quo_float64_whole [of 4 130] by simp_all

lemma ex_sides [simp]: "\<not> SideSell = SideBuy"
  by simp

lemma ex_order_price [simp]:
  "Price (ex_order i SideSell 100 200 c) = Some (Fin 2)" "Price (ex_order i SideSell 50 150 c) = Some (Fin 3)"
  "Price (ex_order i SideBuy 520 130 c) = Some (Fin 4)"
  by (simp_all add: Price_def ex_order_def)

lemma ex_order_sel [simp]:
  "ID (ex_order i sd x y c) = i" "Side (ex_order i sd x y c) = sd" "Status (ex_order i sd x y c) = OrderStatusOpen"
  "FilledBase (ex_order i sd x y c) = 0" "AmountSell (ex_order i sd x y c) = x" "AmountBuy (ex_order i sd x y c) = y"
  "CreatedAt (ex_order i sd x y c) = c"
  by (simp_all add: ex_order_def)

lemma ex_mem_simps [simp]:
  "ordAt ex_mem 0 = ex_order ''a'' SideSell 100 200 1" "ordAt ex_mem (Suc 0) = ex_order ''b'' SideSell 50 150 2"
  "ordAt ex_mem 2 = ex_order ''c'' SideBuy 520 130 3" "entryOrder (entAt ex_mem e) = e"
  "Index (entAt ex_mem e) = int e" "nextE ex_mem = 2"
  by (simp_all add: ex_mem_def)

lemma ex_book_simps [simp]:
  "buys ex_book = []" "sells ex_book = [0, Suc 0]" "orderMap ex_book = [''a'' \<mapsto> 0, ''b'' \<mapsto> Suc 0]"
  "entries ex_book = {0, Suc 0}"
  by (auto simp: ex_book_def entries_def)

lemma ex_book_inv: "book_inv ex_mem ex_book"
proof -
  have "side_inv False ex_mem [0, Suc 0]"
    by (auto simp: side_inv_def heap_ordered_def good_at_def priority_def price_of_def less_Suc_eq nth_Cons')
  moreover have "index_inv ex_mem ex_book" unfolding index_inv_def
    by (auto split: if_splits) (rule ccontr, simp)
  ultimately show ?thesis
    by (simp add: book_inv_def uncrossed_def all_bool_eq live_def active_def RemainingBase_def)
qed

lemma ex_add_ok: "add_ok ex_mem ex_book 2"
  by (simp add: add_ok_def ex_book_inv resting_def active_def)


lemmas run_simps = AddOrder_def matchBuy_def matchSell_def matchBuy_loop.simps matchSell_loop.simps
  CancelOrder_def Let_def minBigInt_def big_Div_def apply_fill_def add_filled_def updateOrderStatus_def
  heap_Pop_def heap_Push_def heap_Remove_def heap_down_def heap_down_loop.simps heap_up.simps
  BuyHeap_def SellHeap_def swap_at_def

lemma ex_run: "\<exists>m' ob'. AddOrder ex_mem ex_book 2 = Some (m', ob',
    [\<lparr>mBuyOrder = 2, mSellOrder = 0, FillAmount = 100, QuoteAmount = 200, MPrice = Fin 2\<rparr>,
     \<lparr>mBuyOrder = 2, mSellOrder = 1, FillAmount = 30, QuoteAmount = 90, MPrice = Fin 3\<rparr>]) \<and>
    sells ob' = [1] \<and> buys ob' = [] \<and> orderMap ob' = [''b'' \<mapsto> 1] \<and>
    Status (ordAt m' 2) = OrderStatusFilled \<and> Status (ordAt m' 0) = OrderStatusFilled \<and>
    Status (ordAt m' 1) = OrderStatusPartiallyFilled \<and> FilledBase (ordAt m' 1) = 30"
  by (simp add: run_simps RemainingBase_def)


section \<open>The same orders, laid out differently\<close>

definition ex_mem2 :: mem where
  "ex_mem2 = \<lparr>ordAt = (\<lambda>r. if r = 0 then ex_order ''b'' SideSell 50 150 2
       else if r = Suc 0 then ex_order ''a'' SideSell 100 200 1 else ex_order ''c'' SideBuy 520 130 3),
     entAt = (\<lambda>e. \<lparr>entryOrder = e, Index = (if e = 0 then 1 else 0)\<rparr>), nextE = 2\<rparr>"

definition ex_book2 :: OrderBook where
  "ex_book2 = \<lparr>pair = ''NEXUS-USDC'', buys = [], sells = [Suc 0, 0], orderMap = [''b'' \<mapsto> 0, ''a'' \<mapsto> Suc 0]\<rparr>"

lemma ex_mem2_simps [simp]:
  "ordAt ex_mem2 0 = ex_order ''b'' SideSell 50 150 2" "ordAt ex_mem2 (Suc 0) = ex_order ''a'' SideSell 100 200 1"
  "ordAt ex_mem2 2 = ex_order ''c'' SideBuy 520 130 3" "entryOrder (entAt ex_mem2 e) = e"
  "Index (entAt ex_mem2 e) = (if e = 0 then 1 else 0)" "nextE ex_mem2 = 2"
  by (simp_all add: ex_mem2_def)

lemma ex_book2_simps [simp]:
  "buys ex_book2 = []" "sells ex_book2 = [Suc 0, 0]" "orderMap ex_book2 = [''b'' \<mapsto> 0, ''a'' \<mapsto> Suc 0]"
  "entries ex_book2 = {0, Suc 0}"
  by (auto simp: ex_book2_def entries_def)

lemma ex_add_ok2: "add_ok ex_mem2 ex_book2 2"
proof -
  have "side_inv False ex_mem2 [Suc 0, 0]"
    by (auto simp: side_inv_def heap_ordered_def good_at_def priority_def price_of_def less_Suc_eq nth_Cons')
  moreover have "index_inv ex_mem2 ex_book2" unfolding index_inv_def
    by (auto split: if_splits) (rule ccontr, simp)
  ultimately have "book_inv ex_mem2 ex_book2"
    by (simp add: book_inv_def uncrossed_def all_bool_eq live_def active_def RemainingBase_def)
  then show ?thesis by (simp add: add_ok_def resting_def active_def)
qed

lemma ex_strict: "strict_priorities False (book_side ex_mem [0, Suc 0])"
proof -
  have ab: "ex_order ''a'' SideSell 100 200 1 \<noteq> ex_order ''b'' SideSell 50 150 2"
    by (simp add: ex_order_def)
  have "priority False (ex_order ''a'' SideSell 100 200 1) (ex_order ''b'' SideSell 50 150 2)"
    by (simp add: priority_def price_of_def)
  then show ?thesis
    using ab by (auto simp: strict_priorities_def book_side_def insert_subset_eq_iff)
qed

lemma ex_same_sides: "book_side ex_mem (side_of b ex_book) = book_side ex_mem2 (side_of b ex_book2)"
  by (cases b) (simp_all add: book_side_def)

lemma ex_run2: "\<exists>m' ob'. AddOrder ex_mem2 ex_book2 2 = Some (m', ob',
    [\<lparr>mBuyOrder = 2, mSellOrder = 1, FillAmount = 100, QuoteAmount = 200, MPrice = Fin 2\<rparr>,
     \<lparr>mBuyOrder = 2, mSellOrder = 0, FillAmount = 30, QuoteAmount = 90, MPrice = Fin 3\<rparr>])"
  by (simp add: run_simps RemainingBase_def)

end
