(* ===== verification/EngineProps.thy ===== *)
theory EngineProps
  imports BookOps BookExample
begin

text \<open>
  The theorems about the order book: one call of \<open>AddOrder\<close> or \<open>CancelOrder\<close>, and any sequence of
  calls from an empty book, with the list of all trades it produced as a ledger.
\<close>

section \<open>Facts about one call\<close>

lemma AddOrder_cases:
  assumes "add_ok m ob t" "AddOrder m ob t = Some (m', ob', ms)"
  obtains ks where "ms = map (trade_record m (is_buy m t) t) ks" "book_inv m' ob'" "added m ob t m' ob' ks"
  using AddOrder_spec [OF assms(1)] assms(2) by auto

lemma addedD:
  assumes "added m ob t m' ob' ks"
  shows "match_spec (is_buy m t) (ordAt m t) (book_side m (side_of (\<not> is_buy m t) ob))
      (map (\<lambda>(k, n). (ordAt m k, n)) ks) (ordAt m' t) (book_side m' (side_of (\<not> is_buy m t) ob'))"
    and "book_side m' (side_of (is_buy m t) ob') =
      book_side m (side_of (is_buy m t) ob) + (if 0 < RemainingBase (ordAt m' t) then {#ordAt m' t#} else {#})"
    and "distinct (map fst ks)" "fst ` set ks \<subseteq> resting m ob"
    and "\<And>k n. (k, n) \<in> set ks \<Longrightarrow> ordAt m' k = fill_order n (ordAt m k)"
    and "\<And>r. r \<noteq> t \<Longrightarrow> r \<notin> fst ` set ks \<Longrightarrow> ordAt m' r = ordAt m r"
    and "pair ob' = pair ob" "nextE m \<le> nextE m'" "\<And>e. e < nextE m \<Longrightarrow> entryOrder (entAt m' e) = entryOrder (entAt m e)"
    and "resting m' ob' \<subseteq> insert t (resting m ob)" "t \<in> resting m' ob' \<longleftrightarrow> 0 < RemainingBase (ordAt m' t)"
    and "\<And>e. e < nextE m \<Longrightarrow> e \<notin> entries ob \<Longrightarrow> entAt m' e = entAt m e" "entries ob' \<subseteq> insert (nextE m) (entries ob)"
  using assms unfolding added_def Let_def by blast+

lemma added_terms: "added m ob t m' ob' ks \<Longrightarrow> same_terms (ordAt m r) (ordAt m' r)"
  using match_spec_terms [OF addedD(1)] addedD(5) addedD(6) [of m ob t m' ob' ks r]
  by (cases "r = t \<or> r \<in> fst ` set ks") auto

lemma added_fills:
  assumes "add_ok m ob t" "added m ob t m' ob' ks" "(k, n) \<in> set ks"
  shows "0 < n" "n \<le> RemainingBase (ordAt m k)" "crosses (is_buy m t) (ordAt m t) (ordAt m k)"
    "ordAt m k \<in># book_side m (side_of (\<not> is_buy m t) ob)"
proof -
  have "book_inv m ob" using assms(1) by (simp add: add_ok_def)
  then have "\<forall>s \<in># book_side m (side_of (\<not> is_buy m t) ob). 0 < RemainingBase s"
    using match_side_pos by blast
  note match_spec_fills [OF addedD(1) [OF assms(2)] this]
  then show "0 < n" "n \<le> RemainingBase (ordAt m k)" "crosses (is_buy m t) (ordAt m t) (ordAt m k)"
    "ordAt m k \<in># book_side m (side_of (\<not> is_buy m t) ob)"
    using assms(3) by auto
qed

lemma match_record_sel [simp]:
  "FillAmount (trade_record m tb t (k, n)) = n" "MPrice (trade_record m tb t (k, n)) = price_of (ordAt m k)"
  "mBuyOrder (trade_record m tb t (k, n)) = (if tb then t else k)"
  "mSellOrder (trade_record m tb t (k, n)) = (if tb then k else t)"
  "QuoteAmount (trade_record m tb t (k, n)) = quote_at (ordAt m (if tb then k else t)) n"
  by (simp_all add: trade_record_def match_record_def)

lemma sum_FillAmount [simp]: "(\<Sum>x\<leftarrow>map (trade_record m tb t) ks. FillAmount x) = sum_list (map snd ks)"
  by (induction ks) auto

lemma snd_maker_list [simp]: "map snd (map (\<lambda>(k, n). (f k, n)) ks) = map snd ks"
  by (induction ks) auto

text \<open>The maker of a trade: the party that was in the book.\<close>

definition maker_of :: "oref \<Rightarrow> MatchResult \<Rightarrow> oref" where
  "maker_of t x = (if mBuyOrder x = t then mSellOrder x else mBuyOrder x)"

lemma maker_of_record [simp]: "maker_of t (trade_record m tb t (k, n)) = k"
  by (simp add: maker_of_def)

section \<open>The ledger\<close>

text \<open>
  A run of the engine: orders known so far, the book, and all trades in the order they were made.
  A client submits orders under fresh references (each \<open>SubmitOrder\<close> allocates its own \<open>Order\<close>) with
  the fields that \<open>SubmitOrder\<close> sets, or cancels by id.
\<close>

record engine_state =
  eMem :: mem
  eBook :: OrderBook
  eKnown :: "oref set"
  eTrades :: "MatchResult list"

definition submit_ok :: "engine_state \<Rightarrow> oref \<Rightarrow> Order \<Rightarrow> bool" where
  "submit_ok s r od \<longleftrightarrow> r \<notin> eKnown s \<and> orderMap (eBook s) (ID od) = None \<and> FilledBase od = 0 \<and>
     Status od = OrderStatusOpen \<and> (AmountSell od \<noteq> 0 \<or> AmountBuy od \<noteq> 0)"

definition store_order :: "mem \<Rightarrow> oref \<Rightarrow> Order \<Rightarrow> mem" where
  "store_order m r od = m\<lparr>ordAt := (ordAt m)(r := od)\<rparr>"

inductive engine_step :: "engine_state \<Rightarrow> engine_state \<Rightarrow> bool" where
  submit: "submit_ok s r od \<Longrightarrow> AddOrder (store_order (eMem s) r od) (eBook s) r = Some (m', ob', ms) \<Longrightarrow>
    engine_step s (s\<lparr>eMem := m', eBook := ob', eKnown := insert r (eKnown s), eTrades := eTrades s @ ms\<rparr>)"
| cancel: "CancelOrder (eMem s) (eBook s) i = Some (m', ob', res) \<Longrightarrow>
    engine_step s (s\<lparr>eMem := m', eBook := ob'\<rparr>)"

definition engine_init :: "engine_state \<Rightarrow> bool" where
  "engine_init s \<longleftrightarrow> (\<exists>p. NewOrderBook (eMem s) p = Some (eBook s)) \<and> eKnown s = {} \<and> eTrades s = []"

inductive reachable :: "engine_state \<Rightarrow> bool" where
  init: "engine_init s \<Longrightarrow> reachable s"
| step: "reachable s \<Longrightarrow> engine_step s s' \<Longrightarrow> reachable s'"

inductive_cases engine_stepE: "engine_step s s'"

text \<open>What trades did to an order: the amount of it that the ledger accounts for.\<close>

definition filled_in :: "MatchResult list \<Rightarrow> oref \<Rightarrow> int" where
  "filled_in T r = (\<Sum>x\<leftarrow>T. if mBuyOrder x = r \<or> mSellOrder x = r then FillAmount x else 0)"

text \<open>A trade is between a buy and a sell order, positive, at a price both accept.\<close>

definition fair_trade :: "mem \<Rightarrow> MatchResult \<Rightarrow> bool" where
  "fair_trade m x \<longleftrightarrow> Side (ordAt m (mBuyOrder x)) = SideBuy \<and> Side (ordAt m (mSellOrder x)) \<noteq> SideBuy \<and>
     0 < FillAmount x \<and> QuoteAmount x = quote_at (ordAt m (mSellOrder x)) (FillAmount x) \<and>
     price_of (ordAt m (mSellOrder x)) \<le> MPrice x \<and> MPrice x \<le> price_of (ordAt m (mBuyOrder x))"

definition ledger_inv :: "engine_state \<Rightarrow> bool" where
  "ledger_inv s \<longleftrightarrow> book_inv (eMem s) (eBook s) \<and> resting (eMem s) (eBook s) \<subseteq> eKnown s \<and>
     (\<forall>r \<in> eKnown s. FilledBase (ordAt (eMem s) r) = filled_in (eTrades s) r \<and>
        0 \<le> filled_in (eTrades s) r \<and> filled_in (eTrades s) r \<le> max 0 (base_amount (ordAt (eMem s) r))) \<and>
     (\<forall>x \<in> set (eTrades s). mBuyOrder x \<in> eKnown s \<and> mSellOrder x \<in> eKnown s \<and> fair_trade (eMem s) x)"

lemma filled_in_append [simp]: "filled_in (T @ U) r = filled_in T r + filled_in U r"
  by (simp add: filled_in_def)

lemma filled_in_outside: "(\<And>x. x \<in> set T \<Longrightarrow> mBuyOrder x \<noteq> r \<and> mSellOrder x \<noteq> r) \<Longrightarrow> filled_in T r = 0"
  unfolding filled_in_def by (induction T) auto

lemma filled_in_taker: "filled_in (map (trade_record m tb t) ks) t = sum_list (map snd ks)"
  by (induction ks) (cases tb; auto simp: filled_in_def)+

lemma filled_in_maker:
  "distinct (map fst ks) \<Longrightarrow> (k, n) \<in> set ks \<Longrightarrow> k \<noteq> t \<Longrightarrow> filled_in (map (trade_record m tb t) ks) k = n"
proof (induction ks)
  case (Cons kn ks)
  obtain k' n' where kn: "kn = (k', n')" by (cases kn)
  show ?case
  proof (cases "k' = k")
    case True
    have "filled_in (map (trade_record m tb t) ks) k = 0"
      using Cons.prems(1,3) True kn by (intro filled_in_outside) (cases tb; force simp: image_iff)+
    moreover have "n = n'" using Cons.prems(1,2) True kn by (auto simp: image_iff)
    ultimately show ?thesis using True kn by (simp add: filled_in_def)
  next
    case False
    then have "filled_in (map (trade_record m tb t) ks) k = n" using Cons kn by auto
    then show ?thesis using False kn Cons.prems(3) by (simp add: filled_in_def)
  qed
qed simp

text \<open>An order the book does not hold may be written freely.\<close>

lemma book_inv_store:
  assumes "book_inv m ob" "r \<notin> resting m ob"
  shows "book_inv (store_order m r od) ob" "resting (store_order m r od) ob = resting m ob"
proof -
  have o: "order_of (store_order m r od) e = order_of m e" if "e \<in> entries ob" for e
    using assms(2) that by (auto simp: store_order_def resting_def)
  show "resting (store_order m r od) ob = resting m ob" by (simp add: resting_def store_order_def)
  show "book_inv (store_order m r od) ob"
  proof (rule book_inv_shrink [OF assms(1)])
    show "side_inv b (store_order m r od) (side_of b ob)" for b
      by (rule side_inv_cong [OF book_invD(1) [OF assms(1)]])
        (use o entries_sides [of ob b] in \<open>auto simp: store_order_def\<close>)
    show "live b (order_of (store_order m r od) e)" if "e \<in> set (side_of b ob)" for b e
      using o [of e] book_invD(2) [OF assms(1) that] that entries_sides [of ob b] by simp
    show "orderMap ob i = Some e \<longleftrightarrow> orderMap ob i = Some e \<and> e \<in> entries ob" for i e
      using orderMap_iff [OF assms(1), of i e] by blast
  qed (simp_all add: o, simp add: store_order_def)
qed

lemma fair_trade_terms:
  "fair_trade m x \<Longrightarrow> (\<And>r. r \<in> {mBuyOrder x, mSellOrder x} \<Longrightarrow> same_terms (ordAt m r) (ordAt m' r)) \<Longrightarrow> fair_trade m' x"
  by (simp add: fair_trade_def price_of_def quote_at_def same_terms_eqs [of "ordAt m r" "ordAt m' r" for r])


lemma match_spec_nothing:
  assumes "match_spec tb t M rs t' M'" "RemainingBase t \<le> 0" "\<forall>s \<in># M. 0 < RemainingBase s"
  shows "rs = []"
  using assms(1) by cases (use assms(2,3) in \<open>auto simp: best_def\<close>)

lemma added_nothing:
  assumes "add_ok m ob t" "added m ob t m' ob' ks" "RemainingBase (ordAt m t) \<le> 0"
  shows "ks = []"
  using match_spec_nothing [OF addedD(1) [OF assms(2)] assms(3)] match_side_pos assms(1)
  by (auto simp: add_ok_def)

lemma maker_side:
  assumes "add_ok m ob t" "added m ob t m' ob' ks" "(k, n) \<in> set ks"
  shows "(Side (ordAt m k) = SideBuy) = (\<not> is_buy m t)"
  using added_fills(4) [OF assms] book_invD(2) [of m ob _ "\<not> is_buy m t"] assms(1)
  by (auto simp: book_side_def live_def add_ok_def)

lemma added_fair:
  assumes ok: "add_ok m ob t" and ad: "added m ob t m' ob' ks" and x: "x \<in> set (map (trade_record m (is_buy m t) t) ks)"
  shows "fair_trade m' x" "mBuyOrder x \<in> insert t (resting m ob)" "mSellOrder x \<in> insert t (resting m ob)"
proof -
  obtain k n where kn: "(k, n) \<in> set ks" "x = trade_record m (is_buy m t) t (k, n)" using x by auto
  note side = maker_side [OF ok ad kn(1)] and fills = added_fills [OF ok ad kn(1)]
  have "fair_trade m x"
    using side fills by (cases "is_buy m t") (simp_all add: fair_trade_def kn(2) crosses_def)
  then show "fair_trade m' x" by (rule fair_trade_terms) (rule added_terms [OF ad])
  have "k \<in> resting m ob" using addedD(4) [OF ad] kn(1) by force
  then show "mBuyOrder x \<in> insert t (resting m ob)" "mSellOrder x \<in> insert t (resting m ob)"
    by (simp_all add: kn(2))
qed

lemma added_taker_fill:
  assumes ok: "add_ok m ob t" and ad: "added m ob t m' ob' ks" and f: "FilledBase (ordAt m t) = 0"
  shows "FilledBase (ordAt m' t) = sum_list (map snd ks)" "0 \<le> FilledBase (ordAt m' t)"
    "FilledBase (ordAt m' t) \<le> max 0 (base_amount (ordAt m' t))"
proof -
  show eq: "FilledBase (ordAt m' t) = sum_list (map snd ks)"
    using match_spec_filled [OF addedD(1) [OF ad]] f by (simp del: map_map)
  have "\<forall>n \<in> set (map snd ks). 0 \<le> n" using added_fills(1) [OF ok ad] by fastforce
  then show "0 \<le> FilledBase (ordAt m' t)" unfolding eq by (intro sum_list_nonneg) blast
  show "FilledBase (ordAt m' t) \<le> max 0 (base_amount (ordAt m' t))"
  proof (cases "RemainingBase (ordAt m t) \<le> 0")
    case True
    then show ?thesis using eq added_nothing [OF ok ad] by simp
  next
    case False
    then have "0 \<le> RemainingBase (ordAt m' t)" using match_spec_remaining [OF addedD(1) [OF ad]] by simp
    then show ?thesis by (simp add: RemainingBase_eq)
  qed
qed

lemma submit_add_ok:
  assumes inv: "ledger_inv s" and ok: "submit_ok s r od"
  shows "add_ok (store_order (eMem s) r od) (eBook s) r"
proof -
  have "r \<notin> resting (eMem s) (eBook s)" using assms by (auto simp: ledger_inv_def submit_ok_def)
  moreover have "Price od \<noteq> None" using ok by (auto simp: Price_panics_iff submit_ok_def)
  moreover have "book_inv (eMem s) (eBook s)" using inv by (simp add: ledger_inv_def)
  moreover have "ordAt (store_order (eMem s) r od) r = od" by (simp add: store_order_def)
  ultimately show ?thesis
    using ok book_inv_store [of "eMem s" "eBook s" r od] by (simp add: add_ok_def submit_ok_def active_def)
qed

lemma ledger_inv_submit:
  assumes inv: "ledger_inv s" and ok: "submit_ok s r od"
    and run: "AddOrder (store_order (eMem s) r od) (eBook s) r = Some (m', ob', ms)"
  shows "ledger_inv (s\<lparr>eMem := m', eBook := ob', eKnown := insert r (eKnown s), eTrades := eTrades s @ ms\<rparr>)"
proof -
  let ?m = "store_order (eMem s) r od" and ?ob = "eBook s" and ?K = "eKnown s" and ?T = "eTrades s"
  note aok = submit_add_ok [OF inv ok]
  obtain ks where ms: "ms = map (trade_record ?m (is_buy ?m r) r) ks" and inv': "book_inv m' ob'"
    and ad: "added ?m ?ob r m' ob' ks"
    using AddOrder_cases [OF aok run] by blast
  have r: "r \<notin> ?K" and f0: "FilledBase od = 0" using ok by (simp_all add: submit_ok_def)
  have restK: "resting (eMem s) ?ob \<subseteq> ?K" using inv by (simp add: ledger_inv_def)
  then have r': "r \<notin> resting (eMem s) ?ob" using r by blast
  then have rest: "resting ?m ?ob \<subseteq> ?K" using book_inv_store inv restK by (simp add: ledger_inv_def)
  have other: "ordAt ?m q = ordAt (eMem s) q" if "q \<in> ?K" for q using that r by (auto simp: store_order_def)
  have old: "FilledBase (ordAt (eMem s) q) = filled_in ?T q" "0 \<le> FilledBase (ordAt (eMem s) q)"
      "FilledBase (ordAt (eMem s) q) \<le> max 0 (base_amount (ordAt (eMem s) q))" if "q \<in> ?K" for q
    using inv that by (simp_all add: ledger_inv_def)
  have oldT: "mBuyOrder x \<in> ?K" "mSellOrder x \<in> ?K" "fair_trade (eMem s) x" if "x \<in> set ?T" for x
    using inv that by (simp_all add: ledger_inv_def)
  have "FilledBase (ordAt m' q) = filled_in (?T @ ms) q \<and> 0 \<le> filled_in (?T @ ms) q \<and>
      filled_in (?T @ ms) q \<le> max 0 (base_amount (ordAt m' q))" if "q \<in> insert r ?K" for q
  proof (cases "q = r")
    case True
    have "filled_in ?T r = 0" using oldT r by (intro filled_in_outside) metis
    moreover have "FilledBase (ordAt ?m r) = 0" using f0 by (simp add: store_order_def)
    ultimately show ?thesis using added_taker_fill [OF aok ad] True by (simp add: ms filled_in_taker)
  next
    case q: False
    then have qK: "q \<in> ?K" using that by blast
    show ?thesis
    proof (cases "q \<in> fst ` set ks")
      case True
      then obtain n where n: "(q, n) \<in> set ks" by auto
      have "filled_in ms q = n" unfolding ms by (rule filled_in_maker [OF addedD(3) [OF ad] n q])
      then show ?thesis
        using added_fills(1,2) [OF aok ad n] addedD(5) [OF ad n] old [OF qK] other [OF qK]
        by (simp add: RemainingBase_eq max_def split: if_splits)
    next
      case False
      have "filled_in ms q = 0" unfolding ms
        using False q by (intro filled_in_outside) (cases "is_buy ?m r"; force)+
      then show ?thesis using addedD(6) [OF ad q False] old [OF qK] other [OF qK] by simp
    qed
  qed
  moreover have "mBuyOrder x \<in> insert r ?K \<and> mSellOrder x \<in> insert r ?K \<and> fair_trade m' x"
    if "x \<in> set (?T @ ms)" for x
  proof (cases "x \<in> set ms")
    case True
    then show ?thesis using added_fair [OF aok ad, of x] rest by (auto simp: ms)
  next
    case False
    then have x: "x \<in> set ?T" using that by simp
    have "same_terms (ordAt (eMem s) q) (ordAt m' q)" if "q \<in> ?K" for q
      using added_terms [OF ad, of q] other [OF that] by simp
    then have "fair_trade m' x" using oldT [OF x] by (intro fair_trade_terms [OF oldT(3) [OF x]]) auto
    then show ?thesis using oldT [OF x] by blast
  qed
  moreover have "resting m' ob' \<subseteq> insert r ?K" using addedD(10) [OF ad] rest by blast
  ultimately show ?thesis using inv' by (simp add: ledger_inv_def)
qed

lemma ledger_inv_cancel:
  assumes inv: "ledger_inv s" and run: "CancelOrder (eMem s) (eBook s) i = Some (m', ob', res)"
  shows "ledger_inv (s\<lparr>eMem := m', eBook := ob'\<rparr>)"
proof (cases "orderMap (eBook s) i")
  case None
  then have "m' = eMem s" "ob' = eBook s" using run by (simp_all add: CancelOrder_def)
  then show ?thesis using inv by simp
next
  case (Some e)
  have binv: "book_inv (eMem s) (eBook s)" using inv by (simp add: ledger_inv_def)
  let ?r = "entryOrder (entAt (eMem s) e)"
  have inv': "book_inv m' ob'" and c: "cancelled (eMem s) (eBook s) ?r m' ob'"
    using CancelOrder_spec [OF binv Some] run by auto
  have om: "ordAt m' = (ordAt (eMem s))(?r := (ordAt (eMem s) ?r)\<lparr>Status := OrderStatusCancelled\<rparr>)"
    and rest: "resting m' ob' \<subseteq> resting (eMem s) (eBook s)" using c by (auto simp: cancelled_def Let_def)
  have same: "same_terms (ordAt (eMem s) q) (ordAt m' q)" for q by (simp add: om same_terms_def)
  have "FilledBase (ordAt m' q) = FilledBase (ordAt (eMem s) q)" for q by (simp add: om)
  then show ?thesis
    using inv inv' rest same fair_trade_terms [OF _ same] same_terms_eqs(11) [OF same]
    by (auto simp: ledger_inv_def)
qed

lemma ledger_inv_reachable: "reachable s \<Longrightarrow> ledger_inv s"
proof (induction rule: reachable.induct)
  case (init s)
  then obtain p where "eBook s = \<lparr>pair = p, buys = [], sells = [], orderMap = Map.empty\<rparr>"
    "eKnown s = {}" "eTrades s = []"
    by (metis engine_init_def NewOrderBook_spec option.inject)
  then show ?case using book_inv_new by (simp add: ledger_inv_def resting_def entries_def)
next
  case (step s s')
  from step.hyps(2) show ?case
    by cases (use step.IH ledger_inv_submit ledger_inv_cancel in auto)
qed

end
