(* ===== verification/EngineClaims.thy ===== *)
theory EngineClaims
  imports EngineProps
begin

text \<open>The properties of the order book.\<close>

section \<open>One call of \<open>AddOrder\<close>\<close>



text \<open>
  The invariant of the book survives \<open>AddOrder\<close>: both sides are heaps with correct indices,
  \<open>orderMap\<close> indexes exactly the resting orders by id, resting orders are active with a positive
  remainder, and every bid is below every ask.
\<close>

theorem AddOrder_keeps_book_inv:
  assumes "add_ok m ob t" "AddOrder m ob t = Some (m', ob', ms)"
  shows "book_inv m' ob'"
  using AddOrder_cases [OF assms] by blast

lemma AddOrder_keeps_book_inv_witness:
  "\<exists>m' ob' ms. AddOrder ex_mem ex_book 2 = Some (m', ob', ms) \<and> book_inv m' ob'"
  using ex_run AddOrder_keeps_book_inv [OF ex_add_ok] by blast

text \<open>
  C7: price-time priority.  The makers of successive trades are in priority order, and no order that
  is still resting on the makers' side has priority over an order that traded.
\<close>

theorem AddOrder_price_time_priority:
  assumes "add_ok m ob t" "AddOrder m ob t = Some (m', ob', ms)"
  shows "sorted_wrt (\<lambda>x y. \<not> priority (\<not> is_buy m t) (ordAt m (maker_of t y)) (ordAt m (maker_of t x))) ms \<and>
    (\<forall>x \<in> set ms. \<forall>e \<in> set (side_of (\<not> is_buy m t) ob').
      \<not> priority (\<not> is_buy m t) (order_of m' e) (ordAt m (maker_of t x)))"
proof -
  obtain ks where ks: "ms = map (trade_record m (is_buy m t) t) ks" "added m ob t m' ob' ks"
    using AddOrder_cases [OF assms] by blast
  have mk: "maker_of t (trade_record m b t y) = fst y" for b y by (cases y) simp
  show ?thesis
    using match_spec_sorted [OF addedD(1) [OF ks(2)]] match_spec_left [OF addedD(1) [OF ks(2)]]
    by (auto simp: ks(1) book_side_def sorted_wrt_map case_prod_beta mk)
qed

lemma AddOrder_price_time_priority_witness:
  "\<exists>m' ob' ms. AddOrder ex_mem ex_book 2 = Some (m', ob', ms) \<and> length ms = 2 \<and>
    \<not> priority False (ordAt ex_mem (maker_of 2 (ms ! 1))) (ordAt ex_mem (maker_of 2 (ms ! 0)))"
proof -
  obtain m' ob' ms where run: "AddOrder ex_mem ex_book 2 = Some (m', ob', ms)" "length ms = 2"
    using ex_run by fastforce
  then have "\<not> priority False (ordAt ex_mem (maker_of 2 (ms ! 1))) (ordAt ex_mem (maker_of 2 (ms ! 0)))"
    using AddOrder_price_time_priority [OF ex_add_ok run(1)] by (simp add: sorted_wrt_iff_nth_less)
  then show ?thesis using run by blast
qed

text \<open>
  C9: amounts are conserved.  The incoming order's filled amount grows by the sum of the fills, which is
  what the maker side loses in depth; every fill is positive and within what its maker had left, and
  the incoming order is never filled beyond its remainder.
\<close>

theorem AddOrder_conserves:
  assumes "add_ok m ob t" "AddOrder m ob t = Some (m', ob', ms)"
  shows "FilledBase (ordAt m' t) = FilledBase (ordAt m t) + (\<Sum>x\<leftarrow>ms. FillAmount x) \<and>
    (\<Sum>s \<in># book_side m (side_of (\<not> is_buy m t) ob). RemainingBase s) =
      (\<Sum>s \<in># book_side m' (side_of (\<not> is_buy m t) ob'). RemainingBase s) + (\<Sum>x\<leftarrow>ms. FillAmount x) \<and>
    (\<forall>x \<in> set ms. 0 < FillAmount x \<and> FillAmount x \<le> RemainingBase (ordAt m (maker_of t x)) \<and>
      FilledBase (ordAt m' (maker_of t x)) = FilledBase (ordAt m (maker_of t x)) + FillAmount x) \<and>
    (0 \<le> RemainingBase (ordAt m t) \<longrightarrow> 0 \<le> RemainingBase (ordAt m' t))"
proof -
  obtain ks where ks: "ms = map (trade_record m (is_buy m t) t) ks" and ad: "added m ob t m' ob' ks"
    using AddOrder_cases [OF assms] by blast
  note spec = addedD(1) [OF ad]
  have "0 < n \<and> n \<le> RemainingBase (ordAt m k) \<and> FilledBase (ordAt m' k) = FilledBase (ordAt m k) + n"
    if "(k, n) \<in> set ks" for k n
    using added_fills(1,2) [OF assms(1) ad that] addedD(5) [OF ad that] by simp
  then show ?thesis
    using match_spec_filled [OF spec] match_spec_depth [OF spec] match_spec_remaining [OF spec]
    by (auto simp del: map_map simp: ks)
qed


lemma AddOrder_conserves_witness:
  "\<exists>m' ob' ms. AddOrder ex_mem ex_book 2 = Some (m', ob', ms) \<and> (\<Sum>x\<leftarrow>ms. FillAmount x) = 130 \<and>
    FilledBase (ordAt m' 2) = 130"
proof -
  obtain m' ob' ms where run: "AddOrder ex_mem ex_book 2 = Some (m', ob', ms)" "(\<Sum>x\<leftarrow>ms. FillAmount x) = 130"
    using ex_run by fastforce
  then have "FilledBase (ordAt m' 2) = 130" using AddOrder_conserves [OF ex_add_ok run(1)] by simp
  then show ?thesis using run by blast
qed

text \<open>
  C10: nothing tradeable is left behind.  After \<open>AddOrder\<close> the order is in the book exactly when it has a
  remainder, then no order on the other side is at a price it accepts; its status is \<open>filled\<close> when
  there is no remainder after a trade, \<open>partially_filled\<close> when it traded and has one, and what it was
  when it did not trade.
\<close>

theorem AddOrder_rests:
  assumes "add_ok m ob t" "AddOrder m ob t = Some (m', ob', ms)"
  shows "(t \<in> resting m' ob' \<longleftrightarrow> 0 < RemainingBase (ordAt m' t)) \<and>
    (0 < RemainingBase (ordAt m' t) \<longrightarrow>
      (\<forall>e \<in> set (side_of (\<not> is_buy m t) ob'). \<not> crosses (is_buy m t) (ordAt m' t) (order_of m' e))) \<and>
    Status (ordAt m' t) = (if ms = [] then Status (ordAt m t)
      else if RemainingBase (ordAt m' t) \<le> 0 then OrderStatusFilled else OrderStatusPartiallyFilled)"
proof -
  obtain ks where ks: "ms = map (trade_record m (is_buy m t) t) ks" and ad: "added m ob t m' ob' ks"
    using AddOrder_cases [OF assms] by blast
  note spec = addedD(1) [OF ad]
  have pos: "\<forall>s \<in># book_side m (side_of (\<not> is_buy m t) ob). 0 < RemainingBase s"
    and f: "0 \<le> FilledBase (ordAt m t)"
    using match_side_pos assms(1) by (auto simp: add_ok_def)
  have pr: "price_of (ordAt m' t) = price_of (ordAt m t)"
    using same_terms_eqs(3) [OF added_terms [OF ad]] by (simp add: price_of_def)
  have "Status (ordAt m' t) = Status (ordAt m t)" if "ks = []"
    using match_spec_taker [OF spec] that by simp
  then show ?thesis
    using match_spec_exhausted [OF spec] match_spec_status [OF spec f pos] addedD(11) [OF ad] pr
    by (auto simp: ks book_side_def crosses_def)
qed

text \<open>
  Nothing else changes.  Whatever \<open>AddOrder\<close> does, an order's id, maker, tokens, amounts, expiry,
  nonce, salt, signature, side, pair and times stay; and an order that is neither the incoming one nor
  the maker of a returned trade is untouched.
\<close>

theorem AddOrder_frame:
  assumes "add_ok m ob t" "AddOrder m ob t = Some (m', ob', ms)"
  shows "ordAt m' r = (ordAt m r)\<lparr>FilledBase := FilledBase (ordAt m' r), Status := Status (ordAt m' r)\<rparr> \<and>
    (r \<noteq> t \<and> r \<notin> maker_of t ` set ms \<longrightarrow> ordAt m' r = ordAt m r) \<and>
    resting m' ob' \<subseteq> insert t (resting m ob) \<and> pair ob' = pair ob"
proof -
  obtain ks where ks: "ms = map (trade_record m (is_buy m t) t) ks" and ad: "added m ob t m' ob' ks"
    using AddOrder_cases [OF assms] by blast
  have mk: "maker_of t (trade_record m b t y) = fst y" for b y by (cases y) simp
  then have "maker_of t ` set ms = fst ` set ks" by (simp add: ks image_image)
  then show ?thesis
    using added_terms [OF ad, of r] addedD(6) [OF ad, of r] addedD(7,10) [OF ad] by (simp add: same_terms_def)
qed

text \<open>
  C11: what a trade records.  Its price is its maker's, which is at least the seller's and at most the buyer's
  limit price; its quote amount is the fill at the sell order's own amounts, rounded down.  For an incoming
  buy the sell order is the maker, so quote and price agree.  For an incoming sell they do not: the formula
  of \<open>matchSell\<close> (and its comment in engine.go line 149) takes the incoming order's own ratio, while the
  comment in line 148 promises the buy (maker) price.
\<close>

theorem AddOrder_trade_prices:
  assumes "add_ok m ob t" "AddOrder m ob t = Some (m', ob', ms)" "x \<in> set ms"
  shows "MPrice x = price_of (ordAt m (maker_of t x)) \<and>
    price_of (ordAt m (mSellOrder x)) \<le> MPrice x \<and> MPrice x \<le> price_of (ordAt m (mBuyOrder x)) \<and>
    QuoteAmount x = FillAmount x * AmountBuy (ordAt m (mSellOrder x)) div AmountSell (ordAt m (mSellOrder x)) \<and>
    {mBuyOrder x, mSellOrder x} = {t, maker_of t x} \<and> maker_of t x \<in> resting m ob"
proof -
  obtain ks where ks: "ms = map (trade_record m (is_buy m t) t) ks" and ad: "added m ob t m' ob' ks"
    using AddOrder_cases [OF assms(1,2)] by blast
  obtain k n where kn: "(k, n) \<in> set ks" "x = trade_record m (is_buy m t) t (k, n)"
    using assms(3) ks by auto
  have "k \<in> resting m ob" using addedD(4) [OF ad] kn(1) by force
  then show ?thesis
    using added_fills(3) [OF assms(1) ad kn(1)]
    by (cases "is_buy m t") (auto simp: kn(2) crosses_def quote_at_def)
qed




lemma AddOrder_rests_witness:
  "\<exists>m' ob' ms. AddOrder ex_mem ex_book 2 = Some (m', ob', ms) \<and> 2 \<notin> resting m' ob' \<and>
    Status (ordAt m' 2) = OrderStatusFilled"
proof -
  obtain m' ob' ms where run: "AddOrder ex_mem ex_book 2 = Some (m', ob', ms)" "ms \<noteq> []"
    "Status (ordAt m' 2) = OrderStatusFilled"
    using ex_run by fastforce
  then have "2 \<notin> resting m' ob'"
    using AddOrder_rests [OF ex_add_ok run(1)] by (auto split: if_splits)
  then show ?thesis using run by blast
qed

lemma AddOrder_frame_witness:
  "\<exists>m' ob' ms. AddOrder ex_mem ex_book 2 = Some (m', ob', ms) \<and> ordAt m' 7 = ordAt ex_mem 7 \<and>
    AmountBuy (ordAt m' 0) = 200"
proof -
  obtain m' ob' ms where run: "AddOrder ex_mem ex_book 2 = Some (m', ob', ms)" "maker_of 2 ` set ms = {0, 1}"
    using ex_run by (fastforce simp: maker_of_def)
  have "ordAt m' 7 = ordAt ex_mem 7"
    using AddOrder_frame [OF ex_add_ok run(1), of 7] run(2) by simp
  moreover have "AmountBuy (ordAt m' 0) = 200"
    using arg_cong [where f = AmountBuy, OF conjunct1 [OF AddOrder_frame [OF ex_add_ok run(1), of 0]]] by simp
  ultimately show ?thesis using run by blast
qed

lemma AddOrder_trade_prices_witness:
  "\<exists>m' ob' ms. AddOrder ex_mem ex_book 2 = Some (m', ob', ms) \<and>
    (\<forall>x \<in> set ms. price_of (ordAt ex_mem (mSellOrder x)) \<le> MPrice x)"
proof -
  obtain m' ob' ms where run: "AddOrder ex_mem ex_book 2 = Some (m', ob', ms)"
    using ex_run by fastforce
  then show ?thesis using AddOrder_trade_prices [OF ex_add_ok run] by blast
qed

section \<open>\<open>CancelOrder\<close>\<close>

text \<open>
  C8: \<open>CancelOrder\<close> never panics.  An unknown id changes nothing; a resting order's id takes exactly that
  order out of its side and out of \<open>orderMap\<close>, sets its status to \<open>cancelled\<close> and touches nothing else.
\<close>

theorem CancelOrder_removes:
  assumes "book_inv m ob"
  shows "case orderMap ob i of
      None \<Rightarrow> CancelOrder m ob i = Some (m, ob, None)
    | Some e \<Rightarrow> \<exists>m' ob'. let r = entryOrder (entAt m e); b = is_buy m r in
        CancelOrder m ob i = Some (m', ob', Some r) \<and> ID (ordAt m r) = i \<and> book_inv m' ob' \<and>
        ordAt m' = (ordAt m)(r := (ordAt m r)\<lparr>Status := OrderStatusCancelled\<rparr>) \<and>
        book_side m (side_of b ob) = add_mset (ordAt m r) (book_side m' (side_of b ob')) \<and>
        book_side m' (side_of (\<not> b) ob') = book_side m (side_of (\<not> b) ob) \<and>
        orderMap ob' = (orderMap ob)(i := None) \<and> resting m' ob' = resting m ob - {r}"
proof (cases "orderMap ob i")
  case None
  then show ?thesis by (simp add: CancelOrder_def)
next
  case (Some e)
  from CancelOrder_spec [OF assms Some] show ?thesis
    unfolding Some option.case cancelled_def Let_def by metis
qed

lemma CancelOrder_removes_witness:
  "\<exists>m' ob'. CancelOrder ex_mem ex_book ''a'' = Some (m', ob', Some 0) \<and> book_inv m' ob' \<and>
    Status (ordAt m' 0) = OrderStatusCancelled \<and> orderMap ob' ''a'' = None"
  using CancelOrder_removes [OF ex_book_inv, of "''a''"] by (auto simp: Let_def)

lemma dom_orderMap:
  assumes "book_inv m ob"
  shows "dom (orderMap ob) = ID ` (\<Union>b. set_mset (book_side m (side_of b ob)))"
proof -
  have ent: "entries ob = (\<Union>b. set (side_of b ob))" by (auto simp: entries_def UNIV_bool)
  show ?thesis
  proof (rule set_eqI)
    fix i
    have "i \<in> dom (orderMap ob) \<longleftrightarrow> (\<exists>e \<in> entries ob. ID (order_of m e) = i)"
      using orderMap_iff [OF assms, of i] by (auto simp: dom_def)
    also have "\<dots> \<longleftrightarrow> i \<in> ID ` (\<Union>b. set_mset (book_side m (side_of b ob)))"
      by (auto simp: book_side_def ent)
    finally show "i \<in> dom (orderMap ob) \<longleftrightarrow> i \<in> ID ` (\<Union>b. set_mset (book_side m (side_of b ob)))" .
  qed
qed

text \<open>
  C16: adding an order that trades nothing and cancelling it gives the book back: the same orders rest on
  each side, and only the cancelled order's own record has changed.
\<close>

theorem AddOrder_CancelOrder:
  assumes "add_ok m ob t" "AddOrder m ob t = Some (m1, ob1, [])" "0 < RemainingBase (ordAt m t)"
  shows "\<exists>m2 ob2. CancelOrder m1 ob1 (ID (ordAt m t)) = Some (m2, ob2, Some t) \<and>
    (\<forall>b. book_side m2 (side_of b ob2) = book_side m (side_of b ob)) \<and> dom (orderMap ob2) = dom (orderMap ob) \<and>
    ordAt m2 = (ordAt m)(t := (ordAt m t)\<lparr>Status := OrderStatusCancelled\<rparr>)"
proof -
  obtain ks where ks: "[] = map (trade_record m (is_buy m t) t) ks" and inv1: "book_inv m1 ob1"
    and ad: "added m ob t m1 ob1 ks"
    using AddOrder_cases [OF assms(1,2)] by blast
  then have nil: "ks = []" by simp
  note D = addedD [OF ad, unfolded nil list.map]
  have t: "ordAt m1 t = ordAt m t" using match_spec_taker [OF D(1)] by simp
  have om: "ordAt m1 = ordAt m"
  proof
    fix r show "ordAt m1 r = ordAt m r" using D(6) [of r] t by (cases "r = t") simp_all
  qed
  have M: "book_side m1 (side_of (\<not> is_buy m t) ob1) = book_side m (side_of (\<not> is_buy m t) ob)"
    using D(1) by (auto elim: match_spec_NilE)
  have "t \<in> resting m1 ob1" using D(11) t assms(3) by simp
  then obtain e where e: "e \<in> entries ob1" "entryOrder (entAt m1 e) = t" by (auto simp: resting_def)
  then have em: "orderMap ob1 (ID (ordAt m t)) = Some e" using orderMap_iff [OF inv1] om by simp
  from CancelOrder_spec [OF inv1 em] obtain m2 ob2 where
    run: "CancelOrder m1 ob1 (ID (ordAt m t)) = Some (m2, ob2, Some t)" and c: "cancelled m1 ob1 t m2 ob2"
    and inv2: "book_inv m2 ob2"
    by (auto simp: e)
  have sides: "book_side m2 (side_of b ob2) = book_side m (side_of b ob)" for b
  proof (cases "b = is_buy m t")
    case True
    then show ?thesis using c D(2) t assms(3) by (simp add: cancelled_def Let_def om)
  next
    case False
    then have "b = (\<not> is_buy m t)" by simp
    then show ?thesis using c M by (simp add: cancelled_def Let_def om)
  qed
  moreover have "ordAt m2 = (ordAt m)(t := (ordAt m t)\<lparr>Status := OrderStatusCancelled\<rparr>)"
    using c by (simp add: cancelled_def Let_def om)
  moreover have "dom (orderMap ob2) = dom (orderMap ob)"
    using sides assms(1) by (simp add: dom_orderMap [OF inv2] dom_orderMap [of m ob] add_ok_def)
  ultimately show ?thesis using run by blast
qed


definition ex_mem3 :: mem where
  "ex_mem3 = store_order ex_mem 3 (ex_order ''d'' SideSell 50 150 5)"

lemma ex_add_ok3: "add_ok ex_mem3 ex_book 3"
proof -
  have r: "3 \<notin> resting ex_mem ex_book" by (simp add: resting_def)
  have o: "ordAt ex_mem3 3 = ex_order ''d'' SideSell 50 150 5" by (simp add: ex_mem3_def store_order_def)
  show ?thesis
    using book_inv_store [OF ex_book_inv r] r
    by (simp add: add_ok_def o active_def) (simp add: ex_mem3_def)
qed

lemma ex_run3: "\<exists>m' ob'. AddOrder ex_mem3 ex_book 3 = Some (m', ob', [])"
  by (simp add: run_simps ex_mem3_def store_order_def RemainingBase_def new_entry_def)

lemma AddOrder_CancelOrder_witness:
  "\<exists>m1 ob1 m2 ob2. AddOrder ex_mem3 ex_book 3 = Some (m1, ob1, []) \<and>
    CancelOrder m1 ob1 ''d'' = Some (m2, ob2, Some 3) \<and> book_side m2 (sells ob2) = book_side ex_mem3 (sells ex_book)"
proof -
  obtain m1 ob1 where run: "AddOrder ex_mem3 ex_book 3 = Some (m1, ob1, [])" using ex_run3 by blast
  have "0 < RemainingBase (ordAt ex_mem3 3)" "ID (ordAt ex_mem3 3) = ''d''"
    by (simp_all add: ex_mem3_def store_order_def RemainingBase_def)
  then obtain m2 ob2 where "CancelOrder m1 ob1 ''d'' = Some (m2, ob2, Some 3)"
    "\<forall>b. book_side m2 (side_of b ob2) = book_side ex_mem3 (side_of b ex_book)"
    using AddOrder_CancelOrder [OF ex_add_ok3 run] by auto
  then show ?thesis using run by (metis side_of_simps(2))
qed

section \<open>Any sequence of calls\<close>

text \<open>
  C2: the ledger.  In every state reachable from an empty book by submissions and cancellations, the
  filled amount of every order ever submitted is exactly the sum of its trades, it never exceeds the
  order's base amount, and every trade ever made is between a buy and a sell order, for a positive
  amount, at a price within both limits.
\<close>

theorem reachable_ledger:
  assumes "reachable s"
  shows "(\<forall>r \<in> eKnown s. FilledBase (ordAt (eMem s) r) = filled_in (eTrades s) r \<and>
      0 \<le> FilledBase (ordAt (eMem s) r) \<and> FilledBase (ordAt (eMem s) r) \<le> max 0 (base_amount (ordAt (eMem s) r))) \<and>
    (\<forall>x \<in> set (eTrades s). mBuyOrder x \<in> eKnown s \<and> mSellOrder x \<in> eKnown s \<and>
      Side (ordAt (eMem s) (mBuyOrder x)) = SideBuy \<and> Side (ordAt (eMem s) (mSellOrder x)) \<noteq> SideBuy \<and>
      0 < FillAmount x \<and> price_of (ordAt (eMem s) (mSellOrder x)) \<le> MPrice x \<and>
      MPrice x \<le> price_of (ordAt (eMem s) (mBuyOrder x)))"
  using ledger_inv_reachable [OF assms] by (simp add: ledger_inv_def fair_trade_def)

definition ex_start :: engine_state where
  "ex_start = \<lparr>eMem = ex_mem, eBook = \<lparr>pair = ''NEXUS-USDC'', buys = [], sells = [], orderMap = Map.empty\<rparr>,
     eKnown = {}, eTrades = []\<rparr>"

lemma ex_steps: "\<exists>m1 ob1 m2 ob2.
    AddOrder (store_order ex_mem 0 (ex_order ''a'' SideSell 100 200 1)) (eBook ex_start) 0 = Some (m1, ob1, []) \<and>
    AddOrder (store_order m1 1 (ex_order ''c'' SideBuy 520 130 3)) ob1 1 = Some (m2, ob2,
      [\<lparr>mBuyOrder = 1, mSellOrder = 0, FillAmount = 100, QuoteAmount = 200, MPrice = Fin 2\<rparr>]) \<and>
    orderMap ob1 = [''a'' \<mapsto> 2] \<and> ordAt m2 0 = (ex_order ''a'' SideSell 100 200 1)\<lparr>FilledBase := 100, Status := OrderStatusFilled\<rparr>
    \<and> ordAt m2 1 = (ex_order ''c'' SideBuy 520 130 3)\<lparr>FilledBase := 100, Status := OrderStatusPartiallyFilled\<rparr>"
  by (simp add: run_simps ex_start_def store_order_def RemainingBase_def new_entry_def)

lemma ex_reachable: "\<exists>s. reachable s \<and> eKnown s = {0, 1} \<and>
    eTrades s = [\<lparr>mBuyOrder = 1, mSellOrder = 0, FillAmount = 100, QuoteAmount = 200, MPrice = Fin 2\<rparr>] \<and>
    ordAt (eMem s) 0 = (ex_order ''a'' SideSell 100 200 1)\<lparr>FilledBase := 100, Status := OrderStatusFilled\<rparr> \<and>
    ordAt (eMem s) 1 = (ex_order ''c'' SideBuy 520 130 3)\<lparr>FilledBase := 100, Status := OrderStatusPartiallyFilled\<rparr>"
proof -
  from ex_steps obtain m1 ob1 m2 ob2 where
    s1: "AddOrder (store_order ex_mem 0 (ex_order ''a'' SideSell 100 200 1)) (eBook ex_start) 0 = Some (m1, ob1, [])" and
    s2: "AddOrder (store_order m1 1 (ex_order ''c'' SideBuy 520 130 3)) ob1 1 = Some (m2, ob2,
      [\<lparr>mBuyOrder = 1, mSellOrder = 0, FillAmount = 100, QuoteAmount = 200, MPrice = Fin 2\<rparr>])"
      "orderMap ob1 = [''a'' \<mapsto> 2]"
      "ordAt m2 0 = (ex_order ''a'' SideSell 100 200 1)\<lparr>FilledBase := 100, Status := OrderStatusFilled\<rparr>"
      "ordAt m2 1 = (ex_order ''c'' SideBuy 520 130 3)\<lparr>FilledBase := 100, Status := OrderStatusPartiallyFilled\<rparr>"
    by blast
  let ?s1 = "ex_start\<lparr>eMem := m1, eBook := ob1, eKnown := {0}, eTrades := []\<rparr>"
  have "reachable ex_start" by (rule reachable.init) (simp add: engine_init_def ex_start_def NewOrderBook_spec)
  moreover have "engine_step ex_start ?s1"
    using engine_step.submit [of ex_start 0 "ex_order ''a'' SideSell 100 200 1" m1 ob1 "[]"] s1
    by (simp add: submit_ok_def ex_start_def)
  moreover have "engine_step ?s1 (?s1\<lparr>eMem := m2, eBook := ob2, eKnown := insert 1 {0},
      eTrades := [\<lparr>mBuyOrder = 1, mSellOrder = 0, FillAmount = 100, QuoteAmount = 200, MPrice = Fin 2\<rparr>]\<rparr>)"
    using engine_step.submit [of ?s1 1 "ex_order ''c'' SideBuy 520 130 3" m2 ob2] s2
    by (simp add: submit_ok_def)
  ultimately have "reachable (?s1\<lparr>eMem := m2, eBook := ob2, eKnown := insert 1 {0},
      eTrades := [\<lparr>mBuyOrder = 1, mSellOrder = 0, FillAmount = 100, QuoteAmount = 200, MPrice = Fin 2\<rparr>]\<rparr>)"
    by (blast intro: reachable.step)
  then show ?thesis by (rule_tac exI, rule_tac conjI) (assumption, use s2 in auto)
qed

lemma reachable_ledger_witness:
  "\<exists>s. reachable s \<and> FilledBase (ordAt (eMem s) 1) = 100 \<and> filled_in (eTrades s) 1 = 100"
proof -
  obtain s where s: "reachable s" "eKnown s = {0, 1}"
    "eTrades s = [\<lparr>mBuyOrder = 1, mSellOrder = 0, FillAmount = 100, QuoteAmount = 200, MPrice = Fin 2\<rparr>]"
    using ex_reachable by blast
  have "filled_in (eTrades s) 1 = 100" by (simp add: s(3) filled_in_def)
  then show ?thesis using reachable_ledger [OF s(1)] s by auto
qed

text \<open>
  C3: the engine never gets stuck.  In every reachable state the book invariant holds, so no bid crosses an
  ask; every further submission with a fresh id and at least one nonzero amount returns, and so does
  every cancellation.
\<close>

theorem reachable_progress:
  assumes "reachable s"
  shows "book_inv (eMem s) (eBook s) \<and> uncrossed (eMem s) (eBook s) \<and>
    (submit_ok s r od \<longrightarrow> (\<exists>m' ob' ms. AddOrder (store_order (eMem s) r od) (eBook s) r = Some (m', ob', ms))) \<and>
    (\<exists>m' ob' res. CancelOrder (eMem s) (eBook s) i = Some (m', ob', res))"
proof -
  have inv: "ledger_inv s" by (rule ledger_inv_reachable [OF assms])
  then have b: "book_inv (eMem s) (eBook s)" by (simp add: ledger_inv_def)
  have "\<exists>m' ob' ms. AddOrder (store_order (eMem s) r od) (eBook s) r = Some (m', ob', ms)" if "submit_ok s r od"
    using AddOrder_spec [OF submit_add_ok [OF inv that]] by blast
  moreover have "\<exists>m' ob' res. CancelOrder (eMem s) (eBook s) i = Some (m', ob', res)"
    using CancelOrder_spec [OF b, of i] by (cases "orderMap (eBook s) i") (auto simp: CancelOrder_def)
  ultimately show ?thesis using b book_invD(5) [OF b] by blast
qed

lemma reachable_progress_witness:
  "\<exists>s. reachable s \<and> eTrades s \<noteq> [] \<and> (\<exists>m' ob' res. CancelOrder (eMem s) (eBook s) ''c'' = Some (m', ob', res))"
  using ex_reachable reachable_progress by (metis list.discI)


section \<open>Money\<close>

lemma sum_floor_quotes:
  fixes a b :: int
  assumes "0 < a" "ns \<noteq> []"
  shows "(\<Sum>n\<leftarrow>ns. n * b div a) \<le> (\<Sum>n\<leftarrow>ns. n) * b div a"
    "(\<Sum>n\<leftarrow>ns. n) * b div a \<le> (\<Sum>n\<leftarrow>ns. n * b div a) + int (length ns - 1)"
proof -
  have add: "x div a + y div a \<le> (x + y) div a" "(x + y) div a \<le> x div a + y div a + 1" for x y :: int
  proof -
    have "(x + y) div a = x div a + y div a + (x mod a + y mod a) div a" by (rule div_add1_eq)
    moreover have "0 \<le> (x mod a + y mod a) div a" using assms(1) by (simp add: pos_imp_zdiv_nonneg_iff)
    moreover have "(x mod a + y mod a) div a < 2"
    proof -
      have "(x mod a + y mod a) div a * a \<le> x mod a + y mod a"
        using assms(1) by (simp add: minus_mod_eq_div_mult [symmetric])
      also have "\<dots> < 2 * a" using pos_mod_bound [OF assms(1), of x] pos_mod_bound [OF assms(1), of y] by simp
      finally show ?thesis using assms(1) by simp
    qed
    ultimately show "x div a + y div a \<le> (x + y) div a" "(x + y) div a \<le> x div a + y div a + 1" by simp_all
  qed
  from assms(2) show "(\<Sum>n\<leftarrow>ns. n * b div a) \<le> (\<Sum>n\<leftarrow>ns. n) * b div a"
    "(\<Sum>n\<leftarrow>ns. n) * b div a \<le> (\<Sum>n\<leftarrow>ns. n * b div a) + int (length ns - 1)"
  proof (induction ns rule: list_nonempty_induct)
    case (cons n ns)
    {
      case 1
      then show ?case using cons.IH(1) add(1) [of "n * b" "(\<Sum>n\<leftarrow>ns. n) * b"] by (simp add: distrib_right)
    next
      case 2
      have "int (length ns - Suc 0) + 1 = int (length ns)" using cons.hyps by (cases ns) simp_all
      then show ?case
        using cons.IH(2) add(2) [of "n * b" "(\<Sum>n\<leftarrow>ns. n) * b"] by (simp add: distrib_right)
    }
  qed simp_all
qed

lemma filled_in_never_buyer:
  "\<forall>x \<in> set T. mBuyOrder x \<noteq> r \<Longrightarrow> filled_in T r = (\<Sum>x\<leftarrow>filter (\<lambda>x. mSellOrder x = r) T. FillAmount x)"
  unfolding filled_in_def by (induction T) auto

lemma filled_in_seller:
  assumes "ledger_inv s" "r \<in> eKnown s" "Side (ordAt (eMem s) r) \<noteq> SideBuy"
  shows "filled_in (eTrades s) r = (\<Sum>x\<leftarrow>filter (\<lambda>x. mSellOrder x = r) (eTrades s). FillAmount x)"
  using assms by (intro filled_in_never_buyer) (auto simp: ledger_inv_def fair_trade_def)

text \<open>
  C17: what a seller receives, as \<open>matchBuy\<close> and \<open>matchSell\<close> compute it.  Over its whole life a sell order is
  paid, in any number \<open>k\<close> of trades, what its own ratio gives for the amount it has sold, rounded down, minus
  at most \<open>k - 1\<close> units of the quote token; never more, even for the trades in which it came in and hit a
  better bid, where the comment in engine.go line 148 promises the bid's price.
\<close>

theorem seller_receipts:
  assumes "reachable s" "r \<in> eKnown s" "Side (ordAt (eMem s) r) \<noteq> SideBuy"
    and "T = filter (\<lambda>x. mSellOrder x = r) (eTrades s)" "T \<noteq> []"
  shows "(\<Sum>x\<leftarrow>T. QuoteAmount x) \<le> FilledBase (ordAt (eMem s) r) * AmountBuy (ordAt (eMem s) r) div AmountSell (ordAt (eMem s) r) \<and>
    FilledBase (ordAt (eMem s) r) * AmountBuy (ordAt (eMem s) r) div AmountSell (ordAt (eMem s) r)
      \<le> (\<Sum>x\<leftarrow>T. QuoteAmount x) + int (length T - 1)"
proof -
  have inv: "ledger_inv s" by (rule ledger_inv_reachable [OF assms(1)])
  let ?od = "ordAt (eMem s) r" and ?ns = "map FillAmount T"
  have f: "FilledBase ?od = (\<Sum>n\<leftarrow>?ns. n)"
    using filled_in_seller [OF inv assms(2,3)] inv assms(2,4) by (simp add: ledger_inv_def)
  have "\<forall>x \<in> set T. 0 < FillAmount x \<and> QuoteAmount x = FillAmount x * AmountBuy ?od div AmountSell ?od"
    using inv assms(4) by (auto simp: ledger_inv_def fair_trade_def quote_at_def)
  then have q: "(\<Sum>x\<leftarrow>T. QuoteAmount x) = (\<Sum>n\<leftarrow>?ns. n * AmountBuy ?od div AmountSell ?od)"
    and pos: "\<forall>n \<in> set ?ns. 0 < n" by (auto intro!: arg_cong [where f = sum_list])
  have "0 < (\<Sum>n\<leftarrow>?ns. n)"
    using pos assms(5) by (cases T) (auto intro!: add_pos_nonneg sum_list_nonneg simp: less_imp_le)
  moreover have "FilledBase ?od \<le> max 0 (base_amount ?od)"
    using inv assms(2) by (simp add: ledger_inv_def)
  ultimately have a: "0 < AmountSell ?od" using f assms(3) by (simp add: base_amount_def)
  show ?thesis unfolding f q using sum_floor_quotes [OF a, of ?ns "AmountBuy ?od"] assms(5) by simp
qed

lemma seller_receipts_witness:
  "\<exists>s T. reachable s \<and> T = filter (\<lambda>x. mSellOrder x = 0) (eTrades s) \<and> length T = 1 \<and>
    (\<Sum>x\<leftarrow>T. QuoteAmount x) \<le> 200"
proof -
  obtain s where s: "reachable s" "eKnown s = {0, 1}"
    "eTrades s = [\<lparr>mBuyOrder = 1, mSellOrder = 0, FillAmount = 100, QuoteAmount = 200, MPrice = Fin 2\<rparr>]"
    "ordAt (eMem s) 0 = (ex_order ''a'' SideSell 100 200 1)\<lparr>FilledBase := 100, Status := OrderStatusFilled\<rparr>"
    using ex_reachable by blast
  have "(\<Sum>x\<leftarrow>filter (\<lambda>x. mSellOrder x = 0) (eTrades s). QuoteAmount x) \<le> 200"
    using seller_receipts [OF s(1), of 0 "filter (\<lambda>x. mSellOrder x = 0) (eTrades s)"] s by simp
  then show ?thesis using s by auto
qed


lemma crossing_overrun:
  fixes xs xb ps pb e :: rat
  assumes "\<bar>ps - xs\<bar> \<le> xs * e" "\<bar>pb - xb\<bar> \<le> xb * e" "ps \<le> pb" "0 < xs" "0 < xb" "0 < e" "e \<le> 1 / 4"
  shows "xs \<le> xb * (1 + 4 * e)"
proof (rule ccontr)
  assume "\<not> xs \<le> xb * (1 + 4 * e)"
  then have "xb * (1 + 4 * e) * (1 - e) < xs * (1 - e)"
    using assms(7) by (intro mult_strict_right_mono) auto
  also have "xs * (1 - e) \<le> xb * (1 + e)"
    using assms(1-3) by (simp add: abs_le_iff algebra_simps)
  finally have "xb * ((1 + 4 * e) * (1 - e)) < xb * (1 + e)" by (simp add: mult.assoc)
  then have "(1 + 4 * e) * (1 - e) < 1 + e" using assms(5) by (simp add: mult_less_cancel_left_pos)
  then have "2 * e < 4 * (e * e)" by (simp add: algebra_simps)
  moreover have "e * e \<le> e * (1 / 4)" using assms(6,7) by (intro mult_left_mono) auto
  ultimately show False using assms(6) by simp
qed

definition uint256_amounts :: "Order \<Rightarrow> bool" where
  "uint256_amounts od \<longleftrightarrow> 0 < AmountSell od \<and> AmountSell od < 2 ^ 256 \<and> 0 < AmountBuy od \<and> AmountBuy od < 2 ^ 256"

lemma price_of_error:
  assumes "uint256_amounts od"
  shows "\<exists>r. price_of od = Fin r \<and> \<bar>r - of_int (quote_amount od) / of_int (base_amount od)\<bar>
      \<le> of_int (quote_amount od) / of_int (base_amount od) * 2 powi (-52)"
proof -
  have "0 < quote_amount od" "quote_amount od \<le> 2 ^ 256" "0 < base_amount od" "base_amount od \<le> 2 ^ 256"
    using assms by (simp_all add: uint256_amounts_def quote_amount_def base_amount_def)
  from quo_float64_error [OF this(1,2,3,4)] show ?thesis by (auto simp: price_of_def Price_eq)
qed

text \<open>
  C19: what a buyer pays at most.  For \<open>uint256\<close> amounts the quote of every trade exceeds the buyer's exact
  limit, the amount of the fill at the buyer's own ratio, by at most a relative \<open>2 ^ -50\<close>; it may be far
  below it.  (It is not always within the limit itself: prices are compared as rounded floats.)
\<close>

theorem buyer_overpays_little:
  assumes "reachable s" "x \<in> set (eTrades s)"
    and "uint256_amounts (ordAt (eMem s) (mBuyOrder x))" "uint256_amounts (ordAt (eMem s) (mSellOrder x))"
  shows "of_int (QuoteAmount x * AmountBuy (ordAt (eMem s) (mBuyOrder x))) \<le>
    of_int (FillAmount x * AmountSell (ordAt (eMem s) (mBuyOrder x))) * (1 + 2 powi (-50) :: rat)"
proof -
  let ?b = "ordAt (eMem s) (mBuyOrder x)" and ?a = "ordAt (eMem s) (mSellOrder x)"
  have fair: "fair_trade (eMem s) x" using ledger_inv_reachable [OF assms(1)] assms(2) by (simp add: ledger_inv_def)
  define xb :: rat where "xb = of_int (AmountSell ?b) / of_int (AmountBuy ?b)"
  define xs :: rat where "xs = of_int (AmountBuy ?a) / of_int (AmountSell ?a)"
  have pos: "0 < AmountBuy ?b" "0 < AmountSell ?b" "0 < AmountSell ?a" "0 < AmountBuy ?a" "0 < FillAmount x"
    using assms(3,4) fair by (simp_all add: uint256_amounts_def fair_trade_def)
  obtain pb where pb: "price_of ?b = Fin pb" "\<bar>pb - xb\<bar> \<le> xb * 2 powi (-52)"
    using price_of_error [OF assms(3)] fair by (auto simp: fair_trade_def quote_amount_def base_amount_def xb_def)
  obtain ps where ps: "price_of ?a = Fin ps" "\<bar>ps - xs\<bar> \<le> xs * 2 powi (-52)"
    using price_of_error [OF assms(4)] fair by (auto simp: fair_trade_def quote_amount_def base_amount_def xs_def)
  have "price_of ?a \<le> price_of ?b" using fair by (auto simp: fair_trade_def intro: order_trans)
  then have "ps \<le> pb" by (simp add: pb ps)
  then have "xs \<le> xb * (1 + 4 * 2 powi (-52))"
    using pos by (intro crossing_overrun [OF ps(2) pb(2)]) (simp_all add: xs_def xb_def power_int_minus)
  also have "4 * 2 powi (-52) = (2 powi (-50) :: rat)" by (simp add: power_int_minus)
  finally have le: "xs \<le> xb * (1 + 2 powi (-50))" .
  have "QuoteAmount x * AmountSell ?a \<le> FillAmount x * AmountBuy ?a"
    using fair pos by (simp add: fair_trade_def quote_at_def minus_mod_eq_div_mult [symmetric])
  then have "of_int (QuoteAmount x) * of_int (AmountSell ?a) \<le> (of_int (FillAmount x) * of_int (AmountBuy ?a) :: rat)"
    by (metis of_int_le_iff of_int_mult)
  then have "of_int (QuoteAmount x) \<le> of_int (FillAmount x) * xs"
    using pos by (simp add: xs_def pos_le_divide_eq)
  also have "\<dots> \<le> of_int (FillAmount x) * (xb * (1 + 2 powi (-50)))"
    using le pos by (intro mult_left_mono) auto
  finally have "of_int (QuoteAmount x) * of_int (AmountBuy ?b) \<le>
      of_int (FillAmount x) * (xb * (1 + 2 powi (-50))) * of_int (AmountBuy ?b)"
    using pos by (intro mult_right_mono) auto
  also have "\<dots> = of_int (FillAmount x) * (xb * of_int (AmountBuy ?b)) * (1 + 2 powi (-50))"
    by (simp only: ac_simps)
  also have "xb * of_int (AmountBuy ?b) = of_int (AmountSell ?b)" using pos by (simp add: xb_def)
  finally show ?thesis by (simp only: of_int_mult)
qed

lemma buyer_overpays_little_witness:
  "\<exists>s x. reachable s \<and> x \<in> set (eTrades s) \<and> QuoteAmount x = 200 \<and>
    of_int (QuoteAmount x * 130) \<le> of_int (FillAmount x * 520) * (1 + 2 powi (-50) :: rat)"
proof -
  obtain s x where s: "reachable s" "eTrades s = [x]" "x = \<lparr>mBuyOrder = 1, mSellOrder = 0, FillAmount = 100, QuoteAmount = 200, MPrice = Fin 2\<rparr>"
    "ordAt (eMem s) 0 = (ex_order ''a'' SideSell 100 200 1)\<lparr>FilledBase := 100, Status := OrderStatusFilled\<rparr>"
    "ordAt (eMem s) 1 = (ex_order ''c'' SideBuy 520 130 3)\<lparr>FilledBase := 100, Status := OrderStatusPartiallyFilled\<rparr>"
    using ex_reachable by metis
  then show ?thesis
    using buyer_overpays_little [OF s(1), of x] by (auto simp: uint256_amounts_def)
qed

text \<open>
  C21: an order with two zero amounts crashes the book.  \<open>Price\<close> divides zero by zero, so \<open>AddOrder\<close> panics
  on it in every state, whatever the book holds.
\<close>

theorem AddOrder_zero_order_panics:
  "AmountSell (ordAt m t) = 0 \<Longrightarrow> AmountBuy (ordAt m t) = 0 \<Longrightarrow> AddOrder m ob t = None"
  using Price_panics_iff [of "ordAt m t"] by (auto simp: AddOrder_def matchBuy_def matchSell_def)

lemma AddOrder_zero_order_panics_witness:
  "AddOrder (store_order ex_mem 5 (ex_order ''z'' SideSell 0 0 9)) ex_book 5 = None"
  by (rule AddOrder_zero_order_panics) (simp_all add: store_order_def)


text \<open>
  C18: an incoming sell is not paid its maker's price.  There is a book and a sell order that \<open>AddOrder\<close> trades
  with a resting buy order; the trade records the buy order's price, but its quote is below what the fill
  is worth at that price.  The comment in engine.go line 148 says the quote is computed at the buy (maker) price.
\<close>

theorem incoming_sell_not_at_maker_price:
  "\<exists>m ob t m' ob' x. add_ok m ob t \<and> \<not> is_buy m t \<and> AddOrder m ob t = Some (m', ob', [x]) \<and> mSellOrder x = t \<and>
    MPrice x = price_of (ordAt m (mBuyOrder x)) \<and> price_of (ordAt m (mBuyOrder x)) = Fin 4 \<and>
    QuoteAmount x < FillAmount x * 4 \<and>
    QuoteAmount x < FillAmount x * AmountSell (ordAt m (mBuyOrder x)) div AmountBuy (ordAt m (mBuyOrder x))"
proof -
  define m where "m = ex_mem\<lparr>ordAt := (\<lambda>r. if r = 0 then ex_order ''c'' SideBuy 520 130 1 else ex_order ''a'' SideSell 100 200 2)\<rparr>"
  define ob where "ob = \<lparr>pair = ''NEXUS-USDC'', buys = [0 :: eref], sells = [], orderMap = [''c'' \<mapsto> 0]\<rparr>"
  have m: "ordAt m 0 = ex_order ''c'' SideBuy 520 130 1" "ordAt m 1 = ex_order ''a'' SideSell 100 200 2"
    "ordAt m (Suc 0) = ex_order ''a'' SideSell 100 200 2"
    "entryOrder (entAt m e) = e" "Index (entAt m e) = int e" "nextE m = 2" for e
    by (simp_all add: m_def)
  have ob: "buys ob = [0]" "sells ob = []" "orderMap ob = [''c'' \<mapsto> 0]" "entries ob = {0}"
    by (simp_all add: ob_def entries_def)
  have "side_inv True m [0]"
    by (auto simp: side_inv_def heap_ordered_def good_at_def m)
  moreover have "index_inv m ob" unfolding index_inv_def by (auto simp: ob m split: if_splits)
  ultimately have "book_inv m ob"
    by (simp add: book_inv_def uncrossed_def all_bool_eq live_def active_def RemainingBase_def ob m)
  then have ok: "add_ok m ob 1" by (simp add: add_ok_def resting_def active_def ob m)
  have run: "\<exists>m' ob'. AddOrder m ob 1 = Some (m', ob',
      [\<lparr>mBuyOrder = 0, mSellOrder = 1, FillAmount = 100, QuoteAmount = 200, MPrice = Fin 4\<rparr>])"
    by (simp add: run_simps RemainingBase_def ob m)
  have "\<not> is_buy m 1" "price_of (ordAt m 0) = Fin 4" "AmountSell (ordAt m 0) = 520" "AmountBuy (ordAt m 0) = 130"
    by (simp_all add: m price_of_def)
  then show ?thesis using ok run by force
qed

text \<open>
  C20: the book matches orders that the settlement contract refuses.  There is a book and a buy order whose
  exact limit is below the resting sell order's price, so that the contract's test \<open>buyerPays >=
  sellerReceives\<close> fails on the fill, and \<open>AddOrder\<close> trades them, because both prices round to the same
  float.
\<close>

theorem AddOrder_matches_incompatible:
  "\<exists>m ob t m' ob' x. add_ok m ob t \<and> AddOrder m ob t = Some (m', ob', [x]) \<and>
    uint256_amounts (ordAt m (mBuyOrder x)) \<and> uint256_amounts (ordAt m (mSellOrder x)) \<and>
    FillAmount x * AmountSell (ordAt m (mBuyOrder x)) div AmountBuy (ordAt m (mBuyOrder x)) <
      FillAmount x * AmountBuy (ordAt m (mSellOrder x)) div AmountSell (ordAt m (mSellOrder x))"
proof -
  let ?od = "ex_order ''e'' SideBuy (2 ^ 54 - 1) (2 ^ 53) 7"
  define m where "m = store_order ex_mem 3 ?od"
  have p: "Price ?od = Some (Fin 2)"
    using quo_float64_just_below_two by (simp add: Price_def ex_order_def)
  then have p: "Price (ex_order ''e'' SideBuy 18014398509481983 9007199254740992 7) = Some (Fin 2)" by simp
  have r: "3 \<notin> resting ex_mem ex_book" by (simp add: resting_def)
  have m: "ordAt m 3 = ?od" "ordAt m 0 = ex_order ''a'' SideSell 100 200 1"
    by (simp_all add: m_def store_order_def)
  have "add_ok m ex_book 3"
    using book_inv_store [OF ex_book_inv r] r
    by (simp add: add_ok_def m p active_def) (simp add: m_def)
  moreover have "\<exists>m' ob'. AddOrder m ex_book 3 = Some (m', ob',
      [\<lparr>mBuyOrder = 3, mSellOrder = 0, FillAmount = 100, QuoteAmount = 200, MPrice = Fin 2\<rparr>])"
    using p by (simp add: run_simps m_def store_order_def RemainingBase_def new_entry_def)
  moreover have "uint256_amounts (ordAt m 3)" "uint256_amounts (ordAt m 0)"
    "100 * AmountSell (ordAt m 3) div AmountBuy (ordAt m 3) < 100 * AmountBuy (ordAt m 0) div AmountSell (ordAt m 0)"
    by (simp_all add: m uint256_amounts_def)
  ultimately show ?thesis by force
qed

end
