(* ===== verification/Snapshot.thy ===== *)
theory Snapshot
  imports BookOps
begin

text \<open>
  \<open>GetSnapshot\<close> of \<open>internal/orderbook/engine.go\<close>: the book aggregated by price level.  A Go map from
  prices to level records collects amounts and counts while a slice remembers each price once; the
  slice is sorted by a hand-written insertion sort.
\<close>

section \<open>Data and code\<close>

record PriceLevel =
  PLPrice :: xfloat
  PLAmount :: int
  PLCount :: nat

record Snapshot =
  Bids :: "PriceLevel list"
  Asks :: "PriceLevel list"

fun sortDesc_inner :: "xfloat list \<Rightarrow> nat \<Rightarrow> xfloat list" where
  "sortDesc_inner s j =
     (if 0 < j \<and> s ! (j - 1) < s ! j then sortDesc_inner (swap_at s j (j - 1)) (j - 1) else s)"

function sortDesc_outer :: "xfloat list \<Rightarrow> nat \<Rightarrow> xfloat list" where
  "sortDesc_outer s i = (if i < length s then sortDesc_outer (sortDesc_inner s i) (i + 1) else s)"
  by pat_completeness auto

fun sortAsc_inner :: "xfloat list \<Rightarrow> nat \<Rightarrow> xfloat list" where
  "sortAsc_inner s j =
     (if 0 < j \<and> s ! j < s ! (j - 1) then sortAsc_inner (swap_at s j (j - 1)) (j - 1) else s)"

function sortAsc_outer :: "xfloat list \<Rightarrow> nat \<Rightarrow> xfloat list" where
  "sortAsc_outer s i = (if i < length s then sortAsc_outer (sortAsc_inner s i) (i + 1) else s)"
  by pat_completeness auto

declare sortDesc_inner.simps [simp del] sortAsc_inner.simps [simp del]

lemma length_inner [simp]:
  "length (sortDesc_inner s j) = length s" "length (sortAsc_inner s j) = length s"
proof -
  show "length (sortDesc_inner s j) = length s"
    by (induction s j rule: sortDesc_inner.induct) (subst sortDesc_inner.simps, simp)
  show "length (sortAsc_inner s j) = length s"
    by (induction s j rule: sortAsc_inner.induct) (subst sortAsc_inner.simps, simp)
qed

termination sortDesc_outer
  by (relation "measure (\<lambda>(s, i). length s - i)") auto

termination sortAsc_outer
  by (relation "measure (\<lambda>(s, i). length s - i)") auto

declare sortDesc_outer.simps [simp del] sortAsc_outer.simps [simp del]

definition sortDesc :: "xfloat list \<Rightarrow> xfloat list" where
  "sortDesc s = sortDesc_outer s 1"

definition sortAsc :: "xfloat list \<Rightarrow> xfloat list" where
  "sortAsc s = sortAsc_outer s 1"

text \<open>
  The body of the loop over the heap's slice, and the loop.  It is the same text in \<open>aggregateLevels\<close>
  and \<open>aggregateSellLevels\<close>.
\<close>

definition add_to_levels ::
  "Order \<Rightarrow> (xfloat \<rightharpoonup> PriceLevel) \<times> xfloat list \<Rightarrow> ((xfloat \<rightharpoonup> PriceLevel) \<times> xfloat list) go"
where
  "add_to_levels od = (\<lambda>(levels, prices). do {
     p \<leftarrow> Price od;
     case levels p of
       Some lvl \<Rightarrow> Some (levels(p \<mapsto> lvl\<lparr>PLAmount := PLAmount lvl + RemainingBase od, PLCount := PLCount lvl + 1\<rparr>), prices)
     | None \<Rightarrow> Some (levels(p \<mapsto> \<lparr>PLPrice = p, PLAmount = RemainingBase od, PLCount = 1\<rparr>), prices @ [p])
   })"

fun collect_levels ::
  "mem \<Rightarrow> eref list \<Rightarrow> (xfloat \<rightharpoonup> PriceLevel) \<times> xfloat list \<Rightarrow> ((xfloat \<rightharpoonup> PriceLevel) \<times> xfloat list) go"
where
  "collect_levels m [] acc = Some acc"
| "collect_levels m (e # es) acc = do { acc' \<leftarrow> add_to_levels (order_of m e) acc; collect_levels m es acc' }"

text \<open>\<open>result = append(result, *levels[p])\<close>: a missing level is a nil pointer and panics.\<close>

fun read_levels :: "(xfloat \<rightharpoonup> PriceLevel) \<Rightarrow> xfloat list \<Rightarrow> PriceLevel list go" where
  "read_levels levels [] = Some []"
| "read_levels levels (p # ps) = do { lvl \<leftarrow> levels p; rest \<leftarrow> read_levels levels ps; Some (lvl # rest) }"

definition aggregateLevels :: "mem \<Rightarrow> eref list \<Rightarrow> PriceLevel list go" where
  "aggregateLevels m h = do {
     (levels, prices) \<leftarrow> collect_levels m h (Map.empty, []);
     read_levels levels (sortDesc prices)
   }"

definition aggregateSellLevels :: "mem \<Rightarrow> eref list \<Rightarrow> PriceLevel list go" where
  "aggregateSellLevels m h = do {
     (levels, prices) \<leftarrow> collect_levels m h (Map.empty, []);
     read_levels levels (sortAsc prices)
   }"

definition GetSnapshot :: "mem \<Rightarrow> OrderBook \<Rightarrow> Snapshot go" where
  "GetSnapshot m ob = do {
     bids \<leftarrow> aggregateLevels m (buys ob);
     asks \<leftarrow> aggregateSellLevels m (sells ob);
     Some \<lparr>Bids = bids, Asks = asks\<rparr>
   }"

section \<open>Insertion sort by adjacent swaps\<close>

locale insertion_sort =
  fixes before :: "'a \<Rightarrow> 'a \<Rightarrow> bool"
    and inner :: "'a list \<Rightarrow> nat \<Rightarrow> 'a list"
    and outer :: "'a list \<Rightarrow> nat \<Rightarrow> 'a list"
  assumes inner: "inner s j = (if 0 < j \<and> before (s ! j) (s ! (j - 1)) then inner (swap_at s j (j - 1)) (j - 1) else s)"
    and outer: "outer s i = (if i < length s then outer (inner s i) (i + 1) else s)"
    and asym: "before x y \<Longrightarrow> \<not> before y x"
    and neg_trans: "\<not> before x y \<Longrightarrow> \<not> before y z \<Longrightarrow> \<not> before x z"
begin

abbreviation ordered :: "'a list \<Rightarrow> bool" where
  "ordered \<equiv> sorted_wrt (\<lambda>x y. \<not> before y x)"

lemma inner_spec:
  "j < length s \<Longrightarrow> ordered (take j s) \<Longrightarrow>
    mset (inner s j) = mset s \<and> mset (take (Suc j) (inner s j)) = mset (take (Suc j) s) \<and>
    ordered (take (Suc j) (inner s j)) \<and> drop (Suc j) (inner s j) = drop (Suc j) s"
proof (induction j arbitrary: s)
  case 0
  have "inner s 0 = s" by (simp add: inner [of s 0])
  then show ?case using 0 by (cases s) simp_all
next
  case (Suc j)
  have tk: "take (Suc j) s = take j s @ [s ! j]" using Suc.prems(1) by (simp add: take_Suc_conv_app_nth)
  show ?case
  proof (cases "before (s ! Suc j) (s ! j)")
    case False
    then have "inner s (Suc j) = s" by (simp add: inner [of s "Suc j"])
    moreover have "ordered (take (Suc (Suc j)) s)"
    proof -
      have "\<not> before (s ! Suc j) x" if "x \<in> set (take (Suc j) s)" for x
        using that Suc.prems(2) False neg_trans [of "s ! Suc j" "s ! j" x] by (auto simp: tk sorted_wrt_append)
      then show ?thesis using Suc.prems by (simp add: take_Suc_conv_app_nth [of "Suc j"] sorted_wrt_append)
    qed
    ultimately show ?thesis by simp
  next
    case True
    define s' where "s' = swap_at s (Suc j) j"
    have run: "inner s (Suc j) = inner s' j" using True by (simp add: inner [of s "Suc j"] s'_def)
    have len: "j < length s'" using Suc.prems(1) by (simp add: s'_def)
    have t': "take j s' = take j s" by (simp add: s'_def swap_at_def)
    have n': "s' ! j = s ! Suc j" "s' ! Suc j = s ! j" using Suc.prems(1) by (simp_all add: s'_def nth_swap_at)
    have "ordered (take j s)" using Suc.prems(2) by (simp add: tk sorted_wrt_append)
    note IH = Suc.IH [OF len, unfolded t', OF this]
    have tk': "take (Suc j) s' = take j s @ [s ! Suc j]"
      using len by (simp add: take_Suc_conv_app_nth t' n')
    have d': "drop (Suc j) s' = s ! j # drop (Suc (Suc j)) s"
      using Suc.prems(1) n' by (simp add: Cons_nth_drop_Suc [symmetric] s'_def swap_at_def)
    have "length (inner s' j) = length s'" using IH by (metis size_mset)
    then have split: "take (Suc (Suc j)) (inner s' j) = take (Suc j) (inner s' j) @ [s ! j]"
      "drop (Suc (Suc j)) (inner s' j) = drop (Suc (Suc j)) s"
    proof -
      have "inner s' j = take (Suc j) (inner s' j) @ s ! j # drop (Suc (Suc j)) s"
        using IH d' by (metis append_take_drop_id)
      moreover have "length (take (Suc j) (inner s' j)) = Suc j"
        using \<open>length (inner s' j) = length s'\<close> len by simp
      ultimately show "take (Suc (Suc j)) (inner s' j) = take (Suc j) (inner s' j) @ [s ! j]"
        "drop (Suc (Suc j)) (inner s' j) = drop (Suc (Suc j)) s"
        by (metis append_eq_conv_conj append_Cons append_Nil append_assoc length_append_singleton)+
    qed
    have "\<not> before (s ! j) x" if "x \<in> set (take (Suc j) (inner s' j))" for x
    proof -
      have "x \<in> set (take j s @ [s ! Suc j])" using that IH tk' by (metis set_mset_mset)
      then show ?thesis using Suc.prems(2) asym [OF True] by (auto simp: tk sorted_wrt_append)
    qed
    then have "ordered (take (Suc (Suc j)) (inner s' j))" using IH by (simp add: split sorted_wrt_append)
    moreover have "mset (take (Suc (Suc j)) (inner s' j)) = mset (take (Suc (Suc j)) s)"
      using IH Suc.prems(1) by (simp add: split tk' take_Suc_conv_app_nth)
    moreover have "mset (inner s' j) = mset s" using IH Suc.prems(1) by (simp add: s'_def)
    ultimately show ?thesis using run split by simp
  qed
qed

lemma outer_spec: "ordered (take i s) \<Longrightarrow> ordered (outer s i) \<and> mset (outer s i) = mset s"
proof (induction "length s - i" arbitrary: s i)
  case 0
  then show ?case by (simp add: outer [of s i])
next
  case (Suc n)
  then have i: "i < length s" by simp
  note I = inner_spec [OF i Suc.prems]
  then have "length (inner s i) = length s" by (metis size_mset)
  then show ?case using Suc.hyps I i by (simp add: outer [of s i])
qed

lemma sort_spec: "ordered (outer s 1) \<and> mset (outer s 1) = mset s"
  by (rule outer_spec) (cases s; simp)

end

interpretation desc: insertion_sort "\<lambda>x y. y < x" sortDesc_inner sortDesc_outer
  by unfold_locales
    (rule sortDesc_inner.simps, rule sortDesc_outer.simps, simp_all add: not_less order_trans)

interpretation asc: insertion_sort "\<lambda>x y. x < y" sortAsc_inner sortAsc_outer
  by unfold_locales
    (rule sortAsc_inner.simps, rule sortAsc_outer.simps, simp_all add: not_less order_trans)

end
