(* ===== verification/SnapshotProps.thy ===== *)
theory SnapshotProps
  imports Snapshot BookExample
begin

text \<open>What \<open>GetSnapshot\<close> returns, in terms of the orders that rest in the book.\<close>

section \<open>Sorting\<close>

text \<open>C15: the two hand-written insertion sorts are the library's sort, descending and ascending.\<close>

theorem sorts_are_sort: "sortDesc s = rev (sort s) \<and> sortAsc s = sort s"
proof
  have "sorted_wrt (\<lambda>x y. y \<le> x) (sortDesc s)" "mset (sortDesc s) = mset s"
    using desc.sort_spec [of s] by (simp_all add: sortDesc_def not_less)
  then have "sorted (rev (sortDesc s))" "mset (rev (sortDesc s)) = mset s" by (simp_all add: sorted_wrt_rev)
  then have "rev (sortDesc s) = sort s" by (metis properties_for_sort)
  then show "sortDesc s = rev (sort s)" by (metis rev_rev_ident)
  have "sorted (sortAsc s)" "mset (sortAsc s) = mset s"
    using asc.sort_spec [of s] by (simp_all add: sortAsc_def not_less)
  then show "sortAsc s = sort s" by (metis properties_for_sort)
qed

lemma strict_descending: "sorted_wrt (\<lambda>x y. y \<le> x) xs \<Longrightarrow> distinct xs \<Longrightarrow> sorted_wrt (>) (xs :: 'a::linorder list)"
  by (induction xs) (auto simp: order.strict_iff_order)

lemma sort_facts:
  "set (sortDesc s) = set s" "set (sortAsc s) = set s"
  "distinct s \<Longrightarrow> sorted_wrt (>) (sortDesc s)" "distinct s \<Longrightarrow> sorted_wrt (<) (sortAsc s)"
proof -
  have m: "mset (sortDesc s) = mset s" "mset (sortAsc s) = mset s"
    and o: "sorted_wrt (\<lambda>x y. y \<le> x) (sortDesc s)" "sorted_wrt (\<le>) (sortAsc s)"
    using desc.sort_spec [of s] asc.sort_spec [of s] by (simp_all add: sortDesc_def sortAsc_def not_less)
  show "set (sortDesc s) = set s" "set (sortAsc s) = set s" using m by (metis set_mset_mset)+
  assume "distinct s"
  then have d: "distinct (sortDesc s)" "distinct (sortAsc s)" using m by (metis mset_eq_imp_distinct_iff)+
  show "sorted_wrt (>) (sortDesc s)"
    by (rule strict_descending [OF o(1) d(1)])
  show "sorted_wrt (<) (sortAsc s)" using o(2) d(2) by (simp add: strict_sorted_iff)
qed

section \<open>Levels\<close>

text \<open>The level at one price: what the orders at this price have left, and how many they are.\<close>

definition level_of :: "mem \<Rightarrow> eref list \<Rightarrow> xfloat \<Rightarrow> PriceLevel" where
  "level_of m h p =
     (let es = filter (\<lambda>e. price_of (order_of m e) = p) h
      in \<lparr>PLPrice = p, PLAmount = (\<Sum>e\<leftarrow>es. RemainingBase (order_of m e)), PLCount = length es\<rparr>)"

definition levels_ok :: "mem \<Rightarrow> eref list \<Rightarrow> (xfloat \<rightharpoonup> PriceLevel) \<times> xfloat list \<Rightarrow> bool" where
  "levels_ok m h = (\<lambda>(levels, prices). distinct prices \<and> set prices = (\<lambda>e. price_of (order_of m e)) ` set h \<and>
     levels = (\<lambda>p. if p \<in> set prices then Some (level_of m h p) else None))"

lemma level_of_append_other:
  "price_of (order_of m e) \<noteq> p \<Longrightarrow> level_of m (h @ [e]) p = level_of m h p"
  by (simp add: level_of_def)

lemma level_of_append_same:
  "price_of (order_of m e) = p \<Longrightarrow> level_of m (h @ [e]) p = (level_of m h p)\<lparr>PLAmount := PLAmount (level_of m h p)
     + RemainingBase (order_of m e), PLCount := PLCount (level_of m h p) + 1\<rparr>"
  by (simp add: level_of_def Let_def)

lemma level_of_new:
  "p \<notin> (\<lambda>e. price_of (order_of m e)) ` set h \<Longrightarrow> level_of m h p = \<lparr>PLPrice = p, PLAmount = 0, PLCount = 0\<rparr>"
proof -
  assume "p \<notin> (\<lambda>e. price_of (order_of m e)) ` set h"
  then have "filter (\<lambda>e. price_of (order_of m e) = p) h = []" by (auto simp: filter_empty_conv)
  then show ?thesis by (simp add: level_of_def)
qed

lemma add_to_levels_ok:
  assumes "levels_ok m h acc" "Price (order_of m e) = Some p"
  shows "\<exists>acc'. add_to_levels (order_of m e) acc = Some acc' \<and> levels_ok m (h @ [e]) acc'"
proof -
  obtain levels prices where acc: "acc = (levels, prices)" by (cases acc)
  have p: "price_of (order_of m e) = p" using assms(2) by (simp add: price_of_def)
  have lv: "levels = (\<lambda>p. if p \<in> set prices then Some (level_of m h p) else None)" and d: "distinct prices"
    and st: "set prices = (\<lambda>e. price_of (order_of m e)) ` set h"
    using assms(1) by (simp_all add: levels_ok_def acc)
  show ?thesis
  proof (cases "p \<in> set prices")
    case True
    let ?lv = "levels(p \<mapsto> (level_of m h p)\<lparr>PLAmount := PLAmount (level_of m h p) + RemainingBase (order_of m e),
      PLCount := PLCount (level_of m h p) + 1\<rparr>)"
    have "?lv = (\<lambda>q. if q \<in> set prices then Some (level_of m (h @ [e]) q) else None)"
      using True p by (auto simp: fun_eq_iff lv level_of_append_other level_of_append_same)
    then have "levels_ok m (h @ [e]) (?lv, prices)" using True d st p by (auto simp: levels_ok_def)
    then show ?thesis using True by (simp add: add_to_levels_def acc assms(2) lv)
  next
    case False
    let ?lv = "levels(p \<mapsto> \<lparr>PLPrice = p, PLAmount = RemainingBase (order_of m e), PLCount = 1\<rparr>)"
    have "level_of m (h @ [e]) p = \<lparr>PLPrice = p, PLAmount = RemainingBase (order_of m e), PLCount = 1\<rparr>"
      using False st by (simp add: level_of_append_same [OF p] level_of_new)
    then have "?lv = (\<lambda>q. if q \<in> set (prices @ [p]) then Some (level_of m (h @ [e]) q) else None)"
      using p by (auto simp: fun_eq_iff lv level_of_append_other)
    then have "levels_ok m (h @ [e]) (?lv, prices @ [p])" using False d st p by (simp add: levels_ok_def)
    then show ?thesis using False by (simp add: add_to_levels_def acc assms(2) lv)
  qed
qed

lemma collect_levels_ok:
  assumes "levels_ok m h acc" "\<forall>e \<in> set es. \<exists>p. Price (order_of m e) = Some p"
  shows "\<exists>acc'. collect_levels m es acc = Some acc' \<and> levels_ok m (h @ es) acc'"
  using assms
proof (induction es arbitrary: h acc)
  case (Cons e es)
  then obtain p where "Price (order_of m e) = Some p" by auto
  from add_to_levels_ok [OF Cons.prems(1) this] obtain acc' where
    "add_to_levels (order_of m e) acc = Some acc'" "levels_ok m (h @ [e]) acc'" by blast
  then show ?case using Cons.IH [of "h @ [e]" acc'] Cons.prems(2) by simp
qed simp

lemma read_levels_ok:
  "set ps \<subseteq> dom levels \<Longrightarrow> read_levels levels ps = Some (map (\<lambda>p. the (levels p)) ps)"
  by (induction ps) auto

lemma aggregate_ok:
  assumes "\<forall>e \<in> set h. \<exists>p. Price (order_of m e) = Some p"
  shows "\<exists>ps. set ps = (\<lambda>e. price_of (order_of m e)) ` set h \<and> sorted_wrt (>) ps \<and>
      aggregateLevels m h = Some (map (level_of m h) ps)"
    "\<exists>ps. set ps = (\<lambda>e. price_of (order_of m e)) ` set h \<and> sorted_wrt (<) ps \<and>
      aggregateSellLevels m h = Some (map (level_of m h) ps)"
proof -
  have "levels_ok m [] (Map.empty, [])" by (simp add: levels_ok_def)
  from collect_levels_ok [OF this assms] obtain levels prices where
    c: "collect_levels m h (Map.empty, []) = Some (levels, prices)" "levels_ok m h (levels, prices)" by auto
  then have ok: "distinct prices" "set prices = (\<lambda>e. price_of (order_of m e)) ` set h"
    "levels = (\<lambda>p. if p \<in> set prices then Some (level_of m h p) else None)"
    by (simp_all add: levels_ok_def)
  have rd: "read_levels levels qs = Some (map (level_of m h) qs)" if "set qs = set prices" for qs
    using read_levels_ok [of qs levels] that by (auto simp: ok(3) dom_def cong: map_cong)
  show "\<exists>ps. set ps = (\<lambda>e. price_of (order_of m e)) ` set h \<and> sorted_wrt (>) ps \<and>
      aggregateLevels m h = Some (map (level_of m h) ps)"
    using sort_facts [of prices] rd [of "sortDesc prices"] ok(1,2)
    by (intro exI [of _ "sortDesc prices"]) (simp add: aggregateLevels_def c(1))
  show "\<exists>ps. set ps = (\<lambda>e. price_of (order_of m e)) ` set h \<and> sorted_wrt (<) ps \<and>
      aggregateSellLevels m h = Some (map (level_of m h) ps)"
    using sort_facts [of prices] rd [of "sortAsc prices"] ok(1,2)
    by (intro exI [of _ "sortAsc prices"]) (simp add: aggregateSellLevels_def c(1))
qed

text \<open>
  C13: the snapshot is the book.  On a book that satisfies its invariant \<open>GetSnapshot\<close> returns one level per
  price at which an order rests: bids from the highest price down, asks from the lowest up, each with the
  sum and the number of what rests there.
\<close>

theorem GetSnapshot_correct:
  assumes "book_inv m ob"
  shows "\<exists>s bps aps. GetSnapshot m ob = Some s \<and>
    Bids s = map (level_of m (buys ob)) bps \<and> sorted_wrt (>) bps \<and> set bps = (\<lambda>e. price_of (order_of m e)) ` set (buys ob) \<and>
    Asks s = map (level_of m (sells ob)) aps \<and> sorted_wrt (<) aps \<and> set aps = (\<lambda>e. price_of (order_of m e)) ` set (sells ob)"
proof -
  have priced: "\<forall>e \<in> set (side_of b ob). \<exists>p. Price (order_of m e) = Some p" for b
    using book_invD(1) [OF assms, of b] by (simp add: side_inv_def)
  obtain bps where "set bps = (\<lambda>e. price_of (order_of m e)) ` set (buys ob)" "sorted_wrt (>) bps"
    "aggregateLevels m (buys ob) = Some (map (level_of m (buys ob)) bps)"
    using aggregate_ok(1) priced [of True] by force
  moreover obtain aps where "set aps = (\<lambda>e. price_of (order_of m e)) ` set (sells ob)" "sorted_wrt (<) aps"
    "aggregateSellLevels m (sells ob) = Some (map (level_of m (sells ob)) aps)"
    using aggregate_ok(2) priced [of False] by force
  ultimately show ?thesis
    by (intro exI [of _ "\<lparr>Bids = map (level_of m (buys ob)) bps, Asks = map (level_of m (sells ob)) aps\<rparr>"]
        exI [of _ bps] exI [of _ aps]) (simp add: GetSnapshot_def)
qed


lemma GetSnapshot_correct_witness:
  "\<exists>s. GetSnapshot ex_mem ex_book = Some s \<and> Bids s = [] \<and> length (Asks s) = 2"
proof -
  obtain s bps aps where s: "GetSnapshot ex_mem ex_book = Some s"
    "Bids s = map (level_of ex_mem []) bps" "set bps = {}"
    "Asks s = map (level_of ex_mem [0, Suc 0]) aps" "sorted_wrt (<) aps" "set aps = {Fin 2, Fin 3}"
    using GetSnapshot_correct [OF ex_book_inv] by (auto simp: price_of_def)
  have "distinct aps" using s(5) by (simp add: strict_sorted_iff)
  then have "length aps = card (set aps)" by (rule distinct_card [symmetric])
  also have "\<dots> = 2" by (simp add: s(6))
  finally show ?thesis using s by simp
qed

lemma sum_by_key:
  fixes g :: "'a \<Rightarrow> 'b::comm_monoid_add"
  assumes "distinct ps" "f ` set h \<subseteq> set ps"
  shows "(\<Sum>p\<leftarrow>ps. \<Sum>e\<leftarrow>filter (\<lambda>e. f e = p) h. g e) = (\<Sum>e\<leftarrow>h. g e)"
  using assms(2)
proof (induction h)
  case (Cons e h)
  have "(\<Sum>p\<leftarrow>ps. \<Sum>e\<leftarrow>filter (\<lambda>e. f e = p) (e # h). g e) =
      (\<Sum>p\<leftarrow>ps. (if p = f e then g e else 0) + (\<Sum>e\<leftarrow>filter (\<lambda>e. f e = p) h. g e))"
    by (intro arg_cong [where f = sum_list] map_cong) auto
  also have "\<dots> = (\<Sum>p\<leftarrow>ps. if p = f e then g e else 0) + (\<Sum>e\<leftarrow>h. g e)"
    using Cons by (simp add: sum_list_addf)
  also have "(\<Sum>p\<leftarrow>ps. if p = f e then g e else 0) = (\<Sum>p\<in>set ps. if p = f e then g e else 0)"
    by (rule sum_list_distinct_conv_sum_set [OF assms(1)])
  also have "\<dots> = g e" using Cons.prems by simp
  finally show ?case by simp
qed simp

lemma level_sums:
  assumes "distinct ps" "(\<lambda>e. price_of (order_of m e)) ` set h \<subseteq> set ps"
  shows "(\<Sum>l\<leftarrow>map (level_of m h) ps. PLAmount l) = (\<Sum>s \<in># book_side m h. RemainingBase s)"
    and "(\<Sum>l\<leftarrow>map (level_of m h) ps. PLCount l) = size (book_side m h)"
proof -
  have "(\<Sum>s \<in># book_side m h. RemainingBase s) = (\<Sum>e\<leftarrow>h. RemainingBase (order_of m e))"
    by (simp add: book_side_def multiset.map_comp comp_def flip: sum_mset_sum_list mset_map)
  then show "(\<Sum>l\<leftarrow>map (level_of m h) ps. PLAmount l) = (\<Sum>s \<in># book_side m h. RemainingBase s)"
    using sum_by_key [OF assms, of "\<lambda>e. RemainingBase (order_of m e)"] by (simp add: comp_def level_of_def Let_def)
  have len: "length es = (\<Sum>e\<leftarrow>es. 1)" for es :: "eref list" by (induction es) auto
  show "(\<Sum>l\<leftarrow>map (level_of m h) ps. PLCount l) = size (book_side m h)"
    using sum_by_key [OF assms, of "\<lambda>e. 1 :: nat"] by (simp add: comp_def level_of_def Let_def book_side_def len)
qed

lemma strict_desc_distinct: "sorted_wrt (>) (xs :: 'a::linorder list) \<Longrightarrow> distinct xs"
  by (induction xs) auto

lemma hd_sorted_max: "sorted_wrt (>) (xs :: 'a::linorder list) \<Longrightarrow> x \<in> set xs \<Longrightarrow> x \<le> hd xs"
  by (cases xs) auto

lemma hd_sorted_min: "sorted_wrt (<) (xs :: 'a::linorder list) \<Longrightarrow> x \<in> set xs \<Longrightarrow> hd xs \<le> x"
  by (cases xs) auto

text \<open>
  C14: nothing is lost or double counted in the snapshot, and it shows an uncrossed market.  The level
  amounts of a side add up to what its orders have left, the level counts to the number of its orders,
  every bid level is below every ask level, and the first level of a side is at the price of its heap's
  root, the order that would be matched next.
\<close>

theorem GetSnapshot_depth:
  assumes "book_inv m ob" "GetSnapshot m ob = Some s"
  shows "(\<Sum>l\<leftarrow>Bids s. PLAmount l) = (\<Sum>x \<in># book_side m (buys ob). RemainingBase x) \<and>
    (\<Sum>l\<leftarrow>Asks s. PLAmount l) = (\<Sum>x \<in># book_side m (sells ob). RemainingBase x) \<and>
    (\<Sum>l\<leftarrow>Bids s. PLCount l) = length (buys ob) \<and> (\<Sum>l\<leftarrow>Asks s. PLCount l) = length (sells ob) \<and>
    (\<forall>x \<in> set (Bids s). \<forall>y \<in> set (Asks s). PLPrice x < PLPrice y) \<and>
    (buys ob \<noteq> [] \<longrightarrow> PLPrice (hd (Bids s)) = price_of (order_of m (buys ob ! 0))) \<and>
    (sells ob \<noteq> [] \<longrightarrow> PLPrice (hd (Asks s)) = price_of (order_of m (sells ob ! 0)))"
proof -
  have priced: "\<forall>e \<in> set (side_of b ob). \<exists>p. Price (order_of m e) = Some p" for b
    using book_invD(1) [OF assms(1), of b] by (simp add: side_inv_def)
  obtain bps where b: "set bps = (\<lambda>e. price_of (order_of m e)) ` set (buys ob)" "sorted_wrt (>) bps"
    "aggregateLevels m (buys ob) = Some (map (level_of m (buys ob)) bps)"
    using aggregate_ok(1) priced [of True] by force
  obtain aps where a: "set aps = (\<lambda>e. price_of (order_of m e)) ` set (sells ob)" "sorted_wrt (<) aps"
    "aggregateSellLevels m (sells ob) = Some (map (level_of m (sells ob)) aps)"
    using aggregate_ok(2) priced [of False] by force
  have s: "Bids s = map (level_of m (buys ob)) bps" "Asks s = map (level_of m (sells ob)) aps"
    using assms(2) a(3) b(3) by (auto simp: GetSnapshot_def)
  have d: "distinct bps" "distinct aps"
    using a(2) strict_desc_distinct [OF b(2)] by (simp_all add: strict_sorted_iff)
  have lp: "PLPrice (level_of m h p) = p" for h p by (simp add: level_of_def Let_def)
  have "\<forall>x \<in> set bps. \<forall>y \<in> set aps. x < y"
    using book_invD(5) [OF assms(1)] by (auto simp: a(1) b(1) uncrossed_def)
  moreover have "PLPrice (hd (Bids s)) = price_of (order_of m (buys ob ! 0))" if "buys ob \<noteq> []"
  proof -
    have ne: "bps \<noteq> []" using b(1) that by auto
    have "price_of (order_of m (buys ob ! 0)) \<le> hd bps" using b(1,2) that by (intro hd_sorted_max) auto
    moreover obtain e where e: "e \<in> set (buys ob)" "hd bps = price_of (order_of m e)"
      using hd_in_set [OF ne] b(1) by auto
    ultimately show ?thesis
      using side_root_best [of True m "buys ob" e] book_invD(1) [OF assms(1), of True] ne
      by (auto simp: s lp hd_map priority_def)
  qed
  moreover have "PLPrice (hd (Asks s)) = price_of (order_of m (sells ob ! 0))" if "sells ob \<noteq> []"
  proof -
    have ne: "aps \<noteq> []" using a(1) that by auto
    have "hd aps \<le> price_of (order_of m (sells ob ! 0))" using a(1,2) that by (intro hd_sorted_min) auto
    moreover obtain e where e: "e \<in> set (sells ob)" "hd aps = price_of (order_of m e)"
      using hd_in_set [OF ne] a(1) by auto
    ultimately show ?thesis
      using side_root_best [of False m "sells ob" e] book_invD(1) [OF assms(1), of False] ne
      by (auto simp: s lp hd_map priority_def)
  qed
  ultimately show ?thesis
    using level_sums [OF d(1), of m "buys ob"] level_sums [OF d(2), of m "sells ob"] a(1) b(1)
    by (simp add: s lp book_side_def)
qed

lemma GetSnapshot_depth_witness:
  "\<exists>s. GetSnapshot ex_mem ex_book = Some s \<and> (\<Sum>l\<leftarrow>Asks s. PLAmount l) = 150 \<and> (\<Sum>l\<leftarrow>Asks s. PLCount l) = 2"
proof -
  have "aggregateLevels ex_mem [] \<noteq> None" "aggregateSellLevels ex_mem [0, Suc 0] \<noteq> None"
    using aggregate_ok(1) [of "[]" ex_mem] aggregate_ok(2) [of "[0, Suc 0]" ex_mem] by force+
  then obtain s where s: "GetSnapshot ex_mem ex_book = Some s" by (auto simp: GetSnapshot_def)
  then show ?thesis
    using GetSnapshot_depth [OF ex_book_inv s] by (simp add: book_side_def RemainingBase_def)
qed

end
