(* ===== verification/Texts.thy ===== *)
theory Texts
  imports Prelude "HOL-Library.Char_ord" "HOL-Library.Word"
begin

text \<open>
  The text formats the backend reads and writes: decimal integers (\<open>big.Int\<close>'s \<open>String\<close> and
  \<open>SetString\<close> with base 10, behind \<open>parseBigInt\<close>), hexadecimal byte strings (\<open>hexToBytes\<close>) and
  \<open>strings.TrimPrefix\<close>; and the big-endian bytes of an integer (\<open>big.Int\<close>'s \<open>Bytes\<close> and \<open>SetBytes\<close>).
\<close>

type_synonym byte = "8 word"

section \<open>Decimal integers\<close>

definition digit_char :: "nat \<Rightarrow> char" where
  "digit_char d = char_of (48 + d)"

definition digit_val :: "char \<Rightarrow> nat option" where
  "digit_val c = (let k = of_char c in if 48 \<le> k \<and> k \<le> 57 then Some (k - 48) else None)"

fun dec_string :: "nat \<Rightarrow> string" where
  "dec_string n = (if n < 10 then [digit_char n] else dec_string (n div 10) @ [digit_char (n mod 10)])"

declare dec_string.simps [simp del]

definition big_String :: "int \<Rightarrow> string" where
  "big_String x = (if x < 0 then CHR ''-'' # dec_string (nat (- x)) else dec_string (nat x))"

text \<open>The digits of a number without its sign; a character that is no digit fails the whole string.\<close>

fun scan_digits :: "nat \<Rightarrow> string \<Rightarrow> nat option" where
  "scan_digits acc [] = Some acc"
| "scan_digits acc (c # cs) = (case digit_val c of None \<Rightarrow> None | Some d \<Rightarrow> scan_digits (10 * acc + d) cs)"

definition scan_nat :: "string \<Rightarrow> nat option" where
  "scan_nat cs = (if cs = [] then None else scan_digits 0 cs)"

definition parseBigInt :: "string \<Rightarrow> int option" where
  "parseBigInt s =
     (case s of
        [] \<Rightarrow> None
      | c # cs \<Rightarrow>
          if c = CHR ''-'' then map_option (\<lambda>n. - int n) (scan_nat cs)
          else if c = CHR ''+'' then map_option int (scan_nat cs)
          else map_option int (scan_nat s))"

lemma digit_val_char [simp]: "d < 10 \<Longrightarrow> digit_val (digit_char d) = Some d"
  by (simp add: digit_val_def digit_char_def Let_def)

lemma digit_char_sign: "d < 10 \<Longrightarrow> digit_char d \<noteq> CHR ''-'' \<and> digit_char d \<noteq> CHR ''+''"
proof -
  assume d: "d < 10"
  have "digit_val (CHR ''-'') = None" "digit_val (CHR ''+'') = None" by (simp_all add: digit_val_def)
  then show ?thesis using digit_val_char [OF d] by force
qed

lemma scan_digits_append:
  "scan_digits acc (xs @ ys) = (case scan_digits acc xs of None \<Rightarrow> None | Some a \<Rightarrow> scan_digits a ys)"
  by (induction xs arbitrary: acc) (auto split: option.splits)

lemma scan_dec_string: "scan_digits 0 (dec_string n) = Some n"
proof (induction n rule: dec_string.induct)
  case (1 n)
  show ?case
  proof (cases "n < 10")
    case True
    then show ?thesis by (subst dec_string.simps) simp
  next
    case False
    then show ?thesis using 1 by (subst dec_string.simps) (simp add: scan_digits_append)
  qed
qed

lemma dec_string_hd: "\<exists>d cs. d < 10 \<and> dec_string n = digit_char d # cs"
proof (induction n rule: dec_string.induct)
  case (1 n)
  show ?case
  proof (cases "n < 10")
    case True
    then show ?thesis by (subst dec_string.simps) auto
  next
    case False
    then obtain d cs where "d < 10" "dec_string (n div 10) = digit_char d # cs" using 1 by blast
    then show ?thesis using False by (subst dec_string.simps) auto
  qed
qed

lemma parse_big_String [simp]: "parseBigInt (big_String x) = Some x"
proof (cases "x < 0")
  case True
  obtain d cs where "dec_string (nat (- x)) = digit_char d # cs" using dec_string_hd by blast
  then show ?thesis
    using True scan_dec_string [of "nat (- x)"] by (simp add: big_String_def parseBigInt_def scan_nat_def)
next
  case False
  obtain d cs where d: "d < 10" "dec_string (nat x) = digit_char d # cs" using dec_string_hd by blast
  then show ?thesis
    using False scan_dec_string [of "nat x"] digit_char_sign [OF d(1)]
    by (simp add: big_String_def parseBigInt_def scan_nat_def)
qed

lemma big_String_inj: "big_String x = big_String y \<Longrightarrow> x = y"
  by (metis option.inject parse_big_String)

section \<open>Hexadecimal byte strings\<close>

definition TrimPrefix :: "string \<Rightarrow> string \<Rightarrow> string" where
  "TrimPrefix s p = (if take (length p) s = p then drop (length p) s else s)"

definition hex_val :: "char \<Rightarrow> nat option" where
  "hex_val c =
     (let k = of_char c
      in if 48 \<le> k \<and> k \<le> 57 then Some (k - 48)
         else if 97 \<le> k \<and> k \<le> 102 then Some (k - 87)
         else if 65 \<le> k \<and> k \<le> 70 then Some (k - 55)
         else None)"

datatype hex_error = InvalidByteError char | ErrLength

text \<open>\<open>hex.DecodeString\<close>: a bad character is reported before an odd length.\<close>

fun hex_DecodeString :: "string \<Rightarrow> hex_error + byte list" where
  "hex_DecodeString [] = Inr []"
| "hex_DecodeString [c] = Inl (if hex_val c = None then InvalidByteError c else ErrLength)"
| "hex_DecodeString (p # q # cs) =
     (case hex_val p of
        None \<Rightarrow> Inl (InvalidByteError p)
      | Some a \<Rightarrow>
          (case hex_val q of
             None \<Rightarrow> Inl (InvalidByteError q)
           | Some b \<Rightarrow> map_sum id (\<lambda>bs. word_of_nat (16 * a + b) # bs) (hex_DecodeString cs)))"

definition hexToBytes :: "string \<Rightarrow> hex_error + byte list" where
  "hexToBytes h = hex_DecodeString (TrimPrefix h ''0x'')"

text \<open>The reverse direction, as a client writes a byte string.\<close>

definition hex_char :: "nat \<Rightarrow> char" where
  "hex_char d = (if d < 10 then char_of (48 + d) else char_of (87 + d))"

fun hex_encode :: "byte list \<Rightarrow> string" where
  "hex_encode [] = []"
| "hex_encode (b # bs) = hex_char (unat b div 16) # hex_char (unat b mod 16) # hex_encode bs"

lemma hex_val_char [simp]: "d < 16 \<Longrightarrow> hex_val (hex_char d) = Some d"
  by (simp add: hex_val_def hex_char_def Let_def)

lemma unat_byte_lt: "unat (b :: byte) < 256"
  using unsigned_less [where ?'a = nat, of b] by simp

lemma hex_DecodeString_encode: "hex_DecodeString (hex_encode bs) = Inr bs"
proof (induction bs)
  case (Cons b bs)
  have "unat b div 16 < 16" using unat_byte_lt [of b] by simp
  moreover have "16 * (unat b div 16) + unat b mod 16 = unat b" by simp
  ultimately show ?case using Cons by simp
qed simp

lemma TrimPrefix_append [simp]: "TrimPrefix (p @ s) p = s"
  by (simp add: TrimPrefix_def)

lemma length_hex_DecodeString: "hex_DecodeString cs = Inr bs \<Longrightarrow> length cs = 2 * length bs"
  by (induction cs arbitrary: bs rule: hex_DecodeString.induct)
    (auto split: option.splits if_splits simp: map_sum_def sum.split_asm split: sum.splits)

section \<open>Big-endian bytes\<close>

text \<open>\<open>Bytes\<close>: the absolute value, most significant byte first, no leading zero; zero is empty.\<close>

fun nat_bytes :: "nat \<Rightarrow> byte list" where
  "nat_bytes n = (if n = 0 then [] else nat_bytes (n div 256) @ [word_of_nat (n mod 256)])"

declare nat_bytes.simps [simp del]

definition big_Bytes :: "int \<Rightarrow> byte list" where
  "big_Bytes x = nat_bytes (nat \<bar>x\<bar>)"

definition bytes_nat :: "byte list \<Rightarrow> nat" where
  "bytes_nat bs = foldl (\<lambda>a b. 256 * a + unat b) 0 bs"

text \<open>\<open>SetBytes\<close>.\<close>

definition big_SetBytes :: "byte list \<Rightarrow> int" where
  "big_SetBytes bs = int (bytes_nat bs)"

lemma bytes_nat_append: "bytes_nat (bs @ [b]) = 256 * bytes_nat bs + unat b"
  by (simp add: bytes_nat_def)

lemma bytes_nat_Nil [simp]: "bytes_nat [] = 0"
  by (simp add: bytes_nat_def)

lemma bytes_nat_bytes [simp]: "bytes_nat (nat_bytes n) = n"
proof (induction n rule: nat_bytes.induct)
  case (1 n)
  show ?case
  proof (cases "n = 0")
    case False
    have "unat (word_of_nat (n mod 256) :: byte) = n mod 256" by (simp add: unat_of_nat)
    then show ?thesis using False 1 by (subst nat_bytes.simps) (simp add: bytes_nat_append)
  qed (simp add: nat_bytes.simps)
qed

lemma bytes_nat_pad [simp]: "bytes_nat (replicate k 0 @ bs) = bytes_nat bs"
proof -
  have "foldl (\<lambda>a b. 256 * a + unat b) 0 (replicate k (0 :: byte)) = 0" by (induction k) simp_all
  then show ?thesis by (simp add: bytes_nat_def)
qed

lemma length_nat_bytes: "n < 256 ^ k \<Longrightarrow> length (nat_bytes n) \<le> k"
proof (induction n arbitrary: k rule: nat_bytes.induct)
  case (1 n)
  show ?case
  proof (cases "n = 0")
    case False
    then obtain j where k: "k = Suc j" using 1(2) by (cases k) auto
    have "n div 256 < 256 ^ j" using 1(2) by (simp add: k less_mult_imp_div_less mult.commute)
    then show ?thesis using False 1(1) k by (subst nat_bytes.simps) simp
  qed (simp add: nat_bytes.simps)
qed

end
