(* ===== verification/Eip712.thy ===== *)
theory Eip712
  imports Texts
begin

text \<open>
  The package \<open>pkg/eip712\<close>: hashing an order and checking its signature.  The functions of go-ethereum
  it calls (Keccak, padding, public key recovery, address parsing) are not part of the repository and
  are the fields of \<open>eth\<close>, a parameter of every definition.
\<close>

section \<open>go-ethereum\<close>

type_synonym address = "byte list"
type_synonym hash = "byte list"

text \<open>\<open>Keccak256Hash\<close> hashes the concatenation of its arguments; it gets the list of them.\<close>

record 'pk eth =
  Keccak256Hash :: "byte list list \<Rightarrow> hash"
  LeftPadBytes :: "byte list \<Rightarrow> nat \<Rightarrow> byte list"
  Ecrecover :: "hash \<Rightarrow> byte list \<Rightarrow> string + byte list"
  UnmarshalPubkey :: "byte list \<Rightarrow> string + 'pk"
  PubkeyToAddress :: "'pk \<Rightarrow> address"
  HexToAddress :: "string \<Rightarrow> address"
  FromHex :: "string \<Rightarrow> byte list"

text \<open>Documented behaviour of \<open>LeftPadBytes\<close>: zeros in front, up to the length asked for.\<close>

definition left_pad_ok :: "'pk eth \<Rightarrow> bool" where
  "left_pad_ok eth \<longleftrightarrow>
     (\<forall>bs n. length bs \<le> n \<longrightarrow> LeftPadBytes eth bs n = replicate (n - length bs) 0 @ bs)"

definition str_bytes :: "string \<Rightarrow> byte list" where
  "str_bytes s = map (\<lambda>c. word_of_nat (of_char c)) s"

section \<open>\<open>typehash.go\<close>\<close>

definition OrderTypeHash :: "'pk eth \<Rightarrow> hash" where
  "OrderTypeHash eth = Keccak256Hash eth
     [str_bytes ''Order(address maker,address tokenSell,address tokenBuy,uint256 amountSell,uint256 amountBuy,uint256 expiry,uint256 nonce,uint256 salt)'']"

record DomainSeparator =
  dsName :: string
  dsVersion :: string
  dsChainID :: int
  dsVerifyingContract :: address

definition NewDomainSeparator :: "int \<Rightarrow> address \<Rightarrow> DomainSeparator" where
  "NewDomainSeparator chainID contractAddr =
     \<lparr>dsName = ''NexusOrderBook'', dsVersion = ''1'', dsChainID = chainID, dsVerifyingContract = contractAddr\<rparr>"

definition DomainSeparator_Hash :: "'pk eth \<Rightarrow> DomainSeparator \<Rightarrow> hash" where
  "DomainSeparator_Hash eth d =
     Keccak256Hash eth
       [Keccak256Hash eth [str_bytes ''EIP712Domain(string name,string version,uint256 chainId,address verifyingContract)''],
        Keccak256Hash eth [str_bytes (dsName d)],
        Keccak256Hash eth [str_bytes (dsVersion d)],
        LeftPadBytes eth (big_Bytes (dsChainID d)) 32,
        LeftPadBytes eth (dsVerifyingContract d) 32]"

record OrderData =
  odMaker :: address
  odTokenSell :: address
  odTokenBuy :: address
  odAmountSell :: int
  odAmountBuy :: int
  odExpiry :: int
  odNonce :: int
  odSalt :: int

text \<open>The arguments of the hash in \<open>HashOrder\<close>, after the type hash.\<close>

definition order_fields :: "'pk eth \<Rightarrow> OrderData \<Rightarrow> byte list list" where
  "order_fields eth od =
     [LeftPadBytes eth (odMaker od) 32, LeftPadBytes eth (odTokenSell od) 32, LeftPadBytes eth (odTokenBuy od) 32,
      LeftPadBytes eth (big_Bytes (odAmountSell od)) 32, LeftPadBytes eth (big_Bytes (odAmountBuy od)) 32,
      LeftPadBytes eth (big_Bytes (odExpiry od)) 32, LeftPadBytes eth (big_Bytes (odNonce od)) 32,
      LeftPadBytes eth (big_Bytes (odSalt od)) 32]"

definition HashOrder :: "'pk eth \<Rightarrow> OrderData \<Rightarrow> hash" where
  "HashOrder eth od = Keccak256Hash eth (OrderTypeHash eth # order_fields eth od)"

definition HashTypedData :: "'pk eth \<Rightarrow> hash \<Rightarrow> hash \<Rightarrow> hash" where
  "HashTypedData eth domainSep structHash = Keccak256Hash eth [[0x19, 0x01], domainSep, structHash]"

section \<open>\<open>verify.go\<close>\<close>

text \<open>
  The errors: a wrong length, and go-ethereum's errors, which \<open>VerifyOrderSignature\<close> wraps with the name of the
  step and \<open>RecoverSigner\<close> returns as they are (\<open>RawError\<close>).
\<close>

datatype sig_error =
    InvalidLength nat
  | EcrecoverFailed string
  | UnmarshalFailed string
  | RawError string

text \<open>\<open>v\<close> is 27 or 28 on Ethereum, 0 or 1 for \<open>Ecrecover\<close>.\<close>

definition adjust_v :: "byte list \<Rightarrow> byte list" where
  "adjust_v sig = (if 27 \<le> sig ! 64 then sig[64 := sig ! 64 - 27] else sig)"

definition RecoverSigner :: "'pk eth \<Rightarrow> hash \<Rightarrow> byte list \<Rightarrow> sig_error + address" where
  "RecoverSigner eth digest signature =
     (if length signature \<noteq> 65 then Inl (InvalidLength (length signature))
      else case Ecrecover eth digest (adjust_v signature) of
             Inl e \<Rightarrow> Inl (RawError e)
           | Inr pubKey \<Rightarrow>
               (case UnmarshalPubkey eth pubKey of
                  Inl e \<Rightarrow> Inl (RawError e)
                | Inr pk \<Rightarrow> Inr (PubkeyToAddress eth pk)))"

definition VerifyOrderSignature :: "'pk eth \<Rightarrow> DomainSeparator \<Rightarrow> OrderData \<Rightarrow> byte list \<Rightarrow> sig_error + bool" where
  "VerifyOrderSignature eth ds od signature =
     (if length signature \<noteq> 65 then Inl (InvalidLength (length signature))
      else
        let structHash = HashOrder eth od;
            digest = HashTypedData eth (DomainSeparator_Hash eth ds) structHash
        in case Ecrecover eth digest (adjust_v signature) of
             Inl e \<Rightarrow> Inl (EcrecoverFailed e)
           | Inr pubKey \<Rightarrow>
               (case UnmarshalPubkey eth pubKey of
                  Inl e \<Rightarrow> Inl (UnmarshalFailed e)
                | Inr pk \<Rightarrow> Inr (PubkeyToAddress eth pk = odMaker od)))"

section \<open>What is signed\<close>

definition uint256 :: "int \<Rightarrow> bool" where
  "uint256 x \<longleftrightarrow> 0 \<le> x \<and> x < 2 ^ 256"

definition order_data_ok :: "OrderData \<Rightarrow> bool" where
  "order_data_ok od \<longleftrightarrow> length (odMaker od) = 20 \<and> length (odTokenSell od) = 20 \<and> length (odTokenBuy od) = 20 \<and>
     uint256 (odAmountSell od) \<and> uint256 (odAmountBuy od) \<and> uint256 (odExpiry od) \<and> uint256 (odNonce od) \<and>
     uint256 (odSalt od)"

lemma length_big_Bytes: "uint256 x \<Longrightarrow> length (big_Bytes x) \<le> 32"
proof -
  assume x: "uint256 x"
  then have "int (nat \<bar>x\<bar>) < 2 ^ 256" by (simp add: uint256_def)
  then have "nat \<bar>x\<bar> < 2 ^ 256" by (simp flip: of_nat_less_iff)
  also have "(2 :: nat) ^ 256 = 256 ^ 32" by simp
  finally show ?thesis unfolding big_Bytes_def by (rule length_nat_bytes)
qed

lemma padded_int:
  assumes "left_pad_ok eth" "uint256 x"
  shows "length (LeftPadBytes eth (big_Bytes x) 32) = 32" "bytes_nat (LeftPadBytes eth (big_Bytes x) 32) = nat x"
  using assms length_big_Bytes [OF assms(2)] by (auto simp: left_pad_ok_def big_Bytes_def uint256_def)

lemma padded_address:
  assumes "left_pad_ok eth" "length a = 20"
  shows "length (LeftPadBytes eth a 32) = 32" "drop 12 (LeftPadBytes eth a 32) = a"
  using assms by (auto simp: left_pad_ok_def)

lemma order_fields_length:
  "left_pad_ok eth \<Longrightarrow> order_data_ok od \<Longrightarrow> \<forall>f \<in> set (order_fields eth od). length f = 32"
  by (simp add: order_fields_def order_data_ok_def padded_int padded_address)

lemma concat_fixed_inj:
  "\<forall>x \<in> set xs. length x = n \<Longrightarrow> \<forall>y \<in> set ys. length y = n \<Longrightarrow> length xs = length ys \<Longrightarrow>
    concat xs = concat ys \<Longrightarrow> xs = ys"
  by (induction xs ys rule: list_induct2') auto

lemma order_fields_inj:
  assumes "left_pad_ok eth" "order_data_ok x" "order_data_ok y" "order_fields eth x = order_fields eth y"
  shows "x = y"
proof -
  have int_inj: "a = b" if "uint256 a" "uint256 b"
    "LeftPadBytes eth (big_Bytes a) 32 = LeftPadBytes eth (big_Bytes b) 32" for a b
  proof -
    have "nat a = nat b" using padded_int(2) [OF assms(1) that(1)] padded_int(2) [OF assms(1) that(2)] that(3) by metis
    then show ?thesis using that(1,2) by (simp add: uint256_def eq_nat_nat_iff)
  qed
  have adr_inj: "a = b" if "length a = 20" "length b = 20" "LeftPadBytes eth a 32 = LeftPadBytes eth b 32" for a b
    using padded_address(2) [OF assms(1)] that by metis
  have "odMaker x = odMaker y" "odTokenSell x = odTokenSell y" "odTokenBuy x = odTokenBuy y"
    "odAmountSell x = odAmountSell y" "odAmountBuy x = odAmountBuy y" "odExpiry x = odExpiry y"
    "odNonce x = odNonce y" "odSalt x = odSalt y"
    using assms(2-4) by (auto simp: order_data_ok_def order_fields_def intro: int_inj adr_inj)
  then show ?thesis by simp
qed

text \<open>
  C27: what is signed determines the order.  With \<open>LeftPadBytes\<close> as documented, the bytes \<open>HashOrder\<close> hashes
  (the concatenation of its fields after the type hash) are 256 long and differ for different orders,
  when addresses have 20 bytes and numbers are \<open>uint256\<close>: two orders share a hash only by a collision
  of Keccak itself.
\<close>

theorem HashOrder_encoding_injective:
  assumes "left_pad_ok eth" "order_data_ok x" "order_data_ok y"
  shows "HashOrder eth x = Keccak256Hash eth (OrderTypeHash eth # order_fields eth x) \<and>
    length (concat (order_fields eth x)) = 256 \<and>
    (concat (order_fields eth x) = concat (order_fields eth y) \<longleftrightarrow> x = y)"
proof -
  note len = order_fields_length [OF assms(1,2)] order_fields_length [OF assms(1,3)]
  have "concat (order_fields eth x) = concat (order_fields eth y) \<longleftrightarrow> x = y"
    using concat_fixed_inj [OF len] order_fields_inj [OF assms] by (auto simp: order_fields_def)
  moreover have "length (concat (order_fields eth x)) = 256"
    using len(1) by (simp add: order_fields_def)
  ultimately show ?thesis by (simp add: HashOrder_def)
qed

text \<open>A go-ethereum stand-in for the witnesses: padding as documented, the rest trivial.\<close>

definition ex_eth :: "address eth" where
  "ex_eth = \<lparr>Keccak256Hash = (\<lambda>bss. take 32 (concat bss)),
     LeftPadBytes = (\<lambda>bs n. replicate (n - length bs) 0 @ bs),
     Ecrecover = (\<lambda>h sig. if sig ! 64 \<le> 1 then Inr (take 20 sig) else Inl ''invalid recovery id''),
     UnmarshalPubkey = Inr, PubkeyToAddress = id, HexToAddress = (\<lambda>s. replicate 20 1), FromHex = (\<lambda>s. [])\<rparr>"

definition ex_order_data :: "int \<Rightarrow> OrderData" where
  "ex_order_data x = \<lparr>odMaker = replicate 20 1, odTokenSell = replicate 20 2, odTokenBuy = replicate 20 3,
     odAmountSell = x, odAmountBuy = 200, odExpiry = 1700000000, odNonce = 0, odSalt = 7\<rparr>"

lemma HashOrder_encoding_injective_witness:
  "concat (order_fields ex_eth (ex_order_data 100)) \<noteq> concat (order_fields ex_eth (ex_order_data 101))"
proof -
  have "left_pad_ok ex_eth" by (simp add: left_pad_ok_def ex_eth_def)
  moreover have "order_data_ok (ex_order_data x)" if "0 \<le> x" "x < 1000" for x
    using that by (simp add: order_data_ok_def ex_order_data_def uint256_def)
  moreover have "ex_order_data 100 \<noteq> ex_order_data 101" by (simp add: ex_order_data_def)
  ultimately show ?thesis using HashOrder_encoding_injective [of ex_eth "ex_order_data 100" "ex_order_data 101"] by simp
qed

text \<open>
  C29: the sign of a number is not signed.  \<open>HashOrder\<close> takes absolute values, so an order hash, and with it
  every signature, covers the orders with any of the amounts, expiry, nonce or salt negated; and
  \<open>VerifyOrderSignature\<close> does not refuse negative numbers.
\<close>

theorem VerifyOrderSignature_ignores_signs:
  "VerifyOrderSignature eth ds (od\<lparr>odAmountSell := - odAmountSell od\<rparr>) sig = VerifyOrderSignature eth ds od sig \<and>
    VerifyOrderSignature eth ds (od\<lparr>odAmountBuy := - odAmountBuy od\<rparr>) sig = VerifyOrderSignature eth ds od sig \<and>
    VerifyOrderSignature eth ds (od\<lparr>odSalt := - odSalt od\<rparr>) sig = VerifyOrderSignature eth ds od sig"
  by (simp add: VerifyOrderSignature_def HashOrder_def order_fields_def big_Bytes_def cong: sum.case_cong)

text \<open>
  C28: an order is accepted exactly when its signature recovers to its maker.  When \<open>RecoverSigner\<close> recovers an
  address from the EIP-712 digest, \<open>VerifyOrderSignature\<close> answers whether it is the maker; a wrong length is
  the same error in both, and an error \<open>RecoverSigner\<close> returns raw is the one \<open>VerifyOrderSignature\<close> wraps,
  by the step that failed.  Both notations of the recovery id, \<open>v\<close> and \<open>v + 27\<close>, give the same verdict.
\<close>

theorem VerifyOrderSignature_recovers:
  "(case RecoverSigner eth (HashTypedData eth (DomainSeparator_Hash eth ds) (HashOrder eth od)) sig of
      Inr a \<Rightarrow> VerifyOrderSignature eth ds od sig = Inr (a = odMaker od)
    | Inl (InvalidLength n) \<Rightarrow> VerifyOrderSignature eth ds od sig = Inl (InvalidLength n)
    | Inl (RawError e) \<Rightarrow> VerifyOrderSignature eth ds od sig = Inl
        (if Ecrecover eth (HashTypedData eth (DomainSeparator_Hash eth ds) (HashOrder eth od)) (adjust_v sig) = Inl e
         then EcrecoverFailed e else UnmarshalFailed e)
    | _ \<Rightarrow> False) \<and>
    (length sig = 65 \<and> v < 27 \<longrightarrow>
      VerifyOrderSignature eth ds od (sig[64 := v + 27]) = VerifyOrderSignature eth ds od (sig[64 := v]))"
proof (rule conjI)
  show "case RecoverSigner eth (HashTypedData eth (DomainSeparator_Hash eth ds) (HashOrder eth od)) sig of
      Inr a \<Rightarrow> VerifyOrderSignature eth ds od sig = Inr (a = odMaker od)
    | Inl (InvalidLength n) \<Rightarrow> VerifyOrderSignature eth ds od sig = Inl (InvalidLength n)
    | Inl (RawError e) \<Rightarrow> VerifyOrderSignature eth ds od sig = Inl
        (if Ecrecover eth (HashTypedData eth (DomainSeparator_Hash eth ds) (HashOrder eth od)) (adjust_v sig) = Inl e
         then EcrecoverFailed e else UnmarshalFailed e)
    | _ \<Rightarrow> False"
    by (simp add: VerifyOrderSignature_def RecoverSigner_def Let_def split: sum.split)
  have "adjust_v (sig[64 := v + 27]) = adjust_v (sig[64 := v])" if "length sig = 65" "v < 27"
  proof -
    have "27 \<le> v + 27" using that(2) by unat_arith simp
    moreover have "\<not> 27 \<le> v" using that(2) by (simp add: not_le)
    ultimately show ?thesis using that(1) by (simp add: adjust_v_def)
  qed
  then show "length sig = 65 \<and> v < 27 \<longrightarrow>
      VerifyOrderSignature eth ds od (sig[64 := v + 27]) = VerifyOrderSignature eth ds od (sig[64 := v])"
    by (auto simp: VerifyOrderSignature_def Let_def)
qed


lemma VerifyOrderSignature_recovers_witness:
  "VerifyOrderSignature ex_eth (NewDomainSeparator 31337 (replicate 20 9)) (ex_order_data 5) (replicate 64 1 @ [28]) =
    VerifyOrderSignature ex_eth (NewDomainSeparator 31337 (replicate 20 9)) (ex_order_data 5) (replicate 64 1 @ [1])"
  using VerifyOrderSignature_recovers [of ex_eth "NewDomainSeparator 31337 (replicate 20 9)" "ex_order_data 5"
      "replicate 64 1 @ [0]" 1]
  by (simp add: list_update_append)

end
