(* ===== verification/Repo.thy ===== *)
theory Repo
  imports Texts Orders
begin

text \<open>
  \<open>internal/repository/postgres\<close>: rows, their conversion from and to domain values, and the operations of
  \<open>OrderRepo\<close> and \<open>TradeRepo\<close>.  The database is not part of the repository: its execution of each SQL
  statement is a field of \<open>sql\<close>, a parameter, and may fail at any time.  \<open>order_store\<close> and
  \<open>trade_store\<close> are the contracts of the statements; theory \<open>Tables\<close> executes them on the schema of
  \<open>migrations/001_init.sql\<close>.
\<close>

section \<open>Rows\<close>

record orderRow =
  rwID :: string
  rwMaker :: string
  rwTokenSell :: string
  rwTokenBuy :: string
  rwAmountSell :: string
  rwAmountBuy :: string
  rwExpiry :: "64 word"
  rwNonce :: "64 word"
  rwSalt :: string
  rwSignature :: string
  rwSide :: string
  rwStatus :: string
  rwFilledBase :: string
  rwPair :: string
  rwCreatedAt :: time
  rwUpdatedAt :: time

record tradeRow =
  twID :: string
  twBuyOrderID :: string
  twSellOrderID :: string
  twBuyer :: string
  twSeller :: string
  twPair :: string
  twBaseAmount :: string
  twQuoteAmount :: string
  twPrice :: xfloat
  twTxHash :: string
  twSettledOnChain :: bool
  twCreatedAt :: time

datatype repo_error =
    SqlError string
  | InvalidField string string

text \<open>\<open>parseBigInt\<close> with the error of the row conversions.\<close>

definition parse_field :: "string \<Rightarrow> string \<Rightarrow> repo_error + int" where
  "parse_field name s = (case parseBigInt s of None \<Rightarrow> Inl (InvalidField name s) | Some x \<Rightarrow> Inr x)"

definition bind_sum :: "'e + 'a \<Rightarrow> ('a \<Rightarrow> 'e + 'b) \<Rightarrow> 'e + 'b" where
  "bind_sum x f = (case x of Inl e \<Rightarrow> Inl e | Inr a \<Rightarrow> f a)"

lemma bind_sum_simps [simp]: "bind_sum (Inl e) f = Inl e" "bind_sum (Inr a) f = f a"
  by (simp_all add: bind_sum_def)

definition rowToOrder :: "orderRow \<Rightarrow> repo_error + Order" where
  "rowToOrder row =
     bind_sum (parse_field ''amount_sell'' (rwAmountSell row)) (\<lambda>amountSell.
     bind_sum (parse_field ''amount_buy'' (rwAmountBuy row)) (\<lambda>amountBuy.
     bind_sum (parse_field ''salt'' (rwSalt row)) (\<lambda>salt.
     bind_sum (parse_field ''filled_base'' (rwFilledBase row)) (\<lambda>filledBase.
       Inr \<lparr>ID = rwID row, Maker = rwMaker row, TokenSell = rwTokenSell row, TokenBuy = rwTokenBuy row,
         AmountSell = amountSell, AmountBuy = amountBuy, Expiry = rwExpiry row, Nonce = rwNonce row,
         Salt = salt, Signature = rwSignature row, Side = rwSide row, Status = rwStatus row,
         FilledBase = filledBase, OPair = rwPair row, CreatedAt = rwCreatedAt row, UpdatedAt = rwUpdatedAt row\<rparr>))))"

fun rowsToOrders :: "orderRow list \<Rightarrow> repo_error + Order list" where
  "rowsToOrders [] = Inr []"
| "rowsToOrders (row # rows) = bind_sum (rowToOrder row) (\<lambda>od. bind_sum (rowsToOrders rows) (\<lambda>ods. Inr (od # ods)))"

definition rowToTrade :: "tradeRow \<Rightarrow> repo_error + Trade" where
  "rowToTrade row =
     bind_sum (parse_field ''base_amount'' (twBaseAmount row)) (\<lambda>baseAmount.
     bind_sum (parse_field ''quote_amount'' (twQuoteAmount row)) (\<lambda>quoteAmount.
       Inr \<lparr>TradeID = twID row, BuyOrderID = twBuyOrderID row, SellOrderID = twSellOrderID row,
         Buyer = twBuyer row, Seller = twSeller row, TPair = twPair row, BaseAmount = baseAmount,
         TQuoteAmount = quoteAmount, TPrice = twPrice row, TxHash = twTxHash row,
         SettledOnChain = twSettledOnChain row, TCreatedAt = twCreatedAt row\<rparr>))"

fun rowsToTrades :: "tradeRow list \<Rightarrow> repo_error + Trade list" where
  "rowsToTrades [] = Inr []"
| "rowsToTrades (row # rows) = bind_sum (rowToTrade row) (\<lambda>t. bind_sum (rowsToTrades rows) (\<lambda>ts. Inr (t # ts)))"

text \<open>The arguments of the two \<open>INSERT\<close> statements.\<close>

definition order_row :: "Order \<Rightarrow> orderRow" where
  "order_row od =
     \<lparr>rwID = ID od, rwMaker = Maker od, rwTokenSell = TokenSell od, rwTokenBuy = TokenBuy od,
      rwAmountSell = big_String (AmountSell od), rwAmountBuy = big_String (AmountBuy od),
      rwExpiry = Expiry od, rwNonce = Nonce od, rwSalt = big_String (Salt od),
      rwSignature = Signature od, rwSide = Side od, rwStatus = Status od,
      rwFilledBase = big_String (FilledBase od), rwPair = OPair od,
      rwCreatedAt = CreatedAt od, rwUpdatedAt = UpdatedAt od\<rparr>"

definition trade_row :: "Trade \<Rightarrow> tradeRow" where
  "trade_row t =
     \<lparr>twID = TradeID t, twBuyOrderID = BuyOrderID t, twSellOrderID = SellOrderID t,
      twBuyer = Buyer t, twSeller = Seller t, twPair = TPair t,
      twBaseAmount = big_String (BaseAmount t), twQuoteAmount = big_String (TQuoteAmount t),
      twPrice = TPrice t, twTxHash = TxHash t, twSettledOnChain = SettledOnChain t,
      twCreatedAt = TCreatedAt t\<rparr>"

section \<open>The database\<close>

text \<open>
  One field per statement of \<open>order_repo.go\<close> and \<open>trade_repo.go\<close>, in their order; \<open>None\<close> is the \<open>nil\<close>
  error.  An update of the database happens on success only as far as the contract says.
\<close>

record 'db sql =
  insert_order :: "orderRow \<Rightarrow> 'db \<Rightarrow> string option \<times> 'db"
  select_order :: "string \<Rightarrow> 'db \<Rightarrow> string + orderRow"
  select_by_maker :: "string \<Rightarrow> 'db \<Rightarrow> string + orderRow list"
  select_open :: "string \<Rightarrow> 'db \<Rightarrow> string + orderRow list"
  update_status :: "string \<Rightarrow> string \<Rightarrow> string \<Rightarrow> 'db \<Rightarrow> string option \<times> 'db"
  insert_trade :: "tradeRow \<Rightarrow> 'db \<Rightarrow> string option \<times> 'db"
  select_trades :: "string \<Rightarrow> int \<Rightarrow> 'db \<Rightarrow> string + tradeRow list"
  mark_settled :: "string \<Rightarrow> string \<Rightarrow> 'db \<Rightarrow> string option \<times> 'db"
  select_unsettled :: "'db \<Rightarrow> string + tradeRow list"

text \<open>The clock and the generator of ids: what the \<open>k\<close>-th reading gives.\<close>

record env =
  time_Now :: "nat \<Rightarrow> time"
  uuid_New :: "nat \<Rightarrow> string"

section \<open>\<open>OrderRepo\<close> and \<open>TradeRepo\<close>\<close>

text \<open>\<open>Create\<close> sets id and times of the order it is given, whether or not the insert succeeds.\<close>

definition OrderRepo_Create ::
  "'db sql \<Rightarrow> env \<Rightarrow> nat \<Rightarrow> Order \<Rightarrow> 'db \<Rightarrow> string option \<times> Order \<times> 'db"
where
  "OrderRepo_Create sql env k od db =
     (let od1 = (if ID od = [] then od\<lparr>ID := uuid_New env k\<rparr> else od);
          now = time_Now env k;
          od2 = od1\<lparr>CreatedAt := now, UpdatedAt := now\<rparr>;
          (err, db') = insert_order sql (order_row od2) db
      in (err, od2, db'))"

definition OrderRepo_GetByID :: "'db sql \<Rightarrow> string \<Rightarrow> 'db \<Rightarrow> repo_error + Order" where
  "OrderRepo_GetByID sql i db = (case select_order sql i db of Inl e \<Rightarrow> Inl (SqlError e) | Inr row \<Rightarrow> rowToOrder row)"

definition OrderRepo_GetByMaker :: "'db sql \<Rightarrow> string \<Rightarrow> 'db \<Rightarrow> repo_error + Order list" where
  "OrderRepo_GetByMaker sql maker db =
     (case select_by_maker sql maker db of Inl e \<Rightarrow> Inl (SqlError e) | Inr rows \<Rightarrow> rowsToOrders rows)"

definition OrderRepo_GetOpenByPair :: "'db sql \<Rightarrow> string \<Rightarrow> 'db \<Rightarrow> repo_error + Order list" where
  "OrderRepo_GetOpenByPair sql p db =
     (case select_open sql p db of Inl e \<Rightarrow> Inl (SqlError e) | Inr rows \<Rightarrow> rowsToOrders rows)"

definition OrderRepo_UpdateStatus ::
  "'db sql \<Rightarrow> string \<Rightarrow> OrderStatus \<Rightarrow> string \<Rightarrow> 'db \<Rightarrow> string option \<times> 'db"
where
  "OrderRepo_UpdateStatus sql i status filledBase db = update_status sql status filledBase i db"

definition TradeRepo_Create ::
  "'db sql \<Rightarrow> env \<Rightarrow> nat \<Rightarrow> Trade \<Rightarrow> 'db \<Rightarrow> string option \<times> Trade \<times> 'db"
where
  "TradeRepo_Create sql env k t db =
     (let t1 = (if TradeID t = [] then t\<lparr>TradeID := uuid_New env k\<rparr> else t);
          t2 = t1\<lparr>TCreatedAt := time_Now env k\<rparr>;
          (err, db') = insert_trade sql (trade_row t2) db
      in (err, t2, db'))"

definition TradeRepo_GetByPair :: "'db sql \<Rightarrow> string \<Rightarrow> int \<Rightarrow> 'db \<Rightarrow> repo_error + Trade list" where
  "TradeRepo_GetByPair sql p limit db =
     (case select_trades sql p limit db of Inl e \<Rightarrow> Inl (SqlError e) | Inr rows \<Rightarrow> rowsToTrades rows)"

definition TradeRepo_MarkSettled :: "'db sql \<Rightarrow> string \<Rightarrow> string \<Rightarrow> 'db \<Rightarrow> string option \<times> 'db" where
  "TradeRepo_MarkSettled sql i txHash db = mark_settled sql txHash i db"

definition TradeRepo_GetUnsettled :: "'db sql \<Rightarrow> 'db \<Rightarrow> repo_error + Trade list" where
  "TradeRepo_GetUnsettled sql db =
     (case select_unsettled sql db of Inl e \<Rightarrow> Inl (SqlError e) | Inr rows \<Rightarrow> rowsToTrades rows)"

section \<open>Rows and values\<close>

lemma rowToOrder_row [simp]: "rowToOrder (order_row od) = Inr od"
  by (simp add: rowToOrder_def order_row_def parse_field_def)

lemma rowToTrade_row [simp]: "rowToTrade (trade_row t) = Inr t"
  by (simp add: rowToTrade_def trade_row_def parse_field_def)

lemma rowsToOrders_rows [simp]: "rowsToOrders (map order_row ods) = Inr ods"
  by (induction ods) simp_all

lemma rowsToOrders_inv:
  "\<forall>r \<in> set rows. \<exists>od. r = order_row od \<Longrightarrow> rowsToOrders rows = Inr ods \<Longrightarrow> rows = map order_row ods"
proof (induction rows arbitrary: ods)
  case (Cons r rows)
  then obtain od where od: "r = order_row od" by auto
  then show ?case using Cons by (cases "rowsToOrders rows") auto
qed simp

lemma rowsToTrades_rows [simp]: "rowsToTrades (map trade_row ts) = Inr ts"
  by (induction ts) simp_all

lemma order_row_sel [simp]:
  "rwID (order_row od) = ID od" "rwPair (order_row od) = OPair od" "rwStatus (order_row od) = Status od"
  "rwCreatedAt (order_row od) = CreatedAt od" "rwMaker (order_row od) = Maker od" "rwSide (order_row od) = Side od"
  by (simp_all add: order_row_def)

lemma order_row_upd:
  "(order_row od)\<lparr>rwStatus := st, rwFilledBase := big_String n, rwUpdatedAt := t\<rparr> =
    order_row (od\<lparr>Status := st, FilledBase := n, UpdatedAt := t\<rparr>)"
  by (simp add: order_row_def)

text \<open>
  A row that does not parse is an error, never a wrong order.  When \<open>rowToOrder\<close> succeeds, its order's
  numbers are what the texts of the row denote, and a batch read fails as a whole exactly when one of its
  rows does.
\<close>

theorem rowToOrder_sound:
  "(\<forall>od. rowToOrder row = Inr od \<longrightarrow>
      parseBigInt (rwAmountSell row) = Some (AmountSell od) \<and> parseBigInt (rwAmountBuy row) = Some (AmountBuy od) \<and>
      parseBigInt (rwSalt row) = Some (Salt od) \<and> parseBigInt (rwFilledBase row) = Some (FilledBase od) \<and>
      ID od = rwID row \<and> Status od = rwStatus row \<and> Expiry od = rwExpiry row) \<and>
    ((\<exists>e. rowsToOrders rows = Inl e) \<longleftrightarrow> (\<exists>r \<in> set rows. \<exists>e. rowToOrder r = Inl e))"
proof
  show "\<forall>od. rowToOrder row = Inr od \<longrightarrow>
      parseBigInt (rwAmountSell row) = Some (AmountSell od) \<and> parseBigInt (rwAmountBuy row) = Some (AmountBuy od) \<and>
      parseBigInt (rwSalt row) = Some (Salt od) \<and> parseBigInt (rwFilledBase row) = Some (FilledBase od) \<and>
      ID od = rwID row \<and> Status od = rwStatus row \<and> Expiry od = rwExpiry row"
    by (auto simp: rowToOrder_def parse_field_def bind_sum_def split: option.splits sum.splits)
  show "(\<exists>e. rowsToOrders rows = Inl e) \<longleftrightarrow> (\<exists>r \<in> set rows. \<exists>e. rowToOrder r = Inl e)"
  proof (induction rows)
    case (Cons r rows)
    then show ?case
      by (cases "rowToOrder r"; cases "rowsToOrders rows") auto
  qed simp
qed


definition ex_bad_row :: orderRow where
  "ex_bad_row = \<lparr>rwID = ''a'', rwMaker = ''m'', rwTokenSell = ''s'', rwTokenBuy = ''b'', rwAmountSell = ''5'', rwAmountBuy = ''7'',
     rwExpiry = 0, rwNonce = 0, rwSalt = ''12x'', rwSignature = ''0x'', rwSide = SideBuy, rwStatus = OrderStatusOpen,
     rwFilledBase = ''0'', rwPair = ''P'', rwCreatedAt = 0, rwUpdatedAt = 0\<rparr>"

lemma rowToOrder_sound_witness:
  "(\<exists>e. rowsToOrders [ex_bad_row\<lparr>rwSalt := ''12''\<rparr>, ex_bad_row] = Inl e) \<and>
    (\<exists>od. rowToOrder (ex_bad_row\<lparr>rwSalt := ''12''\<rparr>) = Inr od \<and> parseBigInt ''12'' = Some (Salt od))"
proof -
  have bad: "\<exists>e. rowToOrder ex_bad_row = Inl e"
  proof (cases "rowToOrder ex_bad_row")
    case (Inr od)
    moreover have "parseBigInt ''12x'' = None" by (simp add: parseBigInt_def scan_nat_def digit_val_def)
    ultimately show ?thesis using rowToOrder_sound [of ex_bad_row "[]"] by (simp add: ex_bad_row_def)
  qed simp
  have "rowToOrder (ex_bad_row\<lparr>rwSalt := ''12''\<rparr>) \<noteq> Inl e" for e
    by (simp add: rowToOrder_def ex_bad_row_def parse_field_def parseBigInt_def scan_nat_def digit_val_def)
  then obtain od where od: "rowToOrder (ex_bad_row\<lparr>rwSalt := ''12''\<rparr>) = Inr od"
    by (cases "rowToOrder (ex_bad_row\<lparr>rwSalt := ''12''\<rparr>)") blast+
  then have "parseBigInt ''12'' = Some (Salt od)"
    using rowToOrder_sound [of "ex_bad_row\<lparr>rwSalt := ''12''\<rparr>" "[]"] by simp
  then show ?thesis using od bad rowToOrder_sound [of ex_bad_row "[ex_bad_row\<lparr>rwSalt := ''12''\<rparr>, ex_bad_row]"] by auto
qed

section \<open>The contracts of the statements\<close>

text \<open>
  \<open>rows\<close> is the content of table \<open>orders\<close>; \<open>stamp\<close> is the precision of its timestamps (the driver and the
  column round the clock's nanoseconds); \<open>good\<close> is what the schema guarantees.  Every statement may fail
  and then changes nothing.
\<close>

definition stored :: "(time \<Rightarrow> time) \<Rightarrow> Order \<Rightarrow> Order" where
  "stored stamp od = od\<lparr>CreatedAt := stamp (CreatedAt od), UpdatedAt := stamp (UpdatedAt od)\<rparr>"

definition is_open :: "string \<Rightarrow> orderRow \<Rightarrow> bool" where
  "is_open p row \<longleftrightarrow> rwPair row = p \<and> (rwStatus row = OrderStatusOpen \<or> rwStatus row = OrderStatusPartiallyFilled)"

definition set_status :: "string \<Rightarrow> string \<Rightarrow> string \<Rightarrow> time \<Rightarrow> orderRow \<Rightarrow> orderRow" where
  "set_status i st f t row =
     (if rwID row = i then row\<lparr>rwStatus := st, rwFilledBase := f, rwUpdatedAt := t\<rparr> else row)"

locale order_store =
  fixes sql :: "'db sql"
    and rows :: "'db \<Rightarrow> orderRow list"
    and stamp :: "time \<Rightarrow> time"
    and good :: "'db \<Rightarrow> bool"
  assumes stamp_mono: "x \<le> y \<Longrightarrow> stamp x \<le> stamp y"
    and insert_ok: "good db \<Longrightarrow> insert_order sql (order_row od) db = (None, db') \<Longrightarrow>
      rows db' = rows db @ [order_row (stored stamp od)] \<and> good db'"
    and insert_fail: "good db \<Longrightarrow> insert_order sql (order_row od) db = (Some e, db') \<Longrightarrow> rows db' = rows db \<and> good db'"
    and select_ok: "good db \<Longrightarrow> select_order sql i db = Inr r \<Longrightarrow> r \<in> set (rows db) \<and> rwID r = i"
    and open_ok: "good db \<Longrightarrow> select_open sql p db = Inr rs \<Longrightarrow>
      mset rs = mset (filter (is_open p) (rows db)) \<and> sorted (map rwCreatedAt rs)"
    and update_ok: "good db \<Longrightarrow> update_status sql st (big_String n) i db = (None, db') \<Longrightarrow>
      good db' \<and> (\<exists>t. rows db' = map (set_status i st (big_String n) t) (rows db))"
    and update_fail: "good db \<Longrightarrow> update_status sql st f i db = (Some e, db') \<Longrightarrow> rows db' = rows db \<and> good db'"
    and unique: "good db \<Longrightarrow> distinct (map rwID (rows db))"
begin

lemma create_then_get:
  assumes "good db" "OrderRepo_Create sql env k od db = (None, od', db')" "OrderRepo_GetByID sql (ID od') db' = Inr od''"
  shows "od'' = stored stamp od'"
proof -
  have ins: "insert_order sql (order_row od') db = (None, db')"
    using assms(2) by (auto simp: OrderRepo_Create_def Let_def split: prod.splits)
  note ok = insert_ok [OF assms(1) ins]
  obtain r where r: "select_order sql (ID od') db' = Inr r" "rowToOrder r = Inr od''"
    using assms(3) by (auto simp: OrderRepo_GetByID_def split: sum.splits)
  have sel: "r \<in> set (rows db')" "rwID r = ID od'" using select_ok [OF conjunct2 [OF ok] r(1)] by auto
  have "order_row (stored stamp od') \<in> set (rows db')" using ok by simp
  moreover have "rwID (order_row (stored stamp od')) = ID od'" by (simp add: stored_def)
  moreover have "inj_on rwID (set (rows db'))" using unique [OF conjunct2 [OF ok]] by (simp only: distinct_map)
  ultimately have "r = order_row (stored stamp od')" using sel by (metis inj_onD)
  then show ?thesis using r(2) by simp
qed

lemma rows_update_status:
  assumes "good db" "OrderRepo_UpdateStatus sql i st (big_String n) db = (err, db')"
  shows "good db'" "err \<noteq> None \<Longrightarrow> rows db' = rows db"
    "err = None \<Longrightarrow> \<exists>t. rows db' = map (set_status i st (big_String n) t) (rows db)"
proof -
  have u: "update_status sql st (big_String n) i db = (err, db')" using assms(2) by (simp add: OrderRepo_UpdateStatus_def)
  show "good db'"
    using update_ok [OF assms(1)] update_fail [OF assms(1)] u by (cases err) blast+
  show "rows db' = rows db" if "err \<noteq> None"
    using update_fail [OF assms(1)] u that by (cases err) blast+
  show "\<exists>t. rows db' = map (set_status i st (big_String n) t) (rows db)" if "err = None"
    using update_ok [OF assms(1)] u that by blast
qed

lemma open_orders:
  assumes "good db" "OrderRepo_GetOpenByPair sql p db = Inr ods" "rows db = map order_row all"
  shows "mset ods = filter_mset (\<lambda>od. is_open p (order_row od)) (mset all)" "sorted (map CreatedAt ods)"
proof -
  obtain rs where rs: "select_open sql p db = Inr rs" "rowsToOrders rs = Inr ods"
    using assms(2) by (auto simp: OrderRepo_GetOpenByPair_def split: sum.splits)
  note ok = open_ok [OF assms(1) rs(1)]
  let ?A = "filter_mset (\<lambda>od. is_open p (order_row od)) (mset all)"
  have m: "mset rs = image_mset order_row ?A"
    using ok by (simp add: assms(3) filter_map comp_def flip: mset_filter)
  then have "set rs = order_row ` set_mset ?A" by (metis set_image_mset set_mset_mset)
  then have "\<forall>r \<in> set rs. \<exists>od. r = order_row od" by blast
  from rowsToOrders_inv [OF this rs(2)] have os: "rs = map order_row ods" .
  have "image_mset (\<lambda>r. projr (rowToOrder r)) (mset rs) = ?A" by (simp add: m multiset.map_comp comp_def)
  moreover have "image_mset (\<lambda>r. projr (rowToOrder r)) (mset rs) = mset ods"
    by (simp add: os multiset.map_comp comp_def)
  ultimately show "mset ods = ?A" by simp
  show "sorted (map CreatedAt ods)" using conjunct2 [OF ok] by (simp add: os comp_def)
qed

end

text \<open>Table \<open>trades\<close> beside table \<open>orders\<close>; its statements leave the orders alone.\<close>

locale trade_store = order_store +
  fixes trades :: "'a \<Rightarrow> tradeRow list"
  assumes insert_trade_ok: "good db \<Longrightarrow> insert_trade sql (trade_row t) db = (None, db') \<Longrightarrow>
      trades db' = trades db @ [trade_row (t\<lparr>TCreatedAt := stamp (TCreatedAt t)\<rparr>)] \<and> rows db' = rows db \<and> good db'"
    and insert_trade_fail: "good db \<Longrightarrow> insert_trade sql (trade_row t) db = (Some e, db') \<Longrightarrow>
      trades db' = trades db \<and> rows db' = rows db \<and> good db'"
    and update_trades: "good db \<Longrightarrow> update_status sql st f i db = (err, db') \<Longrightarrow> trades db' = trades db"
    and insert_order_trades: "good db \<Longrightarrow> insert_order sql r db = (err, db') \<Longrightarrow> trades db' = trades db"
    and settled_ok: "good db \<Longrightarrow> mark_settled sql tx i db = (None, db') \<Longrightarrow>
      trades db' = map (\<lambda>r. if twID r = i then r\<lparr>twSettledOnChain := True, twTxHash := tx\<rparr> else r) (trades db) \<and>
      rows db' = rows db \<and> good db'"
    and settled_fail: "good db \<Longrightarrow> mark_settled sql tx i db = (Some e, db') \<Longrightarrow>
      trades db' = trades db \<and> rows db' = rows db \<and> good db'"
    and unsettled_ok: "good db \<Longrightarrow> select_unsettled sql db = Inr rs \<Longrightarrow>
      mset rs = mset (filter (\<lambda>r. \<not> twSettledOnChain r) (trades db)) \<and> sorted (map twCreatedAt rs)"
begin

lemma settled_leaves_unsettled:
  assumes "good db" "TradeRepo_MarkSettled sql i tx db = (None, db')" "select_unsettled sql db' = Inr rs"
  shows "\<forall>r \<in> set rs. twID r \<noteq> i"
proof -
  have m: "mark_settled sql tx i db = (None, db')" using assms(2) by (simp add: TradeRepo_MarkSettled_def)
  have t: "trades db' = map (\<lambda>r. if twID r = i then r\<lparr>twSettledOnChain := True, twTxHash := tx\<rparr> else r) (trades db)"
    and g: "good db'" using settled_ok [OF assms(1) m] by blast+
  have "mset rs = mset (filter (\<lambda>r. \<not> twSettledOnChain r) (trades db'))"
    using unsettled_ok [OF g assms(3)] by blast
  then have "set rs = set (filter (\<lambda>r. \<not> twSettledOnChain r) (trades db'))" by (metis set_mset_mset)
  then have rs: "r \<in> set (trades db')" "\<not> twSettledOnChain r" if "r \<in> set rs" for r using that by auto
  show ?thesis
  proof
    fix r assume r: "r \<in> set rs"
    from rs(1) [OF r] obtain r0 where "r = (if twID r0 = i then r0\<lparr>twSettledOnChain := True, twTxHash := tx\<rparr> else r0)"
      unfolding t set_map by blast
    then show "twID r \<noteq> i" using rs(2) [OF r] by (cases "twID r0 = i") simp_all
  qed
qed

end

end
