(* ===== verification/Tables.thy ===== *)
theory Tables
  imports Repo
begin

text \<open>
  The schema of \<open>migrations/001_init.sql\<close> and the statements of the repositories executed on it: two
  tables with their primary keys, checks, column ranges and the references of \<open>trades\<close>.  Timestamps are
  nanoseconds in Go and microseconds in a \<open>TIMESTAMPTZ\<close> column; \<open>NOW()\<close> is the field \<open>tNow\<close>.  Where SQL
  leaves the order of equal timestamps open, rows stay in insertion order.  Texts are valid UTF-8 without
  a NUL character; PostgreSQL refuses any other.
\<close>

record tables =
  tOrders :: "orderRow list"
  tTrades :: "tradeRow list"
  tNow :: time

text \<open>PostgreSQL rounds to the nearest microsecond, a tie to the even one.\<close>

definition micros :: "time \<Rightarrow> time" where
  "micros t =
     (let q = t div 1000; r = t mod 1000
      in (if 500 < r \<or> r = 500 \<and> odd q then q + 1 else q) * 1000)"

text \<open>\<open>NUMERIC(78,0)\<close> and \<open>BIGINT\<close>: a \<open>uint64\<close> argument with its top bit set is refused.\<close>

definition numeric_ok :: "string \<Rightarrow> bool" where
  "numeric_ok s = (case parseBigInt s of None \<Rightarrow> False | Some x \<Rightarrow> \<bar>x\<bar> < 10 ^ 78)"

definition numeric :: "string \<Rightarrow> string" where
  "numeric s = big_String (the (parseBigInt s))"

definition bigint_ok :: "64 word \<Rightarrow> bool" where
  "bigint_ok w \<longleftrightarrow> unat w < 2 ^ 63"

definition side_check :: "string \<Rightarrow> bool" where
  "side_check s \<longleftrightarrow> s = ''buy'' \<or> s = ''sell''"

definition status_check :: "string \<Rightarrow> bool" where
  "status_check s \<longleftrightarrow> s = ''open'' \<or> s = ''partially_filled'' \<or> s = ''filled'' \<or> s = ''cancelled''"

definition order_check :: "orderRow \<Rightarrow> tables \<Rightarrow> string option" where
  "order_check r db =
     (if \<not> bigint_ok (rwExpiry r) \<or> \<not> bigint_ok (rwNonce r) then Some ''value out of range for bigint''
      else if \<not> numeric_ok (rwAmountSell r) \<or> \<not> numeric_ok (rwAmountBuy r) \<or> \<not> numeric_ok (rwSalt r) \<or>
         \<not> numeric_ok (rwFilledBase r) then Some ''numeric field overflow''
      else if \<not> side_check (rwSide r) then Some ''violates check constraint orders_side_check''
      else if \<not> status_check (rwStatus r) then Some ''violates check constraint orders_status_check''
      else if rwID r \<in> rwID ` set (tOrders db) then Some ''duplicate key value violates orders_pkey''
      else None)"

definition t_insert_order :: "orderRow \<Rightarrow> tables \<Rightarrow> string option \<times> tables" where
  "t_insert_order r db =
     (case order_check r db of
        Some e \<Rightarrow> (Some e, db)
      | None \<Rightarrow> (None, db\<lparr>tOrders := tOrders db @
          [r\<lparr>rwAmountSell := numeric (rwAmountSell r), rwAmountBuy := numeric (rwAmountBuy r),
             rwSalt := numeric (rwSalt r), rwFilledBase := numeric (rwFilledBase r),
             rwCreatedAt := micros (rwCreatedAt r), rwUpdatedAt := micros (rwUpdatedAt r)\<rparr>]\<rparr>))"

definition t_select_order :: "string \<Rightarrow> tables \<Rightarrow> string + orderRow" where
  "t_select_order i db =
     (case List.find (\<lambda>r. rwID r = i) (tOrders db) of None \<Rightarrow> Inl ''sql: no rows in result set'' | Some r \<Rightarrow> Inr r)"

definition t_select_by_maker :: "string \<Rightarrow> tables \<Rightarrow> string + orderRow list" where
  "t_select_by_maker m db = Inr (rev (sort_key rwCreatedAt (filter (\<lambda>r. rwMaker r = m) (tOrders db))))"

definition t_select_open :: "string \<Rightarrow> tables \<Rightarrow> string + orderRow list" where
  "t_select_open p db =
     Inr (sort_key rwCreatedAt
       (filter (\<lambda>r. rwPair r = p \<and> (rwStatus r = ''open'' \<or> rwStatus r = ''partially_filled'')) (tOrders db)))"

definition t_update_status :: "string \<Rightarrow> string \<Rightarrow> string \<Rightarrow> tables \<Rightarrow> string option \<times> tables" where
  "t_update_status st f i db =
     (if \<not> numeric_ok f then (Some ''numeric field overflow'', db)
      else if \<not> status_check st then (Some ''violates check constraint orders_status_check'', db)
      else (None, db\<lparr>tOrders := map (set_status i st (numeric f) (micros (tNow db))) (tOrders db)\<rparr>))"

definition trade_check :: "tradeRow \<Rightarrow> tables \<Rightarrow> string option" where
  "trade_check r db =
     (if \<not> numeric_ok (twBaseAmount r) \<or> \<not> numeric_ok (twQuoteAmount r) then Some ''numeric field overflow''
      else if twBuyOrderID r \<notin> rwID ` set (tOrders db) \<or> twSellOrderID r \<notin> rwID ` set (tOrders db)
        then Some ''violates foreign key constraint''
      else if twID r \<in> twID ` set (tTrades db) then Some ''duplicate key value violates trades_pkey''
      else None)"

definition t_insert_trade :: "tradeRow \<Rightarrow> tables \<Rightarrow> string option \<times> tables" where
  "t_insert_trade r db =
     (case trade_check r db of
        Some e \<Rightarrow> (Some e, db)
      | None \<Rightarrow> (None, db\<lparr>tTrades := tTrades db @
          [r\<lparr>twBaseAmount := numeric (twBaseAmount r), twQuoteAmount := numeric (twQuoteAmount r),
             twCreatedAt := micros (twCreatedAt r)\<rparr>]\<rparr>))"

definition t_select_trades :: "string \<Rightarrow> int \<Rightarrow> tables \<Rightarrow> string + tradeRow list" where
  "t_select_trades p limit db =
     (if limit < 0 then Inl ''LIMIT must not be negative''
      else Inr (take (nat limit) (rev (sort_key twCreatedAt (filter (\<lambda>r. twPair r = p) (tTrades db))))))"

definition t_mark_settled :: "string \<Rightarrow> string \<Rightarrow> tables \<Rightarrow> string option \<times> tables" where
  "t_mark_settled tx i db =
     (None, db\<lparr>tTrades := map (\<lambda>r. if twID r = i then r\<lparr>twSettledOnChain := True, twTxHash := tx\<rparr> else r) (tTrades db)\<rparr>)"

definition t_select_unsettled :: "tables \<Rightarrow> string + tradeRow list" where
  "t_select_unsettled db = Inr (sort_key twCreatedAt (filter (\<lambda>r. \<not> twSettledOnChain r) (tTrades db)))"

definition pg :: "tables sql" where
  "pg = \<lparr>insert_order = t_insert_order, select_order = t_select_order, select_by_maker = t_select_by_maker,
     select_open = t_select_open, update_status = t_update_status, insert_trade = t_insert_trade,
     select_trades = t_select_trades, mark_settled = t_mark_settled, select_unsettled = t_select_unsettled\<rparr>"

definition tables_ok :: "tables \<Rightarrow> bool" where
  "tables_ok db \<longleftrightarrow> distinct (map rwID (tOrders db))"

lemma micros_bounds: "t div 1000 * 1000 \<le> micros t" "micros t \<le> (t div 1000 + 1) * 1000"
  by (simp_all add: micros_def Let_def)

lemma micros_mono:
  assumes "x \<le> y"
  shows "micros x \<le> micros y"
proof (cases "x div 1000 = y div 1000")
  case True
  moreover have "x mod 1000 \<le> y mod 1000" using assms True mult_div_mod_eq [of 1000 x] mult_div_mod_eq [of 1000 y] by linarith
  ultimately show ?thesis by (auto simp: micros_def Let_def)
next
  case False
  then have "x div 1000 + 1 \<le> y div 1000" using zdiv_mono1 [OF assms, of 1000] by simp
  then have "(x div 1000 + 1) * 1000 \<le> y div 1000 * 1000" by (rule mult_right_mono) simp
  then show ?thesis using micros_bounds(2) [of x] micros_bounds(1) [of y] by linarith
qed

lemma numeric_big_String [simp]: "numeric (big_String x) = big_String x"
  by (simp add: numeric_def)

lemma order_row_stored:
  "(order_row od)\<lparr>rwAmountSell := numeric (rwAmountSell (order_row od)), rwAmountBuy := numeric (rwAmountBuy (order_row od)),
     rwSalt := numeric (rwSalt (order_row od)), rwFilledBase := numeric (rwFilledBase (order_row od)),
     rwCreatedAt := micros (rwCreatedAt (order_row od)), rwUpdatedAt := micros (rwUpdatedAt (order_row od))\<rparr> =
   order_row (stored micros od)"
  by (simp add: order_row_def stored_def)

lemma trade_row_stored:
  "(trade_row t)\<lparr>twBaseAmount := numeric (twBaseAmount (trade_row t)), twQuoteAmount := numeric (twQuoteAmount (trade_row t)),
     twCreatedAt := micros (twCreatedAt (trade_row t))\<rparr> = trade_row (t\<lparr>TCreatedAt := micros (TCreatedAt t)\<rparr>)"
  by (simp add: trade_row_def)

lemma rwID_set_status [simp]: "rwID (set_status i st f t r) = rwID r"
  by (simp add: set_status_def)

lemma order_check_fresh: "order_check r db = None \<Longrightarrow> rwID r \<notin> rwID ` set (tOrders db)"
  by (auto simp: order_check_def split: if_splits)

text \<open>The schema's tables keep the contracts.\<close>

interpretation tab: trade_store pg tOrders micros tables_ok tTrades
proof (unfold_locales, goal_cases)
  case (1 x y)
  then show ?case by (rule micros_mono)
next
  case (2 db od db')
  then have c: "order_check (order_row od) db = None" and db': "db' = db\<lparr>tOrders := tOrders db @ [order_row (stored micros od)]\<rparr>"
    using order_row_stored [of od] by (auto simp: pg_def t_insert_order_def split: option.splits)
  have "rwID (order_row (stored micros od)) = rwID (order_row od)" by (simp add: stored_def)
  then show ?case using 2 order_check_fresh [OF c] by (simp add: db' tables_ok_def)
next
  case (3 db od e db')
  then show ?case by (auto simp: pg_def t_insert_order_def split: option.splits)
next
  case (4 db i r)
  then show ?case by (auto simp: pg_def t_select_order_def find_Some_iff split: option.splits)
next
  case (5 db p rs)
  then show ?case
    by (auto simp: pg_def t_select_open_def is_open_def [abs_def] OrderStatusOpen_def OrderStatusPartiallyFilled_def)
next
  case (6 db st n i db')
  then have "db' = db\<lparr>tOrders := map (set_status i st (big_String n) (micros (tNow db))) (tOrders db)\<rparr>"
    by (auto simp: pg_def t_update_status_def split: if_splits)
  then show ?case using 6 by (auto simp: tables_ok_def comp_def)
next
  case (7 db st f i e db')
  then show ?case by (auto simp: pg_def t_update_status_def split: if_splits)
next
  case (8 db)
  then show ?case by (simp add: tables_ok_def)
next
  case (9 db t db')
  then show ?case
    using trade_row_stored [of t] by (auto simp: pg_def t_insert_trade_def tables_ok_def split: option.splits)
next
  case (10 db t e db')
  then show ?case by (auto simp: pg_def t_insert_trade_def split: option.splits)
next
  case (11 db st f i err db')
  then show ?case by (auto simp: pg_def t_update_status_def split: if_splits)
next
  case (12 db r err db')
  then show ?case by (auto simp: pg_def t_insert_order_def split: option.splits)
next
  case (13 db tx i db')
  then show ?case by (auto simp: pg_def t_mark_settled_def tables_ok_def)
next
  case (14 db tx i e db')
  then show ?case by (simp add: pg_def t_mark_settled_def)
next
  case (15 db rs)
  then show ?case by (auto simp: pg_def t_select_unsettled_def)
qed

lemma insert_order_pg:
  "insert_order pg (order_row od) db =
    (case order_check (order_row od) db of
       Some e \<Rightarrow> (Some e, db)
     | None \<Rightarrow> (None, db\<lparr>tOrders := tOrders db @ [order_row (stored micros od)]\<rparr>))"
  using order_row_stored [of od] by (simp add: pg_def t_insert_order_def split: option.splits)

section \<open>What the tables accept and give back\<close>

lemma if_Some_None: "(if b then Some x else y) = None \<longleftrightarrow> \<not> b \<and> y = None"
  by simp

lemma order_check_None:
  "order_check r db = None \<longleftrightarrow> bigint_ok (rwExpiry r) \<and> bigint_ok (rwNonce r) \<and> numeric_ok (rwAmountSell r) \<and>
     numeric_ok (rwAmountBuy r) \<and> numeric_ok (rwSalt r) \<and> numeric_ok (rwFilledBase r) \<and> side_check (rwSide r) \<and>
     status_check (rwStatus r) \<and> rwID r \<notin> rwID ` set (tOrders db)"
  unfolding order_check_def if_Some_None by blast

text \<open>
  C31: the rows the schema accepts.  \<open>Create\<close> succeeds exactly on orders whose numbers have at most 78
  decimal digits, whose expiry and nonce fit a signed \<open>BIGINT\<close> (half of the \<open>uint64\<close> range), whose side
  and status are declared ones, and whose id is new; otherwise the tables do not change.
\<close>

theorem OrderRepo_Create_accepts:
  "if unat (Expiry od) < 2 ^ 63 \<and> unat (Nonce od) < 2 ^ 63 \<and> \<bar>AmountSell od\<bar> < 10 ^ 78 \<and> \<bar>AmountBuy od\<bar> < 10 ^ 78 \<and>
      \<bar>Salt od\<bar> < 10 ^ 78 \<and> \<bar>FilledBase od\<bar> < 10 ^ 78 \<and> (Side od = SideBuy \<or> Side od = SideSell) \<and>
      (Status od = OrderStatusOpen \<or> Status od = OrderStatusPartiallyFilled \<or> Status od = OrderStatusFilled \<or>
        Status od = OrderStatusCancelled) \<and>
      (if ID od = [] then uuid_New env k else ID od) \<notin> rwID ` set (tOrders db)
    then fst (OrderRepo_Create pg env k od db) = None
    else fst (OrderRepo_Create pg env k od db) \<noteq> None \<and> snd (snd (OrderRepo_Create pg env k od db)) = db"
proof -
  have num: "numeric_ok (big_String x) \<longleftrightarrow> \<bar>x\<bar> < 10 ^ 78" for x by (simp add: numeric_ok_def)
  let ?i = "if ID od = [] then uuid_New env k else ID od"
  let ?od = "(if ID od = [] then od\<lparr>ID := uuid_New env k\<rparr> else od)\<lparr>CreatedAt := time_Now env k, UpdatedAt := time_Now env k\<rparr>"
  have sel: "ID ?od = ?i" "AmountSell ?od = AmountSell od" "AmountBuy ?od = AmountBuy od" "Salt ?od = Salt od"
    "FilledBase ?od = FilledBase od" "Expiry ?od = Expiry od" "Nonce ?od = Nonce od" "Side ?od = Side od" "Status ?od = Status od"
    by simp_all
  have "order_check (order_row ?od) db = None \<longleftrightarrow>
      unat (Expiry od) < 2 ^ 63 \<and> unat (Nonce od) < 2 ^ 63 \<and> \<bar>AmountSell od\<bar> < 10 ^ 78 \<and> \<bar>AmountBuy od\<bar> < 10 ^ 78 \<and>
      \<bar>Salt od\<bar> < 10 ^ 78 \<and> \<bar>FilledBase od\<bar> < 10 ^ 78 \<and> (Side od = SideBuy \<or> Side od = SideSell) \<and>
      (Status od = OrderStatusOpen \<or> Status od = OrderStatusPartiallyFilled \<or> Status od = OrderStatusFilled \<or>
        Status od = OrderStatusCancelled) \<and> ?i \<notin> rwID ` set (tOrders db)"
    unfolding order_check_None order_row_def orderRow.select_convs sel num bigint_ok_def side_check_def status_check_def
      side_defs status_defs by (simp only: conj_assoc)
  moreover have "OrderRepo_Create pg env k od db =
    (case order_check (order_row ?od) db of
       Some e \<Rightarrow> (Some e, ?od, db)
     | None \<Rightarrow> (None, ?od, db\<lparr>tOrders := tOrders db @ [order_row (stored micros ?od)]\<rparr>))"
    unfolding OrderRepo_Create_def Let_def insert_order_pg
    by (cases "order_check (order_row ?od) db") (simp_all only: option.case prod.case)
  ultimately show ?thesis
    by (cases "order_check (order_row ?od) db") (simp_all only: option.case fst_conv snd_conv if_split simp_thms option.distinct, auto)
qed

definition ex_row_order :: "64 word \<Rightarrow> Order" where
  "ex_row_order expiry = \<lparr>ID = ''a'', Maker = ''m'', TokenSell = ''s'', TokenBuy = ''b'', AmountSell = 5, AmountBuy = 7,
     Expiry = expiry, Nonce = 0, Salt = 1, Signature = ''0x'', Side = SideBuy, Status = OrderStatusOpen, FilledBase = 0,
     OPair = ''P'', CreatedAt = 1234567, UpdatedAt = 1234567\<rparr>"

definition ex_clock :: env where
  "ex_clock = \<lparr>time_Now = (\<lambda>k. 1234567), uuid_New = (\<lambda>k. ''u'')\<rparr>"

definition ex_tables :: tables where
  "ex_tables = \<lparr>tOrders = [], tTrades = [], tNow = 0\<rparr>"

lemma OrderRepo_Create_accepts_witness:
  "fst (OrderRepo_Create pg ex_clock 0 (ex_row_order (2 ^ 63)) ex_tables) \<noteq> None"
proof -
  have c: "\<not> unat (Expiry (ex_row_order (2 ^ 63))) < 2 ^ 63" by (simp add: ex_row_order_def)
  show ?thesis
    using OrderRepo_Create_accepts [of "ex_row_order (2 ^ 63)" ex_clock 0 ex_tables] by (simp only: c simp_thms if_False)
qed

text \<open>
  C30: an order that was created reads back by its id as it was, but for its times, which come back in
  microseconds; the other orders read as before.
\<close>

theorem Create_then_GetByID:
  assumes "tables_ok db" "OrderRepo_Create pg env k od db = (None, od', db')"
  shows "OrderRepo_GetByID pg (ID od') db' = Inr (stored micros od') \<and>
    (\<forall>i. i = ID od' \<or> OrderRepo_GetByID pg i db' = OrderRepo_GetByID pg i db)"
proof -
  have ins: "insert_order pg (order_row od') db = (None, db')"
    using assms(2) by (auto simp: OrderRepo_Create_def Let_def split: prod.splits)
  have rows: "tOrders db' = tOrders db @ [order_row (stored micros od')]" and ok: "tables_ok db'"
    using tab.insert_ok [OF assms(1) ins] by blast+
  have id: "rwID (order_row (stored micros od')) = ID od'" by (simp add: stored_def)
  have app: "List.find P (xs @ ys) = (case List.find P xs of None \<Rightarrow> List.find P ys | Some x \<Rightarrow> Some x)" for P :: "orderRow \<Rightarrow> bool" and xs ys
    by (induction xs) simp_all
  have "ID od' \<notin> rwID ` set (tOrders db)" using ok id by (simp add: tables_ok_def rows)
  then have none: "List.find (\<lambda>r. rwID r = ID od') (tOrders db) = None"
    unfolding find_None_iff by (metis imageI)
  have "OrderRepo_GetByID pg (ID od') db' = Inr (stored micros od')"
    by (simp add: OrderRepo_GetByID_def pg_def t_select_order_def rows app none stored_def)
  moreover have "OrderRepo_GetByID pg i db' = OrderRepo_GetByID pg i db" if "i \<noteq> ID od'" for i
  proof -
    have "\<not> rwID (order_row (stored micros od')) = i" unfolding id using that by blast
    then show ?thesis
      by (simp add: OrderRepo_GetByID_def pg_def t_select_order_def rows app split: option.splits)
  qed
  ultimately show ?thesis by blast
qed

lemma ex_row_created:
  "OrderRepo_Create pg ex_clock 0 (ex_row_order 0) ex_tables =
    (None, ex_row_order 0, ex_tables\<lparr>tOrders := [order_row (stored micros (ex_row_order 0))]\<rparr>)"
proof -
  have "order_check (order_row (ex_row_order 0)) ex_tables = None"
    by (simp add: order_check_def order_row_def ex_row_order_def bigint_ok_def numeric_ok_def side_check_def status_check_def
      side_defs status_defs ex_tables_def)
  moreover have "(ex_row_order 0)\<lparr>CreatedAt := 1234567, UpdatedAt := 1234567\<rparr> = ex_row_order 0" "ID (ex_row_order 0) \<noteq> []"
    by (simp_all add: ex_row_order_def)
  ultimately show ?thesis
    by (simp add: OrderRepo_Create_def Let_def insert_order_pg ex_clock_def ex_tables_def)
qed

lemma Create_then_GetByID_witness:
  "\<exists>db'. OrderRepo_GetByID pg ''a'' db' = Inr (stored micros (ex_row_order 0)) \<and>
    CreatedAt (stored micros (ex_row_order 0)) = 1235000"
proof -
  have "tables_ok ex_tables" by (simp add: tables_ok_def ex_tables_def)
  from Create_then_GetByID [OF this ex_row_created]
  have "OrderRepo_GetByID pg (ID (ex_row_order 0)) (ex_tables\<lparr>tOrders := [order_row (stored micros (ex_row_order 0))]\<rparr>) =
    Inr (stored micros (ex_row_order 0))" by blast
  moreover have "ID (ex_row_order 0) = ''a''" "CreatedAt (stored micros (ex_row_order 0)) = 1235000"
    by (simp_all add: ex_row_order_def stored_def micros_def)
  ultimately show ?thesis by metis
qed

text \<open>
  Settled trades leave the list of unsettled ones.  After \<open>MarkSettled\<close> the trades to settle are the ones
  before without the given id, in the same order, and no order changes.
\<close>

theorem MarkSettled_unsettled:
  "select_unsettled pg (snd (TradeRepo_MarkSettled pg i tx db)) =
      map_sum id (filter (\<lambda>r. twID r \<noteq> i)) (select_unsettled pg db) \<and>
    tOrders (snd (TradeRepo_MarkSettled pg i tx db)) = tOrders db \<and>
    (\<forall>r \<in> set (tTrades (snd (TradeRepo_MarkSettled pg i tx db))). twID r \<noteq> i \<or> twSettledOnChain r \<and> twTxHash r = tx)"
proof -
  let ?f = "\<lambda>r. if twID r = i then r\<lparr>twSettledOnChain := True, twTxHash := tx\<rparr> else r"
  have "filter (\<lambda>r. \<not> twSettledOnChain r) (map ?f ts) = filter (\<lambda>r. twID r \<noteq> i) (filter (\<lambda>r. \<not> twSettledOnChain r) ts)"
    for ts :: "tradeRow list"
    by (induction ts) simp_all
  then have "select_unsettled pg (db\<lparr>tTrades := map ?f (tTrades db)\<rparr>) =
      map_sum id (filter (\<lambda>r. twID r \<noteq> i)) (select_unsettled pg db)"
    by (simp add: pg_def t_select_unsettled_def filter_sort)
  moreover have "snd (TradeRepo_MarkSettled pg i tx db) = db\<lparr>tTrades := map ?f (tTrades db)\<rparr>"
    by (simp add: TradeRepo_MarkSettled_def pg_def t_mark_settled_def)
  moreover have "\<forall>r \<in> set (map ?f (tTrades db)). twID r \<noteq> i \<or> twSettledOnChain r \<and> twTxHash r = tx"
  proof
    fix r assume "r \<in> set (map ?f (tTrades db))"
    then obtain r0 where "r = ?f r0" unfolding set_map by blast
    then show "twID r \<noteq> i \<or> twSettledOnChain r \<and> twTxHash r = tx" by (cases "twID r0 = i") simp_all
  qed
  ultimately show ?thesis by (simp del: set_map)
qed

definition ex_trade_row :: "string \<Rightarrow> tradeRow" where
  "ex_trade_row i = \<lparr>twID = i, twBuyOrderID = ''a'', twSellOrderID = ''b'', twBuyer = ''m'', twSeller = ''n'', twPair = ''P'',
     twBaseAmount = ''5'', twQuoteAmount = ''7'', twPrice = Fin 2, twTxHash = [], twSettledOnChain = False, twCreatedAt = 0\<rparr>"

lemma MarkSettled_unsettled_witness:
  "select_unsettled pg (snd (TradeRepo_MarkSettled pg ''x'' ''0xh''
    \<lparr>tOrders = [], tTrades = [ex_trade_row ''x'', ex_trade_row ''y''], tNow = 0\<rparr>)) = Inr [ex_trade_row ''y'']"
proof -
  have "select_unsettled pg \<lparr>tOrders = [], tTrades = [ex_trade_row ''x'', ex_trade_row ''y''], tNow = 0\<rparr> =
    Inr [ex_trade_row ''x'', ex_trade_row ''y'']"
    by (simp add: pg_def t_select_unsettled_def ex_trade_row_def)
  then show ?thesis
    using MarkSettled_unsettled [of "''x''" "''0xh''" "\<lparr>tOrders = [], tTrades = [ex_trade_row ''x'', ex_trade_row ''y''], tNow = 0\<rparr>"]
    by (simp add: ex_trade_row_def)
qed

end
