(* ===== verification/Cache.thy ===== *)
theory Cache
  imports Snapshot Texts
begin

text \<open>
  \<open>internal/repository/redis\<close>: the cache of order book snapshots.  Redis is a parameter: the execution of a
  pipeline of \<open>SET\<close> commands, \<open>GET\<close> and \<open>PUBLISH\<close>.  JSON texts are represented by the levels they
  encode; \<open>json.Marshal\<close> fails on an infinite \<open>float64\<close>.
\<close>

record PriceLevelData =
  pdPrice :: xfloat
  pdAmount :: string
  pdCount :: nat

type_synonym levels = "PriceLevelData list"

text \<open>A published message: type, bids and asks.\<close>

type_synonym update_msg = "string \<times> levels \<times> levels"

record 'c redis =
  pipe_set :: "(string \<times> levels) list \<Rightarrow> 'c \<Rightarrow> string option \<times> 'c"
  redis_get :: "string \<Rightarrow> 'c \<Rightarrow> string + levels option"
  redis_publish :: "string \<Rightarrow> update_msg \<Rightarrow> 'c \<Rightarrow> string option \<times> 'c"

definition finite_price :: "PriceLevelData \<Rightarrow> bool" where
  "finite_price l = (case pdPrice l of Fin _ \<Rightarrow> True | _ \<Rightarrow> False)"

definition json_Marshal :: "levels \<Rightarrow> string + levels" where
  "json_Marshal ls = (if list_all finite_price ls then Inr ls else Inl ''json: unsupported value'')"

definition bids_key :: "string \<Rightarrow> string" where
  "bids_key p = ''ob:'' @ p @ '':bids''"

definition asks_key :: "string \<Rightarrow> string" where
  "asks_key p = ''ob:'' @ p @ '':asks''"

definition updates_channel :: "string \<Rightarrow> string" where
  "updates_channel p = ''ob:updates:'' @ p"

definition Cache_SetSnapshot ::
  "'c redis \<Rightarrow> string \<Rightarrow> levels \<Rightarrow> levels \<Rightarrow> 'c \<Rightarrow> string option \<times> 'c"
where
  "Cache_SetSnapshot rd p bids asks c =
     (case json_Marshal bids of
        Inl e \<Rightarrow> (Some e, c)
      | Inr bidsJSON \<Rightarrow>
          (case json_Marshal asks of
             Inl e \<Rightarrow> (Some e, c)
           | Inr asksJSON \<Rightarrow> pipe_set rd [(bids_key p, bidsJSON), (asks_key p, asksJSON)] c))"

text \<open>A missing key (\<open>redis.Nil\<close>) gives no levels.\<close>

definition Cache_GetSnapshot :: "'c redis \<Rightarrow> string \<Rightarrow> 'c \<Rightarrow> string + levels \<times> levels" where
  "Cache_GetSnapshot rd p c =
     (case redis_get rd (bids_key p) c of
        Inl e \<Rightarrow> Inl e
      | Inr bidsJSON \<Rightarrow>
          (case redis_get rd (asks_key p) c of
             Inl e \<Rightarrow> Inl e
           | Inr asksJSON \<Rightarrow>
               Inr (case bidsJSON of None \<Rightarrow> [] | Some b \<Rightarrow> b, case asksJSON of None \<Rightarrow> [] | Some a \<Rightarrow> a)))"

definition Cache_PublishUpdate :: "'c redis \<Rightarrow> string \<Rightarrow> update_msg \<Rightarrow> 'c \<Rightarrow> string option \<times> 'c" where
  "Cache_PublishUpdate rd p msg c =
     (if list_all finite_price (fst (snd msg)) \<and> list_all finite_price (snd (snd msg))
      then redis_publish rd (updates_channel p) msg c
      else (Some ''json: unsupported value'', c))"

section \<open>The contract of the store\<close>

text \<open>\<open>content\<close> is the key space.  A failing command may have any effect on it.\<close>

locale kv_store =
  fixes rd :: "'c redis"
    and content :: "'c \<Rightarrow> string \<rightharpoonup> levels"
  assumes set_ok: "pipe_set rd kvs c = (None, c') \<Longrightarrow> content c' = content c ++ map_of (rev kvs)"
    and get_ok: "redis_get rd k c = Inr v \<Longrightarrow> v = content c k"
    and publish_frame: "redis_publish rd ch msg c = (err, c') \<Longrightarrow> content c' = content c"
begin

lemma keys_differ: "bids_key p \<noteq> asks_key q"
proof
  assume "bids_key p = asks_key q"
  then have "rev (bids_key p) = rev (asks_key q)" by simp
  then show False by (simp add: bids_key_def asks_key_def)
qed

lemma set_then_get:
  assumes "Cache_SetSnapshot rd p bids asks c = (None, c')" "Cache_GetSnapshot rd p c' = Inr (b, a)"
  shows "b = bids \<and> a = asks"
proof -
  have set: "pipe_set rd [(bids_key p, bids), (asks_key p, asks)] c = (None, c')"
    using assms(1) by (auto simp: Cache_SetSnapshot_def json_Marshal_def split: if_splits)
  then have "content c' (bids_key p) = Some bids" "content c' (asks_key p) = Some asks"
    using set_ok [OF set] keys_differ [of p p] by (simp_all add: map_add_def)
  then show ?thesis
    using assms(2) by (auto simp: Cache_GetSnapshot_def split: sum.splits option.splits dest!: get_ok)
qed

lemma publish_then_get:
  assumes "Cache_PublishUpdate rd q msg c = (err, c')" "Cache_GetSnapshot rd p c = Inr x" "Cache_GetSnapshot rd p c' = Inr y"
  shows "x = y"
proof -
  have "content c' = content c"
    using assms(1) publish_frame by (auto simp: Cache_PublishUpdate_def split: if_splits)
  then show ?thesis
    using assms(2,3) by (auto simp: Cache_GetSnapshot_def split: sum.splits dest!: get_ok)
qed

end

section \<open>An in-memory store\<close>

record kv =
  kvContent :: "string \<rightharpoonup> levels"
  kvPublished :: "(string \<times> update_msg) list"

definition kv_redis :: "kv redis" where
  "kv_redis = \<lparr>pipe_set = (\<lambda>kvs c. (None, c\<lparr>kvContent := kvContent c ++ map_of (rev kvs)\<rparr>)),
     redis_get = (\<lambda>k c. Inr (kvContent c k)),
     redis_publish = (\<lambda>ch msg c. (None, c\<lparr>kvPublished := kvPublished c @ [(ch, msg)]\<rparr>))\<rparr>"

interpretation kvs: kv_store kv_redis kvContent
  by unfold_locales (auto simp: kv_redis_def)

text \<open>
  The cache returns what was stored.  \<open>SetSnapshot\<close> fails only when a price is infinite, and then changes
  nothing; otherwise \<open>GetSnapshot\<close> for the pair gives the same levels back.  The snapshots of other pairs
  stay, and publishing an update touches none.
\<close>

theorem Cache_round_trip:
  assumes "Cache_SetSnapshot kv_redis p bids asks c = (err, c')"
  shows "(if list_all finite_price (bids @ asks) then err = None \<and> Cache_GetSnapshot kv_redis p c' = Inr (bids, asks)
      else err \<noteq> None \<and> c' = c) \<and>
    (p = q \<or> Cache_GetSnapshot kv_redis q c' = Cache_GetSnapshot kv_redis q c) \<and>
    Cache_GetSnapshot kv_redis q (snd (Cache_PublishUpdate kv_redis p msg c)) = Cache_GetSnapshot kv_redis q c"
proof -
  have key: "bids_key p = bids_key q \<longleftrightarrow> p = q" "asks_key p = asks_key q \<longleftrightarrow> p = q" for p q
    by (simp_all add: bids_key_def asks_key_def)
  have kd: "bids_key x \<noteq> asks_key y" "asks_key y \<noteq> bids_key x" for x y using kvs.keys_differ by metis+
  show ?thesis
  proof (cases "list_all finite_price (bids @ asks)")
    case True
    then have err: "err = None" using assms by (auto simp: Cache_SetSnapshot_def json_Marshal_def kv_redis_def)
    obtain b a where get: "Cache_GetSnapshot kv_redis p c' = Inr (b, a)" by (simp add: Cache_GetSnapshot_def kv_redis_def)
    then show ?thesis
      using True err kvs.set_then_get [OF assms [unfolded err] get] assms
      by (auto simp: Cache_SetSnapshot_def json_Marshal_def kv_redis_def Cache_GetSnapshot_def Cache_PublishUpdate_def
        map_add_def key kd)
  next
    case False
    then show ?thesis
      using assms by (auto simp: Cache_SetSnapshot_def json_Marshal_def kv_redis_def Cache_GetSnapshot_def
        Cache_PublishUpdate_def split: if_splits)
  qed
qed

lemma Cache_round_trip_witness:
  "\<exists>c'. Cache_GetSnapshot kv_redis ''P'' c' = Inr ([\<lparr>pdPrice = Fin 2, pdAmount = ''5'', pdCount = 1\<rparr>], []) \<and>
    Cache_GetSnapshot kv_redis ''Q'' c' = Cache_GetSnapshot kv_redis ''Q'' \<lparr>kvContent = Map.empty, kvPublished = []\<rparr>"
  using Cache_round_trip [OF prod.collapse [symmetric], where p = "''P''" and bids = "[\<lparr>pdPrice = Fin 2, pdAmount = ''5'', pdCount = 1\<rparr>]"
    and asks = "[]" and c = "\<lparr>kvContent = Map.empty, kvPublished = []\<rparr>" and q = "''Q''"]
  by (auto simp: finite_price_def)

end
