(* ===== verification/Service.thy ===== *)
theory Service
  imports EngineProps Snapshot Eip712 Tables Cache
begin

text \<open>
  \<open>internal/service/order_service.go\<close>: what a request does to the books in memory, the database, the
  settlement queue and the cache.  Every definition takes the service's collaborators as \<open>deps\<close>.  A panic
  is the outcome \<open>None\<close> next to the world as it was left: a panic can only come from the first \<open>Price\<close> of
  an order, before the book changes.  The settlement channel is the list of the jobs sent on it; \<open>SubmitOrder\<close>
  blocks in the code while the channel's buffer is full, it never drops a job.
\<close>

section \<open>State and collaborators\<close>

text \<open>\<open>SettleJob\<close> without its reply channel: replies are matched by trade id.\<close>

record SettleJob =
  jMatch :: MatchResult
  jTradeID :: string

record ('db, 'c) world =
  wMem :: mem
  wNextO :: oref
  wBooks :: "string \<rightharpoonup> OrderBook"
  wDb :: 'db
  wTick :: nat
  wJobs :: "SettleJob list"
  wCache :: 'c

record ('pk, 'db, 'c) deps =
  dEth :: "'pk eth"
  dSql :: "'db sql"
  dRedis :: "'c redis"
  dEnv :: env
  dDomain :: DomainSeparator

text \<open>A service over its collaborators, and the world of a process that has just made it: no books, no jobs.\<close>

definition NewOrderService ::
  "'pk eth \<Rightarrow> 'db sql \<Rightarrow> 'c redis \<Rightarrow> env \<Rightarrow> int \<Rightarrow> address \<Rightarrow> ('pk, 'db, 'c) deps"
where
  "NewOrderService eth sql redis env chainID contractAddr =
     \<lparr>dEth = eth, dSql = sql, dRedis = redis, dEnv = env, dDomain = NewDomainSeparator chainID contractAddr\<rparr>"

definition start_world :: "mem \<Rightarrow> oref \<Rightarrow> 'db \<Rightarrow> nat \<Rightarrow> 'c \<Rightarrow> ('db, 'c) world" where
  "start_world m n db k c =
     \<lparr>wMem = m, wNextO = n, wBooks = Map.empty, wDb = db, wTick = k, wJobs = [], wCache = c\<rparr>"

datatype svc_error =
    InvalidAmountSell
  | InvalidAmountBuy
  | InvalidSalt
  | InvalidSignatureHex hex_error
  | SigVerificationFailed sig_error
  | SignerMismatch
  | PersistFailed string
  | OrderNotFound repo_error
  | UpdateFailed string
  | ReadFailed repo_error

section \<open>Helpers\<close>

definition set_book :: "string \<Rightarrow> OrderBook \<Rightarrow> ('db, 'c) world \<Rightarrow> ('db, 'c) world" where
  "set_book p book w = w\<lparr>wBooks := (wBooks w)(p \<mapsto> book)\<rparr>"

definition GetOrCreateOrderBook :: "string \<Rightarrow> ('db, 'c) world \<Rightarrow> (OrderBook \<times> ('db, 'c) world) go" where
  "GetOrCreateOrderBook p w =
     (case wBooks w p of
        Some book \<Rightarrow> Some (book, w)
      | None \<Rightarrow> do { book \<leftarrow> NewOrderBook (wMem w) p; Some (book, set_book p book w) })"

definition level_data :: "PriceLevel \<Rightarrow> PriceLevelData" where
  "level_data l = \<lparr>pdPrice = PLPrice l, pdAmount = big_String (PLAmount l), pdCount = PLCount l\<rparr>"

text \<open>Errors of the cache are logged and otherwise ignored.\<close>

definition updateCache :: "('pk, 'db, 'c) deps \<Rightarrow> string \<Rightarrow> OrderBook \<Rightarrow> ('db, 'c) world \<Rightarrow> ('db, 'c) world go" where
  "updateCache d p book w = do {
     snapshot \<leftarrow> GetSnapshot (wMem w) book;
     let bids = map level_data (Bids snapshot);
         asks = map level_data (Asks snapshot);
         (_, c1) = Cache_SetSnapshot (dRedis d) p bids asks (wCache w);
         (_, c2) = Cache_PublishUpdate (dRedis d) p (''orderbook'', bids, asks) c1
     in Some (w\<lparr>wCache := c2\<rparr>)
   }"

section \<open>\<open>SubmitOrder\<close>\<close>

definition submission_data :: "'pk eth \<Rightarrow> OrderSubmission \<Rightarrow> int \<Rightarrow> int \<Rightarrow> int \<Rightarrow> OrderData" where
  "submission_data eth sub amountSell amountBuy salt =
     \<lparr>odMaker = HexToAddress eth (sMaker sub), odTokenSell = HexToAddress eth (sTokenSell sub),
      odTokenBuy = HexToAddress eth (sTokenBuy sub), odAmountSell = amountSell, odAmountBuy = amountBuy,
      odExpiry = uint (sExpiry sub), odNonce = uint (sNonce sub), odSalt = salt\<rparr>"

definition submission_order :: "OrderSubmission \<Rightarrow> int \<Rightarrow> int \<Rightarrow> int \<Rightarrow> Order" where
  "submission_order sub amountSell amountBuy salt =
     \<lparr>ID = [], Maker = sMaker sub, TokenSell = sTokenSell sub, TokenBuy = sTokenBuy sub,
      AmountSell = amountSell, AmountBuy = amountBuy, Expiry = sExpiry sub, Nonce = sNonce sub,
      Salt = salt, Signature = sSignature sub, Side = sSide sub, Status = OrderStatusOpen,
      FilledBase = 0, OPair = sPair sub, CreatedAt = 0, UpdatedAt = 0\<rparr>"

text \<open>The checks before anything is written: the order to persist, or the first error.\<close>

definition check_submission ::
  "('pk, 'db, 'c) deps \<Rightarrow> OrderSubmission \<Rightarrow> svc_error + Order"
where
  "check_submission d sub =
     (case parseBigInt (sAmountSell sub) of
        None \<Rightarrow> Inl InvalidAmountSell
      | Some amountSell \<Rightarrow>
     (case parseBigInt (sAmountBuy sub) of
        None \<Rightarrow> Inl InvalidAmountBuy
      | Some amountBuy \<Rightarrow>
     (case parseBigInt (sSalt sub) of
        None \<Rightarrow> Inl InvalidSalt
      | Some salt \<Rightarrow>
     (case hexToBytes (sSignature sub) of
        Inl e \<Rightarrow> Inl (InvalidSignatureHex e)
      | Inr sigBytes \<Rightarrow>
     (case VerifyOrderSignature (dEth d) (dDomain d) (submission_data (dEth d) sub amountSell amountBuy salt) sigBytes of
        Inl e \<Rightarrow> Inl (SigVerificationFailed e)
      | Inr valid \<Rightarrow>
          if \<not> valid then Inl SignerMismatch
          else Inr (submission_order sub amountSell amountBuy salt))))))"

definition match_trade :: "string \<Rightarrow> mem \<Rightarrow> MatchResult \<Rightarrow> Trade" where
  "match_trade p m mt =
     \<lparr>TradeID = [], BuyOrderID = ID (ordAt m (mBuyOrder mt)), SellOrderID = ID (ordAt m (mSellOrder mt)),
      Buyer = Maker (ordAt m (mBuyOrder mt)), Seller = Maker (ordAt m (mSellOrder mt)), TPair = p,
      BaseAmount = FillAmount mt, TQuoteAmount = QuoteAmount mt, TPrice = MPrice mt, TxHash = [],
      SettledOnChain = False, TCreatedAt = 0\<rparr>"

definition update_order_status :: "('pk, 'db, 'c) deps \<Rightarrow> Order \<Rightarrow> 'db \<Rightarrow> 'db" where
  "update_order_status d od db =
     snd (OrderRepo_UpdateStatus (dSql d) (ID od) (Status od) (big_String (FilledBase od)) db)"

text \<open>
  One match: the trade is inserted; if that fails the match is skipped (\<open>continue\<close>), otherwise both
  orders' rows are updated, errors ignored, and the job is queued.
\<close>

definition process_match ::
  "('pk, 'db, 'c) deps \<Rightarrow> string \<Rightarrow> MatchResult \<Rightarrow> ('db, 'c) world \<Rightarrow> ('db, 'c) world"
where
  "process_match d p mt w =
     (let m = wMem w;
          (err, trade, db1) = TradeRepo_Create (dSql d) (dEnv d) (wTick w) (match_trade p m mt) (wDb w);
          w1 = w\<lparr>wDb := db1, wTick := Suc (wTick w)\<rparr>
      in if err \<noteq> None then w1
         else
           let db2 = update_order_status d (ordAt m (mBuyOrder mt)) db1;
               db3 = update_order_status d (ordAt m (mSellOrder mt)) db2
           in w1\<lparr>wDb := db3, wJobs := wJobs w1 @ [\<lparr>jMatch = mt, jTradeID = TradeID trade\<rparr>]\<rparr>)"

text \<open>Persist, match, process: \<open>SubmitOrder\<close> after its checks.\<close>

definition place_order ::
  "('pk, 'db, 'c) deps \<Rightarrow> Order \<Rightarrow> ('db, 'c) world \<Rightarrow>
    ('db, 'c) world \<times> (svc_error + oref \<times> MatchResult list) go"
where
  "place_order d od w =
     (let r = wNextO w;
          (err, od', db') = OrderRepo_Create (dSql d) (dEnv d) (wTick w) od (wDb w);
          w1 = w\<lparr>wDb := db', wTick := Suc (wTick w), wMem := store_order (wMem w) r od', wNextO := Suc r\<rparr>
      in case err of
           Some e \<Rightarrow> (w1, Some (Inl (PersistFailed e)))
         | None \<Rightarrow>
             (case GetOrCreateOrderBook (OPair od') w1 of
                None \<Rightarrow> (w1, None)
              | Some (book, w2) \<Rightarrow>
                  (case AddOrder (wMem w2) book r of
                     None \<Rightarrow> (w2, None)
                   | Some (m', book', ms) \<Rightarrow>
                       let w3 = set_book (OPair od') book' (w2\<lparr>wMem := m'\<rparr>);
                           w4 = fold (process_match d (OPair od')) ms w3
                       in case updateCache d (OPair od') book' w4 of
                            None \<Rightarrow> (w4, None)
                          | Some w5 \<Rightarrow> (w5, Some (Inr (r, ms))))))"

definition OrderService_SubmitOrder ::
  "('pk, 'db, 'c) deps \<Rightarrow> OrderSubmission \<Rightarrow> ('db, 'c) world \<Rightarrow>
    ('db, 'c) world \<times> (svc_error + oref \<times> MatchResult list) go"
where
  "OrderService_SubmitOrder d sub w =
     (case check_submission d sub of
        Inl e \<Rightarrow> (w, Some (Inl e))
      | Inr od \<Rightarrow> place_order d od w)"

section \<open>The other operations\<close>

definition OrderService_CancelOrder ::
  "('pk, 'db, 'c) deps \<Rightarrow> string \<Rightarrow> ('db, 'c) world \<Rightarrow> ('db, 'c) world \<times> (svc_error + unit) go"
where
  "OrderService_CancelOrder d orderID w =
     (case OrderRepo_GetByID (dSql d) orderID (wDb w) of
        Inl e \<Rightarrow> (w, Some (Inl (OrderNotFound e)))
      | Inr od \<Rightarrow>
          (case GetOrCreateOrderBook (OPair od) w of
             None \<Rightarrow> (w, None)
           | Some (book, w1) \<Rightarrow>
               (case CancelOrder (wMem w1) book orderID of
                  None \<Rightarrow> (w1, None)
                | Some (m', book', _) \<Rightarrow>
                    let w2 = set_book (OPair od) book' (w1\<lparr>wMem := m'\<rparr>);
                        (err, db') = OrderRepo_UpdateStatus (dSql d) orderID OrderStatusCancelled
                          (big_String (FilledBase od)) (wDb w2);
                        w3 = w2\<lparr>wDb := db'\<rparr>
                    in case err of
                         Some e \<Rightarrow> (w3, Some (Inl (UpdateFailed e)))
                       | None \<Rightarrow>
                           (case updateCache d (OPair od) book' w3 of
                              None \<Rightarrow> (w3, None)
                            | Some w4 \<Rightarrow> (w4, Some (Inr ()))))))"

definition OrderService_GetOrderbook :: "string \<Rightarrow> ('db, 'c) world \<Rightarrow> (Snapshot \<times> ('db, 'c) world) go" where
  "OrderService_GetOrderbook p w = do {
     (book, w1) \<leftarrow> GetOrCreateOrderBook p w;
     snapshot \<leftarrow> GetSnapshot (wMem w1) book;
     Some (snapshot, w1)
   }"

definition OrderService_GetOrdersByMaker ::
  "('pk, 'db, 'c) deps \<Rightarrow> string \<Rightarrow> ('db, 'c) world \<Rightarrow> repo_error + Order list"
where
  "OrderService_GetOrdersByMaker d maker w = OrderRepo_GetByMaker (dSql d) maker (wDb w)"

definition OrderService_GetTrades ::
  "('pk, 'db, 'c) deps \<Rightarrow> string \<Rightarrow> int \<Rightarrow> ('db, 'c) world \<Rightarrow> repo_error + Trade list"
where
  "OrderService_GetTrades d p limit w = TradeRepo_GetByPair (dSql d) p (if limit \<le> 0 then 50 else limit) (wDb w)"

text \<open>The loop of \<open>LoadOpenOrders\<close>: the orders read are new objects, the matches are dropped.\<close>

fun load_orders :: "Order list \<Rightarrow> mem \<Rightarrow> oref \<Rightarrow> OrderBook \<Rightarrow> (mem \<times> oref \<times> OrderBook) go" where
  "load_orders [] m r book = Some (m, r, book)"
| "load_orders (od # ods) m r book = do {
     (m', book', _) \<leftarrow> AddOrder (store_order m r od) book r;
     load_orders ods m' (Suc r) book'
   }"

definition LoadOpenOrders ::
  "('pk, 'db, 'c) deps \<Rightarrow> string \<Rightarrow> ('db, 'c) world \<Rightarrow> ('db, 'c) world \<times> (svc_error + unit) go"
where
  "LoadOpenOrders d p w =
     (case OrderRepo_GetOpenByPair (dSql d) p (wDb w) of
        Inl e \<Rightarrow> (w, Some (Inl (ReadFailed e)))
      | Inr ods \<Rightarrow>
          (case GetOrCreateOrderBook p w of
             None \<Rightarrow> (w, None)
           | Some (book, w1) \<Rightarrow>
               (case load_orders ods (wMem w1) (wNextO w1) book of
                  None \<Rightarrow> (w1, None)
                | Some (m', r', book') \<Rightarrow>
                    (set_book p book' (w1\<lparr>wMem := m', wNextO := r'\<rparr>), Some (Inr ())))))"

section \<open>Frames\<close>

lemma start_world_sel [simp]:
  "wMem (start_world m n db k c) = m" "wNextO (start_world m n db k c) = n" "wBooks (start_world m n db k c) = Map.empty"
  "wDb (start_world m n db k c) = db" "wTick (start_world m n db k c) = k" "wJobs (start_world m n db k c) = []"
  "wCache (start_world m n db k c) = c"
  by (simp_all add: start_world_def)

lemma set_book_frame [simp, frame_simps]:
  "wMem (set_book p b w) = wMem w" "wNextO (set_book p b w) = wNextO w" "wDb (set_book p b w) = wDb w"
  "wTick (set_book p b w) = wTick w" "wJobs (set_book p b w) = wJobs w" "wCache (set_book p b w) = wCache w"
  "wBooks (set_book p b w) = (wBooks w)(p \<mapsto> b)"
  by (simp_all add: set_book_def)

lemma GetOrCreateOrderBook_frame:
  assumes "GetOrCreateOrderBook p w = Some (book, w')"
  shows "wMem w' = wMem w" "wNextO w' = wNextO w" "wDb w' = wDb w" "wTick w' = wTick w" "wJobs w' = wJobs w"
    "wCache w' = wCache w" "wBooks w' = (wBooks w)(p \<mapsto> book)"
    "book = (case wBooks w p of Some b \<Rightarrow> b | None \<Rightarrow> \<lparr>pair = p, buys = [], sells = [], orderMap = Map.empty\<rparr>)"
  using assms by (auto simp: GetOrCreateOrderBook_def NewOrderBook_spec split: option.splits)

lemma GetOrCreateOrderBook_total: "\<exists>book w'. GetOrCreateOrderBook p w = Some (book, w')"
  by (auto simp: GetOrCreateOrderBook_def NewOrderBook_spec split: option.splits)

lemma process_match_frame [simp, frame_simps]:
  "wMem (process_match d p mt w) = wMem w" "wNextO (process_match d p mt w) = wNextO w"
  "wBooks (process_match d p mt w) = wBooks w" "wCache (process_match d p mt w) = wCache w"
  by (simp_all add: process_match_def Let_def split: prod.splits)

lemma fold_process_match_frame [simp, frame_simps]:
  "wMem (fold (process_match d p) ms w) = wMem w" "wNextO (fold (process_match d p) ms w) = wNextO w"
  "wBooks (fold (process_match d p) ms w) = wBooks w" "wCache (fold (process_match d p) ms w) = wCache w"
  by (induction ms arbitrary: w) simp_all

lemma updateCache_frame:
  assumes "updateCache d p book w = Some w'"
  shows "wMem w' = wMem w" "wNextO w' = wNextO w" "wDb w' = wDb w" "wTick w' = wTick w" "wJobs w' = wJobs w"
    "wBooks w' = wBooks w"
  using assms by (auto simp: updateCache_def bind_Some_iff Let_def case_prod_beta)

end
