(* ===== verification/ServiceInv.thy ===== *)
theory ServiceInv
  imports Service
begin

text \<open>
  The invariant of the service: every book satisfies its own invariant over the shared store, holds
  orders of its own pair only, and every resting order is a row of the database.  It is kept by every
  operation when the database keeps the contract \<open>order_store\<close>.
\<close>

section \<open>Several books over one store\<close>

definition books_inv :: "mem \<Rightarrow> oref \<Rightarrow> string set \<Rightarrow> (string \<rightharpoonup> OrderBook) \<Rightarrow> bool" where
  "books_inv m n ids B \<longleftrightarrow>
     (\<forall>p b. B p = Some b \<longrightarrow> book_inv m b \<and>
       (\<forall>r \<in> resting m b. r < n \<and> OPair (ordAt m r) = p \<and> ID (ordAt m r) \<in> ids))"

lemma books_invD:
  assumes "books_inv m n ids B" "B p = Some b"
  shows "book_inv m b" "r \<in> resting m b \<Longrightarrow> r < n" "r \<in> resting m b \<Longrightarrow> OPair (ordAt m r) = p"
    "r \<in> resting m b \<Longrightarrow> ID (ordAt m r) \<in> ids"
  using assms unfolding books_inv_def by blast+

lemma books_inv_empty [simp]: "books_inv m n ids Map.empty"
  by (simp add: books_inv_def)

lemma books_inv_mono: "books_inv m n ids B \<Longrightarrow> n \<le> n' \<Longrightarrow> ids \<subseteq> ids' \<Longrightarrow> books_inv m n' ids' B"
  unfolding books_inv_def by (meson order_less_le_trans subsetD)

text \<open>Different pairs share neither orders nor entries.\<close>

lemma books_disjoint:
  assumes "books_inv m n ids B" "B p = Some b" "B q = Some c" "p \<noteq> q"
  shows "resting m b \<inter> resting m c = {}" "entries b \<inter> entries c = {}"
proof -
  show res: "resting m b \<inter> resting m c = {}"
    using books_invD(3) [OF assms(1,2)] books_invD(3) [OF assms(1,3)] assms(4) by blast
  then show "entries b \<inter> entries c = {}" by (auto simp: resting_def)
qed

text \<open>A book whose entries and orders are left alone keeps its invariant.\<close>

lemma book_inv_foreign:
  assumes inv: "book_inv m c" and ent: "\<And>e. e \<in> entries c \<Longrightarrow> entAt m' e = entAt m e"
    and ord: "\<And>r. r \<in> resting m c \<Longrightarrow> ordAt m' r = ordAt m r" and nxt: "nextE m \<le> nextE m'"
  shows "book_inv m' c" "resting m' c = resting m c"
proof -
  have o: "order_of m' e = order_of m e" if "e \<in> entries c" for e
    using ent [OF that] ord that by (auto simp: resting_def)
  show "resting m' c = resting m c" unfolding resting_def using ent by (intro image_cong) auto
  have sub: "e \<in> entries c" if "e \<in> set (side_of b c)" for e b using that entries_sides [of c b] by simp
  have "side_inv b m' (side_of b c)" for b
    by (rule side_inv_cong [OF book_invD(1) [OF inv]]) (use sub ent o in auto)
  moreover have "e < nextE m' \<and> live b (order_of m' e)" if "e \<in> set (side_of b c)" for b e
    using book_invD(2) [OF inv that] book_invD(3) [OF inv sub [OF that]] o [OF sub [OF that]] nxt by simp
  moreover have "index_inv m' c"
    unfolding index_inv_def
  proof (intro allI)
    fix i e show "orderMap c i = Some e \<longleftrightarrow> e \<in> entries c \<and> ID (order_of m' e) = i"
      using orderMap_iff [OF inv, of i e] o [of e] by auto
  qed
  moreover have "uncrossed m' c"
    using book_invD(5) [OF inv] o sub [of _ True] sub [of _ False] by (simp add: uncrossed_def)
  ultimately show "book_inv m' c" by (simp add: book_inv_def)
qed

lemma books_inv_add:
  assumes inv: "books_inv m n ids B" and b: "B p = Some b" and ok: "add_ok m b t"
    and t: "t < n" "OPair (ordAt m t) = p" "ID (ordAt m t) \<in> ids" "\<And>q c. B q = Some c \<Longrightarrow> t \<notin> resting m c"
    and run: "AddOrder m b t = Some (m', b', ms)"
  shows "books_inv m' n ids (B(p \<mapsto> b'))"
proof -
  obtain ks where inv': "book_inv m' b'" and ad: "added m b t m' b' ks" using AddOrder_cases [OF ok run] by blast
  note D = addedD [OF ad]
  have terms: "same_terms (ordAt m r) (ordAt m' r)" for r by (rule added_terms [OF ad])
  have pair_id: "OPair (ordAt m' r) = OPair (ordAt m r)" "ID (ordAt m' r) = ID (ordAt m r)" for r
  proof -
    obtain f st where "ordAt m' r = (ordAt m r)\<lparr>FilledBase := f, Status := st\<rparr>"
      using terms [of r] by (auto simp: same_terms_def)
    then show "OPair (ordAt m' r) = OPair (ordAt m r)" "ID (ordAt m' r) = ID (ordAt m r)" by simp_all
  qed
  have "book_inv m' c \<and> (\<forall>r \<in> resting m' c. r < n \<and> OPair (ordAt m' r) = q \<and> ID (ordAt m' r) \<in> ids)"
    if c: "(B(p \<mapsto> b')) q = Some c" for q c
  proof (cases "q = p")
    case True
    then have [simp]: "c = b'" using c by simp
    have "r < n \<and> OPair (ordAt m' r) = q \<and> ID (ordAt m' r) \<in> ids" if "r \<in> resting m' b'" for r
    proof -
      from that D(10) consider "r = t" | "r \<in> resting m b" by blast
      then show ?thesis using t books_invD(2-4) [OF inv b, of r] True by cases (simp_all add: pair_id)
    qed
    then show ?thesis using inv' by simp
  next
    case False
    then have c: "B q = Some c" using c by simp
    note dis = books_disjoint [OF inv b c not_sym [OF False]]
    note cinv = books_invD(1) [OF inv c]
    have ord: "ordAt m' r = ordAt m r" if "r \<in> resting m c" for r
    proof (rule D(6))
      show "r \<noteq> t" using t(4) [OF c] that by blast
      show "r \<notin> fst ` set ks" using D(4) dis(1) that by blast
    qed
    have ent: "entAt m' e = entAt m e" if "e \<in> entries c" for e
      using D(12) [of e] book_invD(3) [OF cinv that] dis(2) that by blast
    note F = book_inv_foreign [OF cinv ent ord D(8)]
    have "r < n \<and> OPair (ordAt m' r) = q \<and> ID (ordAt m' r) \<in> ids" if "r \<in> resting m' c" for r
      using books_invD(2-4) [OF inv c, of r] that F(2) ord by (simp add: pair_id)
    then show ?thesis using F(1) by blast
  qed
  then show ?thesis unfolding books_inv_def by blast
qed

lemma books_inv_cancel:
  assumes inv: "books_inv m n ids B" and b: "B p = Some b" and run: "CancelOrder m b i = Some (m', b', res)"
  shows "books_inv m' n ids (B(p \<mapsto> b'))"
proof (cases "orderMap b i")
  case None
  then have "m' = m" "b' = b" using run by (simp_all add: CancelOrder_def)
  moreover have "B(p \<mapsto> b) = B" using b by auto
  ultimately show ?thesis using inv by simp
next
  case (Some e)
  let ?r = "entryOrder (entAt m e)"
  note binv = books_invD(1) [OF inv b]
  have inv': "book_inv m' b'" and can: "cancelled m b ?r m' b'"
    using CancelOrder_spec [OF binv Some] run by auto
  have om: "ordAt m' = (ordAt m)(?r := (ordAt m ?r)\<lparr>Status := OrderStatusCancelled\<rparr>)"
    and rest: "resting m' b' = resting m b - {?r}" "?r \<in> resting m b"
    and ent: "\<And>e. e \<notin> entries b \<Longrightarrow> entAt m' e = entAt m e" and nxt: "nextE m' = nextE m"
    using can by (simp_all add: cancelled_def Let_def)
  have "book_inv m' c \<and> (\<forall>r \<in> resting m' c. r < n \<and> OPair (ordAt m' r) = q \<and> ID (ordAt m' r) \<in> ids)"
    if c: "(B(p \<mapsto> b')) q = Some c" for q c
  proof (cases "q = p")
    case True
    then show ?thesis using c inv' books_invD(2-4) [OF inv b] rest(1) by (auto simp: om)
  next
    case False
    then have c: "B q = Some c" using c by simp
    note dis = books_disjoint [OF inv b c not_sym [OF False]]
    have ord: "ordAt m' r = ordAt m r" if "r \<in> resting m c" for r
      using that dis(1) rest(2) by (auto simp: om)
    have ent': "entAt m' e = entAt m e" if "e \<in> entries c" for e using ent dis(2) that by blast
    have "nextE m \<le> nextE m'" using nxt by simp
    note F = book_inv_foreign [OF books_invD(1) [OF inv c] ent' ord this]
    then show ?thesis using books_invD(2-4) [OF inv c] ord by simp
  qed
  then show ?thesis unfolding books_inv_def by blast
qed

text \<open>Storing a new order object changes no book.\<close>

lemma books_inv_store:
  assumes "books_inv m n ids B"
  shows "books_inv (store_order m n od) (Suc n) ids B"
    "B p = Some b \<Longrightarrow> n \<notin> resting (store_order m n od) b"
proof -
  have fresh: "n \<notin> resting m b" if "B p = Some b" for p b
    using books_invD(2) [OF assms that] by blast
  then show "B p = Some b \<Longrightarrow> n \<notin> resting (store_order m n od) b" by (simp add: resting_def store_order_def)
  show "books_inv (store_order m n od) (Suc n) ids B"
    unfolding books_inv_def
  proof (intro allI impI conjI ballI)
    fix p b assume b: "B p = Some b"
    note S = book_inv_store [OF books_invD(1) [OF assms b] fresh [OF b], of od]
    show "book_inv (store_order m n od) b" by (rule S(1))
    fix r assume "r \<in> resting (store_order m n od) b"
    then have r: "r \<in> resting m b" using S(2) by simp
    then have "r \<noteq> n" using fresh [OF b] by blast
    then show "r < Suc n" "OPair (ordAt (store_order m n od) r) = p" "ID (ordAt (store_order m n od) r) \<in> ids"
      using books_invD(2-4) [OF assms b r] by (simp_all add: store_order_def)
  qed
qed

lemma books_inv_create:
  "books_inv m n ids B \<Longrightarrow>
    books_inv m n ids (B(p \<mapsto> (case B p of Some b \<Rightarrow> b | None \<Rightarrow> \<lparr>pair = p, buys = [], sells = [], orderMap = Map.empty\<rparr>)))"
  unfolding books_inv_def
  by (auto simp: book_inv_new resting_def entries_def split: option.splits if_splits)

lemma orderMap_ids:
  assumes "books_inv m n ids B" "B p = Some b" "i \<notin> ids"
  shows "orderMap b i = None"
proof (rule ccontr)
  assume "orderMap b i \<noteq> None"
  then obtain e where "e \<in> entries b" "ID (order_of m e) = i"
    using orderMap_iff [OF books_invD(1) [OF assms(1,2)]] by blast
  then show False using books_invD(4) [OF assms(1,2)] assms(3) by (auto simp: resting_def)
qed

text \<open>The state in which \<open>SubmitOrder\<close> calls \<open>AddOrder\<close>: a new order, stored, and a book for its pair.\<close>

lemma placed_setup:
  assumes bi: "books_inv m n ids (wBooks w1)" and w1: "wMem w1 = store_order m n od" "wNextO w1 = Suc n"
    and gc: "GetOrCreateOrderBook (OPair od) w1 = Some (book, w2)"
    and od: "ID od \<notin> ids" "FilledBase od = 0" "Status od = OrderStatusOpen"
  shows "books_inv (wMem w2) (Suc n) ids (wBooks w2)" "wBooks w2 (OPair od) = Some book" "ordAt (wMem w2) n = od"
    "wBooks w2 q = Some c \<Longrightarrow> n \<notin> resting (wMem w2) c"
    "Price od \<noteq> None \<Longrightarrow> add_ok (wMem w2) book n"
proof -
  note S = books_inv_store [OF bi, where od = od]
  note G = GetOrCreateOrderBook_frame [OF gc]
  have wm: "wMem w2 = store_order m n od" using G(1) w1 by simp
  show B2: "books_inv (wMem w2) (Suc n) ids (wBooks w2)"
    unfolding wm G(7,8) by (rule books_inv_create [OF S(1)])
  show b2: "wBooks w2 (OPair od) = Some book" by (simp add: G(7))
  show o: "ordAt (wMem w2) n = od" by (simp add: wm store_order_def)
  have notres: "n \<notin> resting (wMem w2) c" if "wBooks w2 q = Some c" for q c
  proof (cases "q = OPair od \<and> wBooks w1 (OPair od) = None")
    case True
    then have "c = \<lparr>pair = OPair od, buys = [], sells = [], orderMap = Map.empty\<rparr>"
      using that by (simp add: G(7,8))
    then show ?thesis by (simp add: resting_def entries_def)
  next
    case False
    then have "wBooks w1 q = Some c" using that by (auto simp: G(7,8) split: if_splits)
    then show ?thesis using S(2) wm by simp
  qed
  then show "wBooks w2 q = Some c \<Longrightarrow> n \<notin> resting (wMem w2) c" .
  show "Price od \<noteq> None \<Longrightarrow> add_ok (wMem w2) book n"
    using books_invD(1) [OF B2 b2] notres [OF b2] orderMap_ids [OF B2 b2 od(1)] od(2,3)
    by (simp add: add_ok_def o active_def del: not_None_eq)
qed

lemma AddOrder_priced: "AddOrder m b t = Some x \<Longrightarrow> Price (ordAt m t) \<noteq> None"
proof
  assume x: "AddOrder m b t = Some x" "Price (ordAt m t) = None"
  then have "matchBuy m b t = None" "matchSell m b t = None" by (simp_all add: matchBuy_def matchSell_def)
  then have "AddOrder m b t = None" by (simp add: AddOrder_def)
  then show False using x(1) by simp
qed

end
