(* ===== verification/ServiceOps.thy ===== *)
theory ServiceOps
  imports ServiceInv SnapshotProps "HOL-Library.Sublist"
begin

text \<open>
  The operations of the service keep its invariant and panic only on an order without a price.  The lemmas
  are proved in the locale \<open>trade_store\<close>, for any database that keeps the contracts, and used through its
  interpretation on the schema's tables.
\<close>

definition svc_inv :: "('db \<Rightarrow> bool) \<Rightarrow> ('db \<Rightarrow> orderRow list) \<Rightarrow> ('db, 'c) world \<Rightarrow> bool" where
  "svc_inv good rows w \<longleftrightarrow> good (wDb w) \<and>
     books_inv (wMem w) (wNextO w) (rwID ` set (rows (wDb w))) (wBooks w)"

lemma GetSnapshot_total: "book_inv m b \<Longrightarrow> \<exists>s. GetSnapshot m b = Some s"
proof -
  assume inv: "book_inv m b"
  then have "\<forall>e \<in> set (side_of c b). \<exists>p. Price (order_of m e) = Some p" for c
    using book_invD(1) [OF inv, of c] by (simp add: side_inv_def)
  from this [of True] this [of False] show ?thesis
    using aggregate_ok(1) [of "buys b" m] aggregate_ok(2) [of "sells b" m] by (force simp: GetSnapshot_def)
qed

lemma updateCache_total: "book_inv (wMem w) b \<Longrightarrow> \<exists>w'. updateCache d p b w = Some w'"
  using GetSnapshot_total [of "wMem w" b] by (auto simp: updateCache_def Let_def case_prod_beta)

lemma svc_inv_updateCache:
  "updateCache d p b w = Some w' \<Longrightarrow> svc_inv good rows w' = svc_inv good rows w"
  using updateCache_frame [of d p b w w'] by (simp add: svc_inv_def)

lemma OrderRepo_Create_order:
  assumes "OrderRepo_Create sql env k od db = (err, od', db')"
  shows "insert_order sql (order_row od') db = (err, db')"
    "AmountSell od' = AmountSell od" "AmountBuy od' = AmountBuy od" "FilledBase od' = FilledBase od"
    "Status od' = Status od" "OPair od' = OPair od" "Side od' = Side od" "Price od' = Price od"
    "RemainingBase od' = RemainingBase od"
  using assms by (auto simp: OrderRepo_Create_def Let_def Price_def RemainingBase_def split: prod.splits if_splits)

text \<open>Settlement jobs: each has its trade in the database.\<close>

definition job_persisted :: "tradeRow list \<Rightarrow> SettleJob \<Rightarrow> bool" where
  "job_persisted ts j \<longleftrightarrow> (\<exists>t \<in> set ts. twID t = jTradeID j \<and>
     twBaseAmount t = big_String (FillAmount (jMatch j)) \<and> twQuoteAmount t = big_String (QuoteAmount (jMatch j)))"

context trade_store
begin

lemma update_order_status_rows:
  assumes "dSql d = sql" "good db"
  shows "good (update_order_status d od db)" "rwID ` set (rows (update_order_status d od db)) = rwID ` set (rows db)"
proof -
  obtain err db' where u: "OrderRepo_UpdateStatus sql (ID od) (Status od) (big_String (FilledBase od)) db = (err, db')"
    by (cases "OrderRepo_UpdateStatus sql (ID od) (Status od) (big_String (FilledBase od)) db")
  then have eq: "update_order_status d od db = db'" by (simp add: update_order_status_def assms(1))
  note R = rows_update_status [OF assms(2) u]
  show "good (update_order_status d od db)" using R(1) eq by simp
  show "rwID ` set (rows (update_order_status d od db)) = rwID ` set (rows db)"
  proof (cases err)
    case None
    then obtain t where t: "rows db' = map (set_status (ID od) (Status od) (big_String (FilledBase od)) t) (rows db)"
      using R(3) by blast
    show ?thesis unfolding eq t set_map image_image by simp
  next
    case (Some e)
    then show ?thesis using R(2) eq by simp
  qed
qed

lemma process_match_rows:
  assumes "dSql d = sql" "good (wDb w)"
  shows "good (wDb (process_match d p mt w))"
    "rwID ` set (rows (wDb (process_match d p mt w))) = rwID ` set (rows (wDb w))"
proof -
  obtain err t db1 where c: "TradeRepo_Create sql (dEnv d) (wTick w) (match_trade p (wMem w) mt) (wDb w) = (err, t, db1)"
    by (cases "TradeRepo_Create sql (dEnv d) (wTick w) (match_trade p (wMem w) mt) (wDb w)")
  then have ins: "insert_trade sql (trade_row t) (wDb w) = (err, db1)"
    by (auto simp: TradeRepo_Create_def Let_def split: prod.splits)
  have db1: "rows db1 = rows (wDb w)" "good db1"
    using insert_trade_ok [OF assms(2)] insert_trade_fail [OF assms(2)] ins by (cases err; blast)+
  note U = update_order_status_rows [OF assms(1)]
  show "good (wDb (process_match d p mt w))"
    "rwID ` set (rows (wDb (process_match d p mt w))) = rwID ` set (rows (wDb w))"
    using c db1 U(1) U(2) by (simp_all add: process_match_def Let_def assms(1))
qed

lemma fold_process_match_rows:
  assumes "dSql d = sql" "good (wDb w)"
  shows "good (wDb (fold (process_match d p) ms w)) \<and>
    rwID ` set (rows (wDb (fold (process_match d p) ms w))) = rwID ` set (rows (wDb w))"
  using assms(2)
proof (induction ms arbitrary: w)
  case (Cons mt ms)
  then show ?case using process_match_rows [OF assms(1) Cons.prems, of p mt] by simp
qed simp

lemma svc_inv_process:
  assumes "dSql d = sql" "svc_inv good rows w"
  shows "svc_inv good rows (fold (process_match d p) ms w)"
  using assms(2) fold_process_match_rows [OF assms(1), of w p ms] by (simp add: svc_inv_def)

text \<open>Placing an order keeps the invariant, and panics only when both its amounts are zero.\<close>

lemma place_order_inv:
  assumes sql: "dSql d = sql" and inv: "svc_inv good rows w" and od: "FilledBase od = 0" "Status od = OrderStatusOpen"
    and run: "place_order d od w = (w', res)"
  shows "svc_inv good rows w'" "res = None \<Longrightarrow> AmountSell od = 0 \<and> AmountBuy od = 0"
proof -
  let ?r = "wNextO w"
  obtain err od' db' where c: "OrderRepo_Create sql (dEnv d) (wTick w) od (wDb w) = (err, od', db')"
    by (cases "OrderRepo_Create sql (dEnv d) (wTick w) od (wDb w)")
  note C = OrderRepo_Create_order [OF c]
  have g: "good (wDb w)" and bi: "books_inv (wMem w) ?r (rwID ` set (rows (wDb w))) (wBooks w)"
    using inv by (simp_all add: svc_inv_def)
  let ?w1 = "w\<lparr>wDb := db', wTick := Suc (wTick w), wMem := store_order (wMem w) ?r od', wNextO := Suc ?r\<rparr>"
  note S = books_inv_store [OF bi, where od = od']
  have "svc_inv good rows w' \<and> (res = None \<longrightarrow> AmountSell od = 0 \<and> AmountBuy od = 0)"
  proof (cases err)
    case (Some e)
    then have "w' = ?w1" "res = Some (Inl (PersistFailed e))" using run c by (simp_all add: place_order_def sql Let_def)
    moreover have "rows db' = rows (wDb w)" "good db'"
      using insert_fail [OF g] C(1) Some by blast+
    ultimately show ?thesis using S(1) by (simp add: svc_inv_def)
  next
    case None
    have ins: "rows db' = rows (wDb w) @ [order_row (stored stamp od')]" "good db'"
      using insert_ok [OF g] C(1) None by blast+
    have idst: "ID (stored stamp od') = ID od'" by (simp add: stored_def)
    have newid: "ID od' \<notin> rwID ` set (rows (wDb w))"
      using unique [OF ins(2)] by (simp add: ins(1) idst)
    let ?ids = "rwID ` set (rows db')"
    have ids: "rwID ` set (rows (wDb w)) \<subseteq> ?ids" "ID od' \<in> ?ids" by (simp_all add: ins(1) idst) blast
    obtain book w2 where gc: "GetOrCreateOrderBook (OPair od') ?w1 = Some (book, w2)"
      using GetOrCreateOrderBook_total by blast
    note G = GetOrCreateOrderBook_frame [OF gc]
    have wm: "wNextO w2 = Suc ?r" "wDb w2 = db'" using G by simp_all
    have "books_inv (wMem w) ?r (rwID ` set (rows (wDb w))) (wBooks ?w1)" using bi by simp
    note P = placed_setup [OF this _ _ gc newid, simplified, OF od(1) [folded C(4)] od(2) [folded C(5)]]
    have B2': "books_inv (wMem w2) (Suc ?r) ?ids (wBooks w2)"
      by (rule books_inv_mono [OF P(1) order_refl ids(1)])
    show ?thesis
    proof (cases "AddOrder (wMem w2) book ?r")
      case None2: None
      have "w' = w2" "res = None" using run c None gc None2 by (simp_all add: place_order_def sql Let_def)
      moreover have "svc_inv good rows w2" using B2' ins(2) by (simp add: svc_inv_def wm)
      moreover have "AmountSell od = 0 \<and> AmountBuy od = 0"
      proof (rule ccontr)
        assume "\<not> (AmountSell od = 0 \<and> AmountBuy od = 0)"
        then have "Price od' \<noteq> None" using C(2,3) by (simp add: Price_panics_iff del: not_None_eq)
        then show False using AddOrder_spec [OF P(5)] None2 by auto
      qed
      ultimately show ?thesis by blast
    next
      case (Some x)
      obtain m' book' ms where x: "AddOrder (wMem w2) book ?r = Some (m', book', ms)" using Some by (cases x) auto
      have ok: "add_ok (wMem w2) book ?r" using AddOrder_priced [OF x] P(3) by (intro P(5)) simp
      let ?w3 = "set_book (OPair od') book' (w2\<lparr>wMem := m'\<rparr>)"
      let ?w4 = "fold (process_match d (OPair od')) ms ?w3"
      have "books_inv m' (Suc ?r) ?ids ((wBooks w2)(OPair od' \<mapsto> book'))"
        using P(4) by (intro books_inv_add [OF B2' P(2) ok _ _ _ _ x]) (simp_all add: P(3) ids(2))
      then have i3: "svc_inv good rows ?w3" using ins(2) wm by (simp add: svc_inv_def)
      note i4 = svc_inv_process [OF sql i3, of "OPair od'" ms]
      have bi': "book_inv (wMem ?w4) book'" using AddOrder_cases [OF ok x] by simp
      obtain w5 where w5: "updateCache d (OPair od') book' ?w4 = Some w5" using updateCache_total [OF bi'] by blast
      have "w' = w5" "res = Some (Inr (?r, ms))"
        using run c None gc x w5 by (simp_all add: place_order_def sql Let_def)
      then show ?thesis using i4 svc_inv_updateCache [OF w5] by simp
    qed
  qed
  then show "svc_inv good rows w'" "res = None \<Longrightarrow> AmountSell od = 0 \<and> AmountBuy od = 0" by blast+
qed

lemma SubmitOrder_inv:
  assumes sql: "dSql d = sql" and inv: "svc_inv good rows w"
    and run: "OrderService_SubmitOrder d sub w = (w', res)"
  shows "svc_inv good rows w'"
    "res = None \<Longrightarrow> parseBigInt (sAmountSell sub) = Some 0 \<and> parseBigInt (sAmountBuy sub) = Some 0"
proof -
  have "svc_inv good rows w' \<and>
    (res = None \<longrightarrow> parseBigInt (sAmountSell sub) = Some 0 \<and> parseBigInt (sAmountBuy sub) = Some 0)"
  proof (cases "check_submission d sub")
    case (Inl e)
    then show ?thesis using run inv by (auto simp: OrderService_SubmitOrder_def)
  next
    case (Inr od)
    then obtain a b s where p: "parseBigInt (sAmountSell sub) = Some a" "parseBigInt (sAmountBuy sub) = Some b"
      and od: "od = submission_order sub a b s"
      by (auto simp: check_submission_def split: option.splits sum.splits if_splits)
    have po: "place_order d od w = (w', res)" using run Inr by (simp add: OrderService_SubmitOrder_def)
    have "FilledBase od = 0" "Status od = OrderStatusOpen" by (simp_all add: od submission_order_def)
    from place_order_inv [OF sql inv this po] show ?thesis by (auto simp: p od submission_order_def)
  qed
  then show "svc_inv good rows w'"
    "res = None \<Longrightarrow> parseBigInt (sAmountSell sub) = Some 0 \<and> parseBigInt (sAmountBuy sub) = Some 0" by blast+
qed

text \<open>Cancelling keeps the invariant and never panics.\<close>

lemma CancelOrder_inv:
  assumes sql: "dSql d = sql" and inv: "svc_inv good rows w"
    and run: "OrderService_CancelOrder d i w = (w', res)"
  shows "svc_inv good rows w'" "res \<noteq> None"
proof -
  have g: "good (wDb w)" and bi: "books_inv (wMem w) (wNextO w) (rwID ` set (rows (wDb w))) (wBooks w)"
    using inv by (simp_all add: svc_inv_def)
  have "svc_inv good rows w' \<and> res \<noteq> None"
  proof (cases "OrderRepo_GetByID sql i (wDb w)")
    case (Inl e)
    then show ?thesis using run inv by (auto simp: OrderService_CancelOrder_def sql)
  next
    case (Inr od)
    obtain book w1 where gc: "GetOrCreateOrderBook (OPair od) w = Some (book, w1)"
      using GetOrCreateOrderBook_total by blast
    note G = GetOrCreateOrderBook_frame [OF gc]
    have B1: "books_inv (wMem w1) (wNextO w1) (rwID ` set (rows (wDb w))) (wBooks w1)"
      unfolding G(1,2) G(7,8) using books_inv_create [OF bi] by simp
    have b1: "wBooks w1 (OPair od) = Some book" by (simp add: G(7))
    note binv = books_invD(1) [OF B1 b1]
    obtain m' book' r where can: "CancelOrder (wMem w1) book i = Some (m', book', r)"
      using CancelOrder_spec [OF binv, of i] by (cases "orderMap book i") (auto simp: CancelOrder_def)
    let ?w2 = "set_book (OPair od) book' (w1\<lparr>wMem := m'\<rparr>)"
    obtain err db' where u: "OrderRepo_UpdateStatus sql i OrderStatusCancelled (big_String (FilledBase od)) (wDb w1) = (err, db')"
      by (cases "OrderRepo_UpdateStatus sql i OrderStatusCancelled (big_String (FilledBase od)) (wDb w1)")
    have g1: "good (wDb w1)" using g G(3) by simp
    note R = rows_update_status [OF g1 u]
    have ids: "rwID ` set (rows db') = rwID ` set (rows (wDb w))"
    proof (cases err)
      case None
      then obtain t where t: "rows db' = map (set_status i OrderStatusCancelled (big_String (FilledBase od)) t) (rows (wDb w1))"
        using R(3) by blast
      show ?thesis unfolding t set_map image_image by (simp add: G(3))
    next
      case (Some e)
      then show ?thesis using R(2) G(3) by simp
    qed
    note B2 = books_inv_cancel [OF B1 b1 can]
    let ?w3 = "?w2\<lparr>wDb := db'\<rparr>"
    have i3: "svc_inv good rows ?w3" using B2 R(1) ids by (simp add: svc_inv_def)
    have "book_inv (wMem ?w3) book'" using books_invD(1) [OF B2, of "OPair od" book'] by simp
    then obtain w4 where w4: "updateCache d (OPair od) book' ?w3 = Some w4" using updateCache_total by blast
    show ?thesis
    proof (cases err)
      case None
      then have "w' = w4" "res = Some (Inr ())"
        using run Inr gc can u w4 G(3) by (simp_all add: OrderService_CancelOrder_def sql Let_def)
      then show ?thesis using i3 svc_inv_updateCache [OF w4] by simp
    next
      case (Some e)
      then have "w' = ?w3" "res = Some (Inl (UpdateFailed e))"
        using run Inr gc can u w4 G(3) by (simp_all add: OrderService_CancelOrder_def sql Let_def)
      then show ?thesis using i3 by simp
    qed
  qed
  then show "svc_inv good rows w'" "res \<noteq> None" by blast+
qed

lemma process_match_jobs:
  assumes sql: "dSql d = sql" and g: "good (wDb w)" and old: "\<forall>j \<in> set (wJobs w). job_persisted (trades (wDb w)) j"
  shows "\<forall>j \<in> set (wJobs (process_match d p mt w)). job_persisted (trades (wDb (process_match d p mt w))) j"
    "\<exists>js. wJobs (process_match d p mt w) = wJobs w @ js \<and> map jMatch js \<in> {[], [mt]}"
proof -
  obtain err t db1 where c: "TradeRepo_Create sql (dEnv d) (wTick w) (match_trade p (wMem w) mt) (wDb w) = (err, t, db1)"
    by (cases "TradeRepo_Create sql (dEnv d) (wTick w) (match_trade p (wMem w) mt) (wDb w)")
  then have ins: "insert_trade sql (trade_row t) (wDb w) = (err, db1)"
    and amt: "BaseAmount t = FillAmount mt" "TQuoteAmount t = QuoteAmount mt"
    by (auto simp: TradeRepo_Create_def Let_def match_trade_def split: prod.splits)
  have upd: "trades (update_order_status d od db) = trades db \<and> good (update_order_status d od db)" if "good db" for od db
    using update_trades [OF that prod.collapse [symmetric]] update_order_status_rows(1) [OF sql that]
    by (simp add: update_order_status_def sql OrderRepo_UpdateStatus_def)
  have "(\<forall>j \<in> set (wJobs (process_match d p mt w)). job_persisted (trades (wDb (process_match d p mt w))) j) \<and>
    (\<exists>js. wJobs (process_match d p mt w) = wJobs w @ js \<and> map jMatch js \<in> {[], [mt]})"
  proof (cases err)
    case (Some e)
    then have "trades db1 = trades (wDb w)" using insert_trade_fail [OF g] ins by blast
    then show ?thesis using c Some old by (simp add: process_match_def Let_def sql job_persisted_def)
  next
    case None
    then have db1: "trades db1 = trades (wDb w) @ [trade_row (t\<lparr>TCreatedAt := stamp (TCreatedAt t)\<rparr>)]" "good db1"
      using insert_trade_ok [OF g] ins by blast+
    let ?w' = "process_match d p mt w"
    have "trades (wDb ?w') = trades db1" "wJobs ?w' = wJobs w @ [\<lparr>jMatch = mt, jTradeID = TradeID t\<rparr>]"
      using c None upd db1(2) by (simp_all add: process_match_def Let_def sql)
    then show ?thesis using old db1(1) amt by (auto simp: job_persisted_def trade_row_def)
  qed
  then show "\<forall>j \<in> set (wJobs (process_match d p mt w)). job_persisted (trades (wDb (process_match d p mt w))) j"
    "\<exists>js. wJobs (process_match d p mt w) = wJobs w @ js \<and> map jMatch js \<in> {[], [mt]}" by blast+
qed

lemma fold_process_match_jobs:
  assumes "dSql d = sql" "good (wDb w)" "\<forall>j \<in> set (wJobs w). job_persisted (trades (wDb w)) j"
  shows "(\<forall>j \<in> set (wJobs (fold (process_match d p) ms w)). job_persisted (trades (wDb (fold (process_match d p) ms w))) j) \<and>
    (\<exists>js. wJobs (fold (process_match d p) ms w) = wJobs w @ js \<and> subseq (map jMatch js) ms)"
  using assms(2,3)
proof (induction ms arbitrary: w)
  case (Cons mt ms)
  let ?w = "process_match d p mt w"
  note P = process_match_jobs [OF assms(1) Cons.prems]
  note IH = Cons.IH [OF process_match_rows(1) [OF assms(1) Cons.prems(1)] P(1)]
  obtain js where
    js: "\<forall>j \<in> set (wJobs (fold (process_match d p) ms ?w)). job_persisted (trades (wDb (fold (process_match d p) ms ?w))) j"
      "wJobs (fold (process_match d p) ms ?w) = wJobs ?w @ js" "subseq (map jMatch js) ms"
    by (rule conjE [OF IH], erule exE, erule conjE) (rule that)
  obtain js1 where js1: "wJobs ?w = wJobs w @ js1" "map jMatch js1 \<in> {[], [mt]}"
    by (rule exE [OF P(2)], erule conjE) (rule that)
  have sub: "subseq (map jMatch (js1 @ js)) (mt # ms)"
  proof (cases "js1 = []")
    case True
    then show ?thesis using js(3) by (simp add: list_emb_Cons)
  next
    case False
    then have "map jMatch js1 = [mt]" using js1(2) by simp
    then show ?thesis using js(3) by simp
  qed
  have "wJobs (fold (process_match d p) (mt # ms) w) = wJobs w @ (js1 @ js)" using js(2) js1(1) by simp
  then show ?case using js(1) sub by (metis fold_simps(2))
qed simp

end

end
