(* ===== verification/Restart.thy ===== *)
theory Restart
  imports ServiceOps EngineClaims
begin

text \<open>
  \<open>LoadOpenOrders\<close>: rebuilding a book from the database.  Orders that do not cross each other are all
  added without a trade, so the rebuilt book is the set of the open orders with something left.
\<close>

definition side_orders :: "bool \<Rightarrow> Order list \<Rightarrow> Order multiset" where
  "side_orders b ods = mset (filter (\<lambda>od. (Side od = SideBuy) = b \<and> 0 < RemainingBase od) ods)"

text \<open>No buy order meets a sell order's price, as far as both have something left.\<close>

definition no_cross :: "Order multiset \<Rightarrow> bool" where
  "no_cross M \<longleftrightarrow> (\<forall>x \<in># M. \<forall>y \<in># M. Side x = SideBuy \<longrightarrow> Side y \<noteq> SideBuy \<longrightarrow>
     0 < RemainingBase x \<longrightarrow> 0 < RemainingBase y \<longrightarrow> price_of x < price_of y)"

definition loadable :: "Order \<Rightarrow> bool" where
  "loadable od \<longleftrightarrow> 0 \<le> FilledBase od \<and> active od \<and> Price od \<noteq> None"

definition book_orders :: "mem \<Rightarrow> OrderBook \<Rightarrow> Order multiset" where
  "book_orders m ob = book_side m (buys ob) + book_side m (sells ob)"

lemma book_orders_sides: "book_orders m ob = book_side m (side_of b ob) + book_side m (side_of (\<not> b) ob)"
  by (cases b) (simp_all add: book_orders_def add.commute)

lemma dom_orderMap_orders: "book_inv m ob \<Longrightarrow> dom (orderMap ob) = ID ` set_mset (book_orders m ob)"
  by (simp add: dom_orderMap book_orders_def UNIV_bool Un_commute)

lemma book_side_live: "book_inv m ob \<Longrightarrow> s \<in># book_side m (side_of b ob) \<Longrightarrow> live b s"
  using book_invD(2) by (fastforce simp: book_side_def)

lemma match_spec_stuck:
  assumes "match_spec tb t M rs t' M'" "\<forall>s \<in># M. 0 < RemainingBase s"
    "RemainingBase t \<le> 0 \<or> (\<forall>s \<in># M. \<not> crosses tb t s)"
  shows "rs = [] \<and> t' = t \<and> M' = M"
  using assms(1) by cases (use assms(2,3) in \<open>auto simp: best_def\<close>)

text \<open>One order that crosses nothing.\<close>

lemma add_uncrossed:
  assumes inv: "book_inv m ob" and n: "n \<notin> resting m ob" and new: "ID od \<notin> dom (orderMap ob)" and od: "loadable od"
    and nc: "no_cross (add_mset od (book_orders m ob))"
  shows "\<exists>m' ob'. AddOrder (store_order m n od) ob n = Some (m', ob', []) \<and> book_inv m' ob' \<and>
    (\<forall>b. book_side m' (side_of b ob') = book_side m (side_of b ob) + side_orders b [od]) \<and>
    resting m' ob' \<subseteq> insert n (resting m ob)"
proof -
  let ?m = "store_order m n od"
  note S = book_inv_store [OF inv n, of od]
  have o: "ordAt ?m n = od" by (simp add: store_order_def)
  have bs: "book_side ?m (side_of b ob) = book_side m (side_of b ob)" for b
    unfolding book_side_def using n entries_sides [of ob b]
    by (intro image_mset_cong) (auto simp: store_order_def resting_def)
  have ok: "add_ok ?m ob n"
    using S n new od by (simp add: add_ok_def o loadable_def domIff del: not_None_eq)
  obtain m' ob' ks where run: "AddOrder ?m ob n = Some (m', ob', map (trade_record ?m (is_buy ?m n) n) ks)"
    and inv': "book_inv m' ob'" and ad: "added ?m ob n m' ob' ks"
    using AddOrder_spec [OF ok] by blast
  let ?tb = "is_buy ?m n"
  let ?M = "book_side ?m (side_of (\<not> ?tb) ob)"
  have pos: "\<forall>s \<in># ?M. 0 < RemainingBase s" using match_side_pos [OF S(1)] by blast
  have stuck: "RemainingBase (ordAt ?m n) \<le> 0 \<or> (\<forall>s \<in># ?M. \<not> crosses ?tb (ordAt ?m n) s)"
  proof (rule disj_imp [THEN iffD2], rule impI)
    assume "\<not> RemainingBase (ordAt ?m n) \<le> 0"
    then have left: "0 < RemainingBase od" by (simp add: o)
    show "\<forall>s \<in># ?M. \<not> crosses ?tb (ordAt ?m n) s"
    proof
      fix s assume s: "s \<in># ?M"
      have "live (\<not> ?tb) s" using book_side_live [OF S(1) s] .
      then have sd: "(Side s = SideBuy) = (\<not> ?tb)" "0 < RemainingBase s" by (simp_all add: live_def)
      have "s \<in># book_orders m ob" using s bs book_orders_sides [of m ob "\<not> ?tb"] by simp
      then have "if ?tb then price_of od < price_of s else price_of s < price_of od"
        using nc left sd unfolding no_cross_def by (auto simp: o)
      then show "\<not> crosses ?tb (ordAt ?m n) s" by (simp add: crosses_def o not_le split: if_splits)
    qed
  qed
  note st = match_spec_stuck [OF addedD(1) [OF ad] pos stuck]
  then have ks: "ks = []" and t: "ordAt m' n = od" using o by auto
  have "book_side m' (side_of b ob') = book_side m (side_of b ob) + side_orders b [od]" for b
  proof (cases "b = ?tb")
    case True
    then show ?thesis using addedD(2) [OF ad] t bs by (simp add: side_orders_def o)
  next
    case False
    then have "b = (\<not> ?tb)" by simp
    then show ?thesis using st bs by (simp add: side_orders_def o)
  qed
  then show ?thesis using run inv' addedD(10) [OF ad] S(2) by (auto simp: ks)
qed

lemma book_orders_add:
  assumes "\<And>b. book_side m' (side_of b ob') = book_side m (side_of b ob) + side_orders b [od]"
  shows "book_orders m' ob' = book_orders m ob + (if 0 < RemainingBase od then {#od#} else {#})"
  using assms [of True] assms [of False] by (simp add: book_orders_def side_orders_def)

lemma no_cross_subset: "no_cross M \<Longrightarrow> N \<subseteq># M \<Longrightarrow> no_cross N"
  unfolding no_cross_def by (meson mset_subset_eqD)

lemma load_orders_spec:
  assumes "book_inv m ob" "\<forall>r \<in> resting m ob. r < n" "distinct (map ID ods)"
    "\<forall>od \<in> set ods. loadable od \<and> ID od \<notin> dom (orderMap ob)" "no_cross (mset ods + book_orders m ob)"
  shows "\<exists>m' n' ob'. load_orders ods m n ob = Some (m', n', ob') \<and> book_inv m' ob' \<and>
    (\<forall>b. book_side m' (side_of b ob') = book_side m (side_of b ob) + side_orders b ods) \<and>
    (\<forall>r \<in> resting m' ob'. r < n')"
  using assms
proof (induction ods arbitrary: m n ob)
  case Nil
  then show ?case by (simp add: side_orders_def)
next
  case (Cons od ods)
  have "no_cross (add_mset od (book_orders m ob))"
    by (rule no_cross_subset [OF Cons.prems(5)]) (simp add: subseteq_mset_def)
  moreover have "n \<notin> resting m ob" using Cons.prems(2) by blast
  ultimately obtain m1 ob1 where run: "AddOrder (store_order m n od) ob n = Some (m1, ob1, [])" and inv1: "book_inv m1 ob1"
    and sides: "\<And>b. book_side m1 (side_of b ob1) = book_side m (side_of b ob) + side_orders b [od]"
    and rest: "resting m1 ob1 \<subseteq> insert n (resting m ob)"
    using add_uncrossed [OF Cons.prems(1)] Cons.prems(4) by (metis list.set_intros(1))
  note bo = book_orders_add [OF sides]
  have "\<forall>r \<in> resting m1 ob1. r < Suc n" using rest Cons.prems(2) by (auto intro: less_SucI)
  moreover have "distinct (map ID ods)" using Cons.prems(3) by simp
  moreover have "\<forall>x \<in> set ods. loadable x \<and> ID x \<notin> dom (orderMap ob1)"
  proof
    fix x assume x: "x \<in> set ods"
    then have "ID x \<noteq> ID od" using Cons.prems(3) by (auto simp: image_iff)
    moreover have "ID x \<notin> dom (orderMap ob)" "loadable x" using Cons.prems(4) x by simp_all
    ultimately show "loadable x \<and> ID x \<notin> dom (orderMap ob1)"
      unfolding dom_orderMap_orders [OF inv1] dom_orderMap_orders [OF Cons.prems(1)] bo by auto
  qed
  moreover have "no_cross (mset ods + book_orders m1 ob1)"
    by (rule no_cross_subset [OF Cons.prems(5)]) (simp add: bo)
  ultimately obtain m' n' ob' where rec: "load_orders ods m1 (Suc n) ob1 = Some (m', n', ob')" "book_inv m' ob'"
    "\<And>b. book_side m' (side_of b ob') = book_side m1 (side_of b ob1) + side_orders b ods" "\<forall>r \<in> resting m' ob'. r < n'"
    using Cons.IH [OF inv1] by blast
  have "side_orders b [od] + side_orders b ods = side_orders b (od # ods)" for b by (simp add: side_orders_def)
  then have "book_side m' (side_of b ob') = book_side m (side_of b ob) + side_orders b (od # ods)" for b
    by (simp add: rec(3) sides add.assoc)
  then show ?case using run rec by simp
qed

end
