(* ===== verification/Mirror.thy ===== *)
theory Mirror
  imports Restart
begin

text \<open>
  The database as a mirror of the books: while no statement fails, the open rows with something left are
  exactly the resting orders, with their fills and statuses.  The theory follows the statements of
  \<open>SubmitOrder\<close> and \<open>CancelOrder\<close> on the tables of the schema.
\<close>

section \<open>Updating rows from memory\<close>

text \<open>The two \<open>UpdateStatus\<close> calls of every match, in order, as updates of one order.\<close>

definition refresh :: "mem \<Rightarrow> time \<Rightarrow> oref \<Rightarrow> Order \<Rightarrow> Order" where
  "refresh m now r od =
     (if ID od = ID (ordAt m r)
      then od\<lparr>Status := Status (ordAt m r), FilledBase := FilledBase (ordAt m r), UpdatedAt := now\<rparr> else od)"

definition parties :: "MatchResult list \<Rightarrow> oref list" where
  "parties ms = concat (map (\<lambda>x. [mBuyOrder x, mSellOrder x]) ms)"

lemma ID_refresh [simp]: "ID (refresh m now r od) = ID od"
  by (simp add: refresh_def)

lemma ID_fold_refresh [simp]: "ID (fold (refresh m now) rs od) = ID od"
  by (induction rs arbitrary: od) simp_all

lemma fold_refresh_other:
  "\<forall>r \<in> set rs. ID (ordAt m r) \<noteq> ID od \<Longrightarrow> fold (refresh m now) rs od = od"
  by (induction rs) (auto simp: refresh_def)

lemma fold_refresh_party:
  assumes "r \<in> set rs" "ID (ordAt m r) = ID od" "\<forall>r' \<in> set rs. ID (ordAt m r') = ID od \<longrightarrow> r' = r"
  shows "fold (refresh m now) rs od =
    od\<lparr>Status := Status (ordAt m r), FilledBase := FilledBase (ordAt m r), UpdatedAt := now\<rparr>"
  using assms
proof (induction rs rule: rev_induct)
  case (snoc x rs)
  let ?od' = "od\<lparr>Status := Status (ordAt m r), FilledBase := FilledBase (ordAt m r), UpdatedAt := now\<rparr>"
  have uniq: "\<forall>r' \<in> set rs. ID (ordAt m r') = ID od \<longrightarrow> r' = r" using snoc.prems(3) by simp
  have fold_app: "fold (refresh m now) (rs @ [x]) od = refresh m now x (fold (refresh m now) rs od)" by simp
  have set_r: "refresh m now r od = ?od'" "refresh m now r ?od' = ?od'"
    using snoc.prems(2) by (simp_all add: refresh_def)
  show ?case
  proof (cases "x = r")
    case x: True
    show ?thesis
    proof (cases "r \<in> set rs")
      case True
      from snoc.IH [OF True snoc.prems(2) uniq] show ?thesis unfolding x fold_app [unfolded x] by (simp only: set_r)
    next
      case False
      then have "fold (refresh m now) rs od = od" using uniq by (intro fold_refresh_other) metis
      then show ?thesis unfolding x fold_app [unfolded x] by (simp only: set_r)
    qed
  next
    case False
    then have r: "r \<in> set rs" using snoc.prems(1) by simp
    have "ID (ordAt m x) \<noteq> ID od" using snoc.prems(3) False by auto
    then have "refresh m now x ?od' = ?od'" by (simp add: refresh_def)
    then show ?thesis unfolding fold_app snoc.IH [OF r snoc.prems(2) uniq] .
  qed
qed simp

lemma fold_map_eq: "fold (\<lambda>r. map (f r)) rs xs = map (fold f rs) xs"
  by (induction rs arbitrary: xs) simp_all

section \<open>One match on the tables\<close>

definition int_ok :: "int \<Rightarrow> bool" where
  "int_ok x \<longleftrightarrow> \<bar>x\<bar> < 10 ^ 78"

lemma numeric_ok_big_String [simp]: "numeric_ok (big_String x) = int_ok x"
  by (simp add: numeric_ok_def int_ok_def)

definition party_ok :: "string set \<Rightarrow> Order \<Rightarrow> bool" where
  "party_ok ids od \<longleftrightarrow> ID od \<in> ids \<and> status_check (Status od) \<and> int_ok (FilledBase od)"

definition match_ok :: "string set \<Rightarrow> mem \<Rightarrow> MatchResult \<Rightarrow> bool" where
  "match_ok ids m x \<longleftrightarrow> int_ok (FillAmount x) \<and> int_ok (QuoteAmount x) \<and>
     party_ok ids (ordAt m (mBuyOrder x)) \<and> party_ok ids (ordAt m (mSellOrder x))"

definition ids_before :: "env \<Rightarrow> nat \<Rightarrow> string set" where
  "ids_before env k = uuid_New env ` {..<k}"

definition env_ok :: "env \<Rightarrow> bool" where
  "env_ok env \<longleftrightarrow> inj (uuid_New env) \<and> [] \<notin> range (uuid_New env)"

lemma env_okD:
  assumes "env_ok env"
  shows "uuid_New env k \<notin> ids_before env k" "uuid_New env k \<in> ids_before env (Suc k)"
    "ids_before env k \<subseteq> ids_before env (Suc k)"
  using assms by (auto simp: env_ok_def ids_before_def dest: injD)

lemma update_order_status_pg:
  assumes "dSql d = pg" "tOrders db = map order_row all" "status_check (Status od)" "int_ok (FilledBase od)" "ordAt m r = od"
  shows "update_order_status d od db =
    db\<lparr>tOrders := map order_row (map (refresh m (micros (tNow db)) r) all)\<rparr>"
proof -
  have "set_status (ID od) (Status od) (big_String (FilledBase od)) t (order_row x) = order_row (refresh m t r x)" for x t
    by (simp add: set_status_def refresh_def assms(5) order_row_upd)
  then show ?thesis
    using assms(3,4) by (simp add: update_order_status_def OrderRepo_UpdateStatus_def assms(1) pg_def t_update_status_def assms(2))
qed

lemma process_match_pg:
  assumes sql: "dSql d = pg" and env: "env_ok (dEnv d)" and rows: "tOrders (wDb w) = map order_row all"
    and tw: "twID ` set (tTrades (wDb w)) \<subseteq> ids_before (dEnv d) (wTick w)" and ok: "match_ok (ID ` set all) (wMem w) x"
  shows "tOrders (wDb (process_match d p x w)) =
      map order_row (map (fold (refresh (wMem w) (micros (tNow (wDb w)))) (parties [x])) all) \<and>
    twID ` set (tTrades (wDb (process_match d p x w))) \<subseteq> ids_before (dEnv d) (wTick (process_match d p x w)) \<and>
    tNow (wDb (process_match d p x w)) = tNow (wDb w) \<and> wTick (process_match d p x w) = Suc (wTick w)"
proof -
  let ?t = "match_trade p (wMem w) x"
  let ?t' = "?t\<lparr>TradeID := uuid_New (dEnv d) (wTick w), TCreatedAt := time_Now (dEnv d) (wTick w)\<rparr>"
  note E = env_okD [OF env, of "wTick w"]
  have fresh: "uuid_New (dEnv d) (wTick w) \<notin> twID ` set (tTrades (wDb w))" using E(1) tw by blast
  have "trade_check (trade_row ?t') (wDb w) = None"
    using ok fresh by (simp add: trade_check_def trade_row_def match_trade_def match_ok_def party_ok_def rows image_image)
  then have c: "TradeRepo_Create (dSql d) (dEnv d) (wTick w) ?t (wDb w) =
      (None, ?t', (wDb w)\<lparr>tTrades := tTrades (wDb w) @ [trade_row (?t'\<lparr>TCreatedAt := micros (TCreatedAt ?t')\<rparr>)]\<rparr>)"
    using trade_row_stored [of ?t'] by (simp add: TradeRepo_Create_def Let_def sql pg_def t_insert_trade_def match_trade_def)
  define db1 where "db1 = (wDb w)\<lparr>tTrades := tTrades (wDb w) @ [trade_row (?t'\<lparr>TCreatedAt := micros (TCreatedAt ?t')\<rparr>)]\<rparr>"
  let ?now = "micros (tNow (wDb w))" and ?b = "mBuyOrder x" and ?s = "mSellOrder x" and ?m = "wMem w"
  have db1: "tOrders db1 = map order_row all" "tNow db1 = tNow (wDb w)" by (simp_all add: db1_def rows)
  have b: "status_check (Status (ordAt ?m ?b))" "int_ok (FilledBase (ordAt ?m ?b))"
    and s: "status_check (Status (ordAt ?m ?s))" "int_ok (FilledBase (ordAt ?m ?s))"
    using ok by (simp_all add: match_ok_def party_ok_def)
  have U1: "update_order_status d (ordAt ?m ?b) db1 = db1\<lparr>tOrders := map order_row (map (refresh ?m ?now ?b) all)\<rparr>"
    using update_order_status_pg [OF sql db1(1) b refl] db1(2) by simp
  have "tOrders (db1\<lparr>tOrders := map order_row (map (refresh ?m ?now ?b) all)\<rparr>) = map order_row (map (refresh ?m ?now ?b) all)"
    by simp
  from update_order_status_pg [OF sql this s refl] have U2: "update_order_status d (ordAt ?m ?s)
      (update_order_status d (ordAt ?m ?b) db1) =
    db1\<lparr>tOrders := map order_row (map (refresh ?m ?now ?s) (map (refresh ?m ?now ?b) all))\<rparr>"
    unfolding U1 by (simp add: db1(2))
  let ?db3 = "db1\<lparr>tOrders := map order_row (map (fold (refresh ?m ?now) (parties [x])) all)\<rparr>"
  have c': "TradeRepo_Create (dSql d) (dEnv d) (wTick w) ?t (wDb w) = (None, ?t', db1)"
    unfolding db1_def by (rule c)
  have f: "map (refresh ?m ?now ?s) (map (refresh ?m ?now ?b) all) = map (fold (refresh ?m ?now) (parties [x])) all"
    by (simp add: parties_def)
  have "wDb (process_match d p x w) = update_order_status d (ordAt ?m ?s) (update_order_status d (ordAt ?m ?b) db1) \<and>
    wTick (process_match d p x w) = Suc (wTick w)"
    unfolding process_match_def Let_def c' by simp
  then have P: "wDb (process_match d p x w) = ?db3 \<and> wTick (process_match d p x w) = Suc (wTick w)"
    unfolding U2 f .
  have "twID ` set (tTrades ?db3) = insert (uuid_New (dEnv d) (wTick w)) (twID ` set (tTrades (wDb w)))"
    unfolding db1_def by (simp add: trade_row_def del: map_map)
  then have "twID ` set (tTrades ?db3) \<subseteq> ids_before (dEnv d) (Suc (wTick w))"
    using subset_trans [OF tw E(3)] E(2) by (simp only: insert_subset)
  then show ?thesis unfolding conjunct1 [OF P] conjunct2 [OF P] by (simp add: db1(2) del: map_map)
qed

lemma fold_process_match_pg:
  assumes "dSql d = pg" "env_ok (dEnv d)" "tOrders (wDb w) = map order_row all"
    "twID ` set (tTrades (wDb w)) \<subseteq> ids_before (dEnv d) (wTick w)" "\<forall>x \<in> set ms. match_ok (ID ` set all) (wMem w) x"
  shows "tOrders (wDb (fold (process_match d p) ms w)) =
      map order_row (map (fold (refresh (wMem w) (micros (tNow (wDb w)))) (parties ms)) all) \<and>
    twID ` set (tTrades (wDb (fold (process_match d p) ms w))) \<subseteq> ids_before (dEnv d) (wTick (fold (process_match d p) ms w)) \<and>
    wTick w \<le> wTick (fold (process_match d p) ms w)"
  using assms(3-5)
proof (induction ms arbitrary: w all)
  case Nil
  then show ?case by (simp add: parties_def)
next
  case (Cons x ms)
  let ?w = "process_match d p x w"
  let ?all = "map (fold (refresh (wMem w) (micros (tNow (wDb w)))) (parties [x])) all"
  have P: "tOrders (wDb ?w) = map order_row ?all" "twID ` set (tTrades (wDb ?w)) \<subseteq> ids_before (dEnv d) (wTick ?w)"
    "tNow (wDb ?w) = tNow (wDb w)" "wTick ?w = Suc (wTick w)"
    using process_match_pg [OF assms(1,2) Cons.prems(1,2), of x p] Cons.prems(3) by auto
  have ids: "ID ` set ?all = ID ` set all" unfolding set_map image_image by simp
  have "\<forall>y \<in> set ms. match_ok (ID ` set ?all) (wMem ?w) y" unfolding ids using Cons.prems(3) by simp
  note IH = Cons.IH [OF P(1,2) this]
  have par: "parties (x # ms) = parties [x] @ parties ms" by (simp add: parties_def)
  show ?case using IH by (simp add: par P(3,4) comp_def)
qed

section \<open>Rows and resting orders\<close>

text \<open>The row of an order: equal to it but for the precision of its creation time and its update time.\<close>

definition mirrors :: "Order \<Rightarrow> Order \<Rightarrow> bool" where
  "mirrors od row \<longleftrightarrow> row = od\<lparr>CreatedAt := micros (CreatedAt od), UpdatedAt := UpdatedAt row\<rparr>"

definition mirrored :: "mem \<Rightarrow> (string \<rightharpoonup> OrderBook) \<Rightarrow> Order list \<Rightarrow> bool" where
  "mirrored m B all \<longleftrightarrow>
     (\<forall>p b. B p = Some b \<longrightarrow> (\<forall>r \<in> resting m b. \<exists>row \<in> set all. mirrors (ordAt m r) row)) \<and>
     (\<forall>row \<in> set all. active row \<longrightarrow> 0 < RemainingBase row \<longrightarrow>
       (\<exists>b. B (OPair row) = Some b \<and> (\<exists>r \<in> resting m b. ID (ordAt m r) = ID row)))"

lemma mirrors_eqs:
  assumes "mirrors od row"
  shows "ID row = ID od" "OPair row = OPair od" "RemainingBase row = RemainingBase od" "Status row = Status od"
    "FilledBase row = FilledBase od" "Side row = Side od" "Price row = Price od" "active row = active od"
    "AmountSell row = AmountSell od" "AmountBuy row = AmountBuy od"
proof -
  have row: "row = od\<lparr>CreatedAt := micros (CreatedAt od), UpdatedAt := UpdatedAt row\<rparr>"
    using assms by (simp only: mirrors_def)
  show "ID row = ID od" by (subst row) simp
  show "OPair row = OPair od" by (subst row) simp
  show "RemainingBase row = RemainingBase od" by (subst row) (simp add: RemainingBase_def)
  show "Status row = Status od" by (subst row) simp
  show "FilledBase row = FilledBase od" by (subst row) simp
  show "Side row = Side od" by (subst row) simp
  show "Price row = Price od" by (subst row) (simp add: Price_def)
  show "active row = active od" by (subst row) (simp add: active_def)
  show "AmountSell row = AmountSell od" by (subst row) simp
  show "AmountBuy row = AmountBuy od" by (subst row) simp
qed

lemma mirrors_terms:
  assumes "mirrors od row" "same_terms od od'"
  shows "mirrors od' (row\<lparr>Status := Status od', FilledBase := FilledBase od', UpdatedAt := now\<rparr>)"
  using assms by (cases od; cases od'; cases row) (simp add: mirrors_def same_terms_def)

lemma mirroredD:
  assumes "mirrored m B all"
  shows "B p = Some b \<Longrightarrow> r \<in> resting m b \<Longrightarrow> \<exists>row \<in> set all. mirrors (ordAt m r) row"
    "row \<in> set all \<Longrightarrow> active row \<Longrightarrow> 0 < RemainingBase row \<Longrightarrow>
      \<exists>b. B (OPair row) = Some b \<and> (\<exists>r \<in> resting m b. ID (ordAt m r) = ID row)"
  using assms unfolding mirrored_def by blast+

lemma distinct_IDs: "distinct (map ID all) \<Longrightarrow> x \<in> set all \<Longrightarrow> y \<in> set all \<Longrightarrow> ID x = ID y \<Longrightarrow> x = y"
  by (auto simp: distinct_map dest: inj_onD)

lemma resting_same_ID:
  assumes "book_inv m b" "r \<in> resting m b" "s \<in> resting m b" "ID (ordAt m r) = ID (ordAt m s)"
  shows "r = s"
proof -
  obtain e f where ef: "e \<in> entries b" "f \<in> entries b" "r = entryOrder (entAt m e)" "s = entryOrder (entAt m f)"
    using assms(2,3) by (auto simp: resting_def)
  then have "orderMap b (ID (ordAt m r)) = Some e" "orderMap b (ID (ordAt m r)) = Some f"
    using orderMap_iff [OF assms(1)] assms(4) by simp_all
  then show ?thesis using ef by simp
qed

text \<open>Resting orders have different ids, across books too.\<close>

lemma mirrored_same_ID:
  assumes "books_inv m n ids B" "mirrored m B all" "distinct (map ID all)" "B p = Some b" "B q = Some c"
    "r \<in> resting m b" "s \<in> resting m c" "ID (ordAt m r) = ID (ordAt m s)"
  shows "p = q \<and> r = s"
proof -
  obtain x y where xy: "x \<in> set all" "mirrors (ordAt m r) x" "y \<in> set all" "mirrors (ordAt m s) y"
    using mirroredD(1) [OF assms(2)] assms(4-7) by meson
  then have "x = y" using distinct_IDs [OF assms(3)] mirrors_eqs(1) assms(8) by metis
  then have "p = q"
    using books_invD(3) [OF assms(1,4,6)] books_invD(3) [OF assms(1,5,7)] mirrors_eqs(2) [OF xy(2)] mirrors_eqs(2) [OF xy(4)]
    by simp
  then show ?thesis
    using resting_same_ID [OF books_invD(1) [OF assms(1,4)] assms(6) _ assms(8)] assms(4,5,7) by simp
qed

lemma resting_book_side:
  "r \<in> resting m b \<Longrightarrow> \<exists>s. ordAt m r \<in># book_side m (side_of s b)"
  "od \<in># book_side m (side_of s b) \<Longrightarrow> \<exists>r \<in> resting m b. ordAt m r = od"
  using entries_sides [of b s] by (auto simp: resting_def entries_def book_side_def intro: exI [of _ True] exI [of _ False])

section \<open>Makers that stay\<close>

lemma match_spec_keeps:
  "match_spec tb t M rs t' M' \<Longrightarrow> s \<in># M \<Longrightarrow> s \<notin> fst ` set rs \<Longrightarrow> s \<in># M'"
proof (induction rule: match_spec.induct)
  case (part s' M t n)
  then show ?case by (auto simp: in_diff_count)
qed (auto simp: in_diff_count)

lemma match_spec_partial:
  "match_spec tb t M rs t' M' \<Longrightarrow> (s, n) \<in> set rs \<Longrightarrow> n < RemainingBase s \<Longrightarrow> fill_order n s \<in># M'"
  by (induction rule: match_spec.induct) auto

end
