(* ===== verification/Mirror2.thy ===== *)
theory Mirror2
  imports Mirror
begin

text \<open>
  \<open>AddOrder\<close> and \<open>CancelOrder\<close> keep the rows a mirror of the books, once the rows of the orders they
  changed are updated as \<open>SubmitOrder\<close> and \<open>CancelOrder\<close> of the service do.
\<close>

section \<open>Other books\<close>

lemma added_foreign:
  assumes inv: "books_inv m n ids B" and b: "B p = Some b" "B q = Some c" "p \<noteq> q"
    and ad: "added m b t m' b' ks" and t: "t \<notin> resting m c"
  shows "resting m' c = resting m c" "r \<in> resting m c \<Longrightarrow> ordAt m' r = ordAt m r"
proof -
  note dis = books_disjoint [OF inv b] and D = addedD [OF ad] and cinv = books_invD(1) [OF inv b(2)]
  have ord: "ordAt m' r = ordAt m r" if "r \<in> resting m c" for r
  proof (rule D(6))
    show "r \<noteq> t" using t that by blast
    show "r \<notin> fst ` set ks" using D(4) dis(1) that by blast
  qed
  have ent: "entAt m' e = entAt m e" if "e \<in> entries c" for e
    using D(12) [of e] book_invD(3) [OF cinv that] dis(2) that by blast
  show "resting m' c = resting m c" by (rule book_inv_foreign(2) [OF cinv ent ord D(8)])
  show "r \<in> resting m c \<Longrightarrow> ordAt m' r = ordAt m r" by (rule ord)
qed

section \<open>One \<open>AddOrder\<close>\<close>

lemma parties_trade_records [simp]:
  "set (parties (map (trade_record m tb t) ks)) = (if ks = [] then {} else insert t (fst ` set ks))"
proof -
  have "{mBuyOrder x, mSellOrder x} = {t, k}" if "x = trade_record m tb t (k, n)" for x k n
    using that by (cases tb) auto
  then have "set [mBuyOrder (trade_record m tb t x), mSellOrder (trade_record m tb t x)] = {t, fst x}" for x
    by (cases x) simp
  then have "set (parties (map (trade_record m tb t) ks)) = (\<Union>x \<in> set ks. {t, fst x})"
    by (simp add: parties_def)
  then show ?thesis by (cases ks) auto
qed

text \<open>The orders that rested keep resting while something of them is left.\<close>

lemma added_keeps:
  assumes ok: "add_ok m b t" and ad: "added m b t m' b' ks" and r: "r \<in> resting m b"
    and left: "0 < RemainingBase (ordAt m' r)"
  shows "\<exists>s \<in> resting m' b'. ordAt m' s = ordAt m' r"
proof -
  have inv: "book_inv m b" using ok by (simp add: add_ok_def)
  let ?tb = "is_buy m t"
  note D = addedD [OF ad]
  have notk: "ordAt m r \<notin> fst ` set (map (\<lambda>(k, n). (ordAt m k, n)) ks)" if "r \<notin> fst ` set ks"
  proof
    assume "ordAt m r \<in> fst ` set (map (\<lambda>(k, n). (ordAt m k, n)) ks)"
    then obtain k n where k: "(k, n) \<in> set ks" "ordAt m k = ordAt m r" by auto
    have "k \<in> resting m b" using D(4) k(1) by force
    then have "k = r" using resting_same_ID [OF inv _ r] k(2) by simp
    then show False using that k(1) by force
  qed
  have "\<exists>s. ordAt m' r \<in># book_side m' (side_of s b')"
  proof (cases "r \<in> fst ` set ks")
    case True
    then obtain n where n: "(r, n) \<in> set ks" by auto
    have "n < RemainingBase (ordAt m r)" using left D(5) [OF n] by simp
    moreover have "(ordAt m r, n) \<in> set (map (\<lambda>(k, n). (ordAt m k, n)) ks)" using n by force
    ultimately have "fill_order n (ordAt m r) \<in># book_side m' (side_of (\<not> ?tb) b')"
      using match_spec_partial [OF D(1)] by blast
    then show ?thesis unfolding D(5) [OF n] by blast
  next
    case False
    have "r \<noteq> t" using ok r by (auto simp: add_ok_def)
    then have eq: "ordAt m' r = ordAt m r" using D(6) False by blast
    obtain s where s: "ordAt m r \<in># book_side m (side_of s b)" using resting_book_side(1) [OF r] by blast
    show ?thesis
    proof (cases "s = ?tb")
      case True
      then have "ordAt m r \<in># book_side m' (side_of ?tb b')" unfolding D(2) using s by simp
      then show ?thesis unfolding eq by blast
    next
      case F: False
      then have s': "s = (\<not> ?tb)" by blast
      show ?thesis using match_spec_keeps [OF D(1) s [unfolded s'] notk [OF False]] unfolding eq by blast
    qed
  qed
  then show ?thesis using resting_book_side(2) by metis
qed

lemma mirrored_add:
  fixes now :: time
  assumes inv: "books_inv m n ids B" and mir: "mirrored m B all" and dist: "distinct (map ID all)" and b: "B p = Some b"
    and ok: "add_ok m b t" and fresh: "\<And>q c. B q = Some c \<Longrightarrow> t \<notin> resting m c" and t: "OPair (ordAt m t) = p"
    and row: "mirrors (ordAt m t) row" and new: "ID row \<notin> ID ` set all"
    and ad: "added m b t m' b' ks" and R: "set rs = (if ks = [] then {} else insert t (fst ` set ks))"
  shows "mirrored m' (B(p \<mapsto> b')) (map (fold (refresh m' now) rs) (all @ [row]))"
proof -
  let ?F = "fold (refresh m' now) rs" and ?all = "all @ [row]"
  note D = addedD [OF ad]
  have dist': "distinct (map ID ?all)" using dist new by auto
  have terms: "same_terms (ordAt m r) (ordAt m' r)" for r by (rule added_terms [OF ad])
  note ids = same_terms_eqs(1) [OF terms]
  have known: "\<exists>x \<in> set ?all. mirrors (ordAt m r) x" if "r = t \<or> (\<exists>q c. B q = Some c \<and> r \<in> resting m c)" for r
    using that mirroredD(1) [OF mir] row by auto
  have uniq: "r = s" if "r = t \<or> (\<exists>q c. B q = Some c \<and> r \<in> resting m c)"
    "s = t \<or> (\<exists>q c. B q = Some c \<and> s \<in> resting m c)" "ID (ordAt m r) = ID (ordAt m s)" for r s
  proof -
    have new': "ID (ordAt m t) \<noteq> ID (ordAt m x)" if "B q = Some c" "x \<in> resting m c" for q c x
      using mirroredD(1) [OF mir that] mirrors_eqs(1) mirrors_eqs(1) [OF row] new by (metis imageI)
    show ?thesis using that new' mirrored_same_ID [OF inv mir dist] by metis
  qed
  have Rknown: "r = t \<or> (\<exists>q c. B q = Some c \<and> r \<in> resting m c)" if "r \<in> set rs" for r
    using that D(4) b unfolding R by (auto split: if_splits)
  have F1: "?F x = x\<lparr>Status := Status (ordAt m' r), FilledBase := FilledBase (ordAt m' r), UpdatedAt := now\<rparr>"
    if "r \<in> set rs" "ID (ordAt m r) = ID x" for r x
  proof (rule fold_refresh_party [OF that(1)])
    show "ID (ordAt m' r) = ID x" using that(2) ids by simp
    show "\<forall>r' \<in> set rs. ID (ordAt m' r') = ID x \<longrightarrow> r' = r"
      using uniq [OF Rknown Rknown [OF that(1)]] that(2) ids by metis
  qed
  have F2: "?F x = x" if "\<And>r. r \<in> set rs \<Longrightarrow> ID (ordAt m r) \<noteq> ID x" for x
    by (rule fold_refresh_other) (use that ids in simp)
  have F3: "?F x = x" if "r \<notin> set rs" "ID (ordAt m r) = ID x" "r = t \<or> (\<exists>q c. B q = Some c \<and> r \<in> resting m c)" for r x
    by (rule F2) (use uniq [OF Rknown that(3)] that(1,2) in metis)
  have same: "ordAt m' r = ordAt m r" if "r \<notin> set rs" for r
  proof (cases "ks = []")
    case True
    have "ordAt m' t = ordAt m t" using D(1) unfolding True by auto
    then show ?thesis using D(6) [of r] True by (cases "r = t") simp_all
  next
    case False
    then show ?thesis using that D(6) [of r] unfolding R by simp
  qed
  have one: "\<exists>x \<in> set (map ?F ?all). mirrors (ordAt m' r) x" if r: "r = t \<or> (\<exists>q c. B q = Some c \<and> r \<in> resting m c)" for r
  proof -
    obtain x where x: "x \<in> set ?all" "mirrors (ordAt m r) x" using known [OF r] by blast
    have "mirrors (ordAt m' r) (?F x)"
    proof (cases "r \<in> set rs")
      case True
      show ?thesis unfolding F1 [OF True mirrors_eqs(1) [OF x(2), symmetric]]
        by (rule mirrors_terms [OF x(2) terms])
    next
      case False
      then show ?thesis using F3 [OF False mirrors_eqs(1) [OF x(2), symmetric] r] same [OF False] x(2) by simp
    qed
    then show ?thesis using x(1) by auto
  qed
  show ?thesis
    unfolding mirrored_def
  proof (intro conjI allI impI ballI)
    fix q c r assume c: "(B(p \<mapsto> b')) q = Some c" and r: "r \<in> resting m' c"
    show "\<exists>x \<in> set (map ?F ?all). mirrors (ordAt m' r) x"
    proof (rule one, cases "q = p")
      case True
      then show "r = t \<or> (\<exists>q c. B q = Some c \<and> r \<in> resting m c)" using c r D(10) b by auto
    next
      case False
      then have c: "B q = Some c" using c by simp
      then show "r = t \<or> (\<exists>q c. B q = Some c \<and> r \<in> resting m c)"
        using r added_foreign(1) [OF inv b c not_sym [OF False] ad fresh [OF c]] by blast
    qed
  next
    fix y assume "y \<in> set (map ?F ?all)" and act: "active y" and left: "0 < RemainingBase y"
    then obtain x where x: "x \<in> set ?all" "y = ?F x" by auto
    have stays: "\<exists>c. (B(p \<mapsto> b')) (OPair (ordAt m r)) = Some c \<and> (\<exists>s \<in> resting m' c. ID (ordAt m' s) = ID x)"
      if r: "r = t \<or> (\<exists>q c. B q = Some c \<and> r \<in> resting m c)" and l: "0 < RemainingBase (ordAt m' r)"
        and i: "ID (ordAt m r) = ID x" for r
    proof (cases "r = t")
      case True
      then show ?thesis using D(11) l t i ids by (intro exI [of _ b']) auto
    next
      case False
      then obtain q c where c: "B q = Some c" "r \<in> resting m c" using r by blast
      have q: "OPair (ordAt m r) = q" by (rule books_invD(3) [OF inv c])
      show ?thesis
      proof (cases "q = p")
        case True
        then have "r \<in> resting m b" using c b by simp
        from added_keeps [OF ok ad this l] obtain s where s: "s \<in> resting m' b'" "ordAt m' s = ordAt m' r" by blast
        have "ID (ordAt m' r) = ID x" using i ids by metis
        then show ?thesis using s True q by (intro exI [of _ b'] conjI bexI [of _ s]) simp_all
      next
        case F: False
        note A = added_foreign [OF inv b c(1) not_sym [OF F] ad fresh [OF c(1)]]
        show ?thesis using A(1) A(2) [OF c(2)] c F q i by (intro exI [of _ c] conjI bexI [of _ r]) auto
      qed
    qed
    have same_row: "mirrors (ordAt m r) x" if "r = t \<or> (\<exists>q c. B q = Some c \<and> r \<in> resting m c)" "ID (ordAt m r) = ID x" for r
      using known [OF that(1)] distinct_IDs [OF dist'] x(1) mirrors_eqs(1) that(2) by metis
    have pairF: "OPair (?F x) = OPair x" "ID (?F x) = ID x" if "r \<in> set rs" "ID (ordAt m r) = ID x" for r
      by (simp_all add: F1 [OF that])
    show "\<exists>c. (B(p \<mapsto> b')) (OPair y) = Some c \<and> (\<exists>s \<in> resting m' c. ID (ordAt m' s) = ID y)"
    proof (cases "\<exists>r \<in> set rs. ID (ordAt m r) = ID x")
      case True
      then obtain r where r: "r \<in> set rs" "ID (ordAt m r) = ID x" by blast
      note sr = same_row [OF Rknown [OF r(1)] r(2)]
      have "mirrors (ordAt m' r) (?F x)" unfolding F1 [OF r] by (rule mirrors_terms [OF sr terms])
      then have "0 < RemainingBase (ordAt m' r)" using left mirrors_eqs(3) unfolding x(2) by metis
      then show ?thesis
        using stays [OF Rknown [OF r(1)] _ r(2)] pairF [OF r] mirrors_eqs(2) [OF sr] unfolding x(2) by simp
    next
      case False
      then have y: "y = x" using F2 x(2) by blast
      have "\<exists>r. (r = t \<or> (\<exists>q c. B q = Some c \<and> r \<in> resting m c)) \<and> ID (ordAt m r) = ID x"
      proof (cases "x = row")
        case True
        then show ?thesis using mirrors_eqs(1) [OF row] by auto
      next
        case F: False
        then have "x \<in> set all" using x(1) by simp
        from mirroredD(2) [OF mir this] act left show ?thesis unfolding y by blast
      qed
      then obtain r where r: "r = t \<or> (\<exists>q c. B q = Some c \<and> r \<in> resting m c)" "ID (ordAt m r) = ID x" by blast
      have "r \<notin> set rs" using False r(2) by blast
      note sr = same_row [OF r]
      have "0 < RemainingBase (ordAt m' r)"
        using left same [OF \<open>r \<notin> set rs\<close>] mirrors_eqs(3) [OF sr] unfolding y by simp
      then show ?thesis using stays [OF r(1) _ r(2)] mirrors_eqs(2) [OF sr] unfolding y by simp
    qed
  qed
qed

section \<open>One \<open>CancelOrder\<close>\<close>

lemma cancel_effect:
  assumes inv: "books_inv m n ids B" and b: "B p = Some b" and run: "CancelOrder m b i = Some (m', b', res)"
  shows "resting m' b' = {r \<in> resting m b. ID (ordAt m r) \<noteq> i}"
    "B q = Some c \<Longrightarrow> q \<noteq> p \<Longrightarrow> resting m' c = resting m c"
    "ID (ordAt m r) \<noteq> i \<Longrightarrow> ordAt m' r = ordAt m r"
proof -
  note binv = books_invD(1) [OF inv b]
  have "resting m' b' = {r \<in> resting m b. ID (ordAt m r) \<noteq> i} \<and>
    (\<forall>q c. B q = Some c \<longrightarrow> q \<noteq> p \<longrightarrow> resting m' c = resting m c) \<and>
    (\<forall>r. ID (ordAt m r) \<noteq> i \<longrightarrow> ordAt m' r = ordAt m r)"
  proof (cases "orderMap b i")
    case None
    then have eq: "m' = m" "b' = b" using run by (simp_all add: CancelOrder_def)
    have "ID (ordAt m r) \<noteq> i" if "r \<in> resting m b" for r
      using that None orderMap_iff [OF binv, of i] by (auto simp: resting_def)
    then show ?thesis by (auto simp: eq)
  next
    case (Some e)
    let ?r = "entryOrder (entAt m e)"
    have can: "cancelled m b ?r m' b'" and id: "ID (ordAt m ?r) = i"
      using CancelOrder_spec [OF binv Some] run by auto
    have om: "ordAt m' = (ordAt m)(?r := (ordAt m ?r)\<lparr>Status := OrderStatusCancelled\<rparr>)"
      and rest: "resting m' b' = resting m b - {?r}" "?r \<in> resting m b"
      and ent: "\<And>e. e \<notin> entries b \<Longrightarrow> entAt m' e = entAt m e"
      using can by (simp_all add: cancelled_def Let_def)
    have "resting m' b' = {r \<in> resting m b. ID (ordAt m r) \<noteq> i}"
    proof (intro set_eqI iffI)
      fix r assume "r \<in> resting m' b'"
      then have r: "r \<in> resting m b" "r \<noteq> ?r" by (simp_all add: rest(1))
      have "ID (ordAt m r) \<noteq> ID (ordAt m ?r)" using resting_same_ID [OF binv r(1) rest(2)] r(2) by blast
      then show "r \<in> {r \<in> resting m b. ID (ordAt m r) \<noteq> i}" using r(1) by (simp add: id)
    next
      fix r assume "r \<in> {r \<in> resting m b. ID (ordAt m r) \<noteq> i}"
      then show "r \<in> resting m' b'" using id by (auto simp: rest(1))
    qed
    moreover have "resting m' c = resting m c" if c: "B q = Some c" "q \<noteq> p" for q c
    proof -
      have "e \<notin> entries b" if "e \<in> entries c" for e
        using books_disjoint(2) [OF inv b c(1) not_sym [OF c(2)]] that by blast
      then show ?thesis unfolding resting_def using ent by (intro image_cong refl) simp
    qed
    moreover have "ordAt m' r = ordAt m r" if "ID (ordAt m r) \<noteq> i" for r using that id by (auto simp: om)
    ultimately show ?thesis by blast
  qed
  note E = this
  show "resting m' b' = {r \<in> resting m b. ID (ordAt m r) \<noteq> i}" by (rule conjunct1 [OF E])
  show "B q = Some c \<Longrightarrow> q \<noteq> p \<Longrightarrow> resting m' c = resting m c"
    by (rule E [THEN conjunct2, THEN conjunct1, rule_format])
  show "ID (ordAt m r) \<noteq> i \<Longrightarrow> ordAt m' r = ordAt m r"
    by (rule E [THEN conjunct2, THEN conjunct2, rule_format])
qed

definition cancel_row :: "string \<Rightarrow> time \<Rightarrow> Order \<Rightarrow> Order" where
  "cancel_row i now od = (if ID od = i then od\<lparr>Status := OrderStatusCancelled, UpdatedAt := now\<rparr> else od)"

lemma cancel_row_sel [simp]:
  "ID (cancel_row i now od) = ID od" "OPair (cancel_row i now od) = OPair od" "Price (cancel_row i now od) = Price od"
  "FilledBase (cancel_row i now od) = FilledBase od" "AmountSell (cancel_row i now od) = AmountSell od"
  "AmountBuy (cancel_row i now od) = AmountBuy od" "RemainingBase (cancel_row i now od) = RemainingBase od"
  by (simp_all add: cancel_row_def Price_def RemainingBase_def)

lemma mirrored_cancel:
  assumes inv: "books_inv m n ids B" and mir: "mirrored m B all" and dist: "distinct (map ID all)" and b: "B p = Some b"
    and run: "CancelOrder m b i = Some (m', b', res)" and row: "row \<in> set all" "ID row = i" "OPair row = p"
  shows "mirrored m' (B(p \<mapsto> b')) (map (cancel_row i now) all)"
proof -
  note C = cancel_effect [OF inv b run]
  have in_p: "q = p" if r: "B q = Some c" "r \<in> resting m c" "ID (ordAt m r) = i" for q c r
  proof -
    obtain x where x: "x \<in> set all" "mirrors (ordAt m r) x" using mirroredD(1) [OF mir r(1,2)] by blast
    have "x = row" using distinct_IDs [OF dist x(1) row(1)] mirrors_eqs(1) [OF x(2)] r(3) row(2) by simp
    then show ?thesis using books_invD(3) [OF inv r(1,2)] mirrors_eqs(2) [OF x(2)] row(3) by simp
  qed
  show ?thesis
    unfolding mirrored_def
  proof (intro conjI allI impI ballI)
    fix q c r assume c: "(B(p \<mapsto> b')) q = Some c" and r: "r \<in> resting m' c"
    obtain c0 where c0: "B q = Some c0" "r \<in> resting m c0" "ID (ordAt m r) \<noteq> i"
    proof (cases "q = p")
      case True
      then show ?thesis using that [of b] c r b C(1) by auto
    next
      case False
      then have c: "B q = Some c" using c by simp
      have r: "r \<in> resting m c" using r C(2) [OF c False] by simp
      show ?thesis using that [OF c r] in_p [OF c r] False by blast
    qed
    obtain x where x: "x \<in> set all" "mirrors (ordAt m r) x" using mirroredD(1) [OF mir c0(1,2)] by blast
    have "cancel_row i now x = x" using mirrors_eqs(1) [OF x(2)] c0(3) by (simp add: cancel_row_def)
    then show "\<exists>x \<in> set (map (cancel_row i now) all). mirrors (ordAt m' r) x"
      using x C(3) [OF c0(3)] by (intro bexI [of _ x]) force+
  next
    fix y assume "y \<in> set (map (cancel_row i now) all)" and act: "active y" and left: "0 < RemainingBase y"
    then obtain x where x: "x \<in> set all" "y = cancel_row i now x" by auto
    have "ID x \<noteq> i"
    proof
      assume "ID x = i"
      then have "Status y = OrderStatusCancelled" by (simp add: x(2) cancel_row_def)
      then show False using act by (simp add: active_def)
    qed
    then have y: "y = x" by (simp add: x(2) cancel_row_def)
    obtain c r where c: "B (OPair x) = Some c" "r \<in> resting m c" "ID (ordAt m r) = ID x"
      using mirroredD(2) [OF mir x(1)] act left unfolding y by blast
    have keep: "ordAt m' r = ordAt m r" by (rule C(3)) (simp add: c(3) \<open>ID x \<noteq> i\<close>)
    show "\<exists>c. (B(p \<mapsto> b')) (OPair y) = Some c \<and> (\<exists>s \<in> resting m' c. ID (ordAt m' s) = ID y)"
    proof (cases "OPair x = p")
      case True
      then have "r \<in> resting m' b'" using c b C(1) \<open>ID x \<noteq> i\<close> by simp
      then show ?thesis using True c(3) keep unfolding y by (intro exI [of _ b'] conjI bexI [of _ r]) simp_all
    next
      case False
      then show ?thesis using C(2) [OF c(1) False] c keep unfolding y by (intro exI [of _ c] conjI bexI [of _ r]) simp_all
    qed
  qed
qed

end
