(* ===== verification/Recovery.thy ===== *)
theory Recovery
  imports Mirror2
begin

text \<open>
  Every request keeps the rows a mirror of the books, one that panics included; so a restart rebuilds every
  book from the rows, unless one of them has two zero amounts.
\<close>

section \<open>Bounds\<close>

text \<open>What the columns of the schema guarantee about an order's numbers.\<close>

definition row_ok :: "Order \<Rightarrow> bool" where
  "row_ok od \<longleftrightarrow> 0 \<le> FilledBase od \<and> int_ok (FilledBase od) \<and>
     int_ok (AmountSell od) \<and> int_ok (AmountBuy od)"

lemma int_ok_le: "\<bar>x\<bar> \<le> \<bar>y\<bar> \<Longrightarrow> int_ok y \<Longrightarrow> int_ok x"
  by (simp add: int_ok_def)

lemma quote_bound:
  assumes "0 < n" "n \<le> s"
  shows "\<bar>n * b div s\<bar> \<le> \<bar>b :: int\<bar>"
proof (cases "0 \<le> b")
  case True
  then have "n * b \<le> s * b" "0 \<le> n * b" using assms by (auto intro: mult_right_mono)
  then have "n * b div s \<le> s * b div s" "0 \<le> n * b div s"
    using assms by (intro zdiv_mono1, simp_all only: pos_imp_zdiv_nonneg_iff)
  moreover have "s * b div s = b" using assms by simp
  ultimately show ?thesis using True by linarith
next
  case False
  then have "s * b \<le> n * b" "n * b \<le> 0" using assms by (auto intro: mult_right_mono_neg mult_nonneg_nonpos)
  then have "s * b div s \<le> n * b div s" "n * b div s \<le> 0 div s"
    using assms by (intro zdiv_mono1, simp_all only:)+
  moreover have "s * b div s = b" "0 div s = 0" using assms by simp_all
  ultimately show ?thesis using False by linarith
qed

lemma status_check_updates:
  "status_check (Status od) \<Longrightarrow> status_check (Status (fill_order n od))"
  "active od \<Longrightarrow> status_check (Status od)"
  by (auto simp: fill_order_def updateOrderStatus_def status_check_def active_def status_defs)

lemma fold_fill_order_status:
  "status_check (Status t) \<Longrightarrow> status_check (Status (fold (\<lambda>(s, n). fill_order n) rs t))"
  by (induction rs arbitrary: t) (auto simp: status_check_updates)

text \<open>What the engine leaves in the orders of a match.\<close>

lemma added_parties:
  assumes ok: "add_ok m b t" and ad: "added m b t m' b' ks" and t: "FilledBase (ordAt m t) = 0" "status_check (Status (ordAt m t))"
    and bounds: "\<forall>r \<in> insert t (resting m b). int_ok (AmountSell (ordAt m r)) \<and> int_ok (AmountBuy (ordAt m r))"
    and r: "r = t \<or> r \<in> fst ` set ks"
  shows "0 \<le> FilledBase (ordAt m' r)" "int_ok (FilledBase (ordAt m' r))" "status_check (Status (ordAt m' r))"
proof -
  have base: "int_ok (base_amount (ordAt m s))" if "s \<in> insert t (resting m b)" for s
    using bounds that by (auto simp: base_amount_def)
  have "0 \<le> FilledBase (ordAt m' r) \<and> int_ok (FilledBase (ordAt m' r)) \<and> status_check (Status (ordAt m' r))"
  proof (cases "r = t")
    case True
    note F = added_taker_fill [OF ok ad t(1)]
    have "base_amount (ordAt m' t) = base_amount (ordAt m t)"
      by (rule same_terms_eqs(11) [OF added_terms [OF ad]])
    then have "int_ok (FilledBase (ordAt m' t))"
      using F(2,3) base [of t] by (auto intro: int_ok_le [of _ "base_amount (ordAt m t)"])
    moreover have "status_check (Status (ordAt m' t))"
      unfolding match_spec_taker [OF addedD(1) [OF ad]] by (rule fold_fill_order_status [OF t(2)])
    ultimately show ?thesis using True F(2) by simp
  next
    case False
    then obtain n where n: "(r, n) \<in> set ks" using r by auto
    note fills = added_fills [OF ok ad n]
    have res: "r \<in> resting m b" using addedD(4) [OF ad] n by force
    have "live (\<not> is_buy m t) (ordAt m r)"
      using fills(4) book_side_live ok by (auto simp: add_ok_def)
    then have l: "0 \<le> FilledBase (ordAt m r)" "active (ordAt m r)" by (simp_all add: live_def)
    have "FilledBase (ordAt m' r) = FilledBase (ordAt m r) + n" "FilledBase (ordAt m r) + n \<le> base_amount (ordAt m r)"
      using addedD(5) [OF ad n] fills(2) by (simp_all add: RemainingBase_eq)
    then show ?thesis
      using l fills(1) base [of r] res addedD(5) [OF ad n] status_check_updates
      by (auto intro: int_ok_le [of _ "base_amount (ordAt m r)"])
  qed
  then show "0 \<le> FilledBase (ordAt m' r)" "int_ok (FilledBase (ordAt m' r))" "status_check (Status (ordAt m' r))"
    by blast+
qed

lemma added_amounts:
  assumes ok: "add_ok m b t" and ad: "added m b t m' b' ks" and t: "FilledBase (ordAt m t) = 0"
    and bounds: "\<forall>r \<in> insert t (resting m b). int_ok (AmountSell (ordAt m r)) \<and> int_ok (AmountBuy (ordAt m r))"
    and kn: "(k, n) \<in> set ks"
  shows "int_ok n" "int_ok (quote_at (ordAt m (if is_buy m t then k else t)) n)"
proof -
  note fills = added_fills [OF ok ad kn]
  have res: "k \<in> resting m b" using addedD(4) [OF ad] kn by force
  have l: "live (\<not> is_buy m t) (ordAt m k)" using fills(4) book_side_live ok by (auto simp: add_ok_def)
  then have f: "0 \<le> FilledBase (ordAt m k)" "(Side (ordAt m k) = SideBuy) = (\<not> is_buy m t)" by (simp_all add: live_def)
  have nb: "n \<le> base_amount (ordAt m k)" using fills(2) f(1) by (simp add: RemainingBase_eq)
  have "int_ok (base_amount (ordAt m k))" using bounds res by (auto simp: base_amount_def)
  then show "int_ok n" using nb fills(1) by (auto intro: int_ok_le [of _ "base_amount (ordAt m k)"])
  let ?s = "if is_buy m t then k else t"
  have "n \<le> AmountSell (ordAt m ?s)"
  proof (cases "is_buy m t")
    case True
    then show ?thesis using nb f(2) by (simp add: base_amount_def)
  next
    case False
    note F = added_taker_fill [OF ok ad t]
    have nn: "\<forall>x \<in> set (map snd ks). 0 \<le> x" using added_fills(1) [OF ok ad] by fastforce
    have "n \<in> set (map snd ks)" using kn by force
    then have "n \<le> sum_list (map snd ks)" using nn by (intro member_le_sum_list) auto
    then have "n \<le> base_amount (ordAt m t)"
      using F(1,3) fills(1) same_terms_eqs(11) [OF added_terms [OF ad], of t] by simp
    then show ?thesis using False by (simp add: base_amount_def)
  qed
  then have "\<bar>quote_at (ordAt m ?s) n\<bar> \<le> \<bar>AmountBuy (ordAt m ?s)\<bar>"
    unfolding quote_at_def using fills(1) by (intro quote_bound)
  moreover have "int_ok (AmountBuy (ordAt m ?s))" using bounds res by simp
  ultimately show "int_ok (quote_at (ordAt m ?s) n)" by (rule int_ok_le)
qed

lemma added_match_ok:
  assumes ok: "add_ok m b t" and ad: "added m b t m' b' ks" and t: "FilledBase (ordAt m t) = 0" "status_check (Status (ordAt m t))"
    and bounds: "\<forall>r \<in> insert t (resting m b). int_ok (AmountSell (ordAt m r)) \<and> int_ok (AmountBuy (ordAt m r))"
    and ids: "\<forall>r \<in> insert t (resting m b). ID (ordAt m r) \<in> ids" and ms: "ms = map (trade_record m (is_buy m t) t) ks"
  shows "\<forall>y \<in> set ms. match_ok ids m' y"
    "\<forall>r \<in> set (parties ms). 0 \<le> FilledBase (ordAt m' r) \<and> int_ok (FilledBase (ordAt m' r))"
proof -
  note P = added_parties [OF ok ad t bounds]
  have "party_ok ids (ordAt m' r)" if r: "r = t \<or> r \<in> fst ` set ks" for r
  proof -
    have "ID (ordAt m' r) = ID (ordAt m r)" by (rule same_terms_eqs(1) [OF added_terms [OF ad]])
    moreover have "r \<in> insert t (resting m b)" using r addedD(4) [OF ad] by blast
    ultimately have "ID (ordAt m' r) \<in> ids" using ids by metis
    then show ?thesis using P(2,3) [OF r] by (simp add: party_ok_def)
  qed
  note party = this
  show "\<forall>y \<in> set ms. match_ok ids m' y"
  proof
    fix y assume "y \<in> set ms"
    then obtain k n where kn: "(k, n) \<in> set ks" "y = trade_record m (is_buy m t) t (k, n)" unfolding ms by auto
    have "k = t \<or> k \<in> fst ` set ks" using kn(1) by force
    then show "match_ok ids m' y"
      using added_amounts [OF ok ad t(1) bounds kn(1)] party [of k] party [of t] by (simp add: match_ok_def kn(2))
  qed
  show "\<forall>r \<in> set (parties ms). 0 \<le> FilledBase (ordAt m' r) \<and> int_ok (FilledBase (ordAt m' r))"
    using P(1,2) unfolding ms by auto
qed

lemma row_ok_refresh:
  assumes "row_ok od" "\<forall>r \<in> set rs. 0 \<le> FilledBase (ordAt m r) \<and> int_ok (FilledBase (ordAt m r))"
  shows "row_ok (fold (refresh m now) rs od)"
  using assms
proof (induction rs arbitrary: od)
  case (Cons r rs)
  have "row_ok (refresh m now r od)"
    using Cons.prems by (auto simp: row_ok_def refresh_def)
  then show ?case using Cons by simp
qed simp

section \<open>The invariant of the service over its tables\<close>

definition mirror_rows :: "env \<Rightarrow> Order list \<Rightarrow> (tables, 'c) world \<Rightarrow> bool" where
  "mirror_rows env all w \<longleftrightarrow>
     tOrders (wDb w) = map order_row all \<and> (\<forall>od \<in> set all. row_ok od) \<and>
     ID ` set all \<subseteq> ids_before env (wTick w) \<and> twID ` set (tTrades (wDb w)) \<subseteq> ids_before env (wTick w) \<and>
     mirrored (wMem w) (wBooks w) all"

definition mirror_inv :: "env \<Rightarrow> (tables, 'c) world \<Rightarrow> bool" where
  "mirror_inv env w \<longleftrightarrow> svc_inv tables_ok tOrders w \<and> (\<exists>all. mirror_rows env all w)"

lemma mirror_rowsD:
  assumes "mirror_rows env all w"
  shows "tOrders (wDb w) = map order_row all" "od \<in> set all \<Longrightarrow> row_ok od"
    "ID ` set all \<subseteq> ids_before env (wTick w)" "twID ` set (tTrades (wDb w)) \<subseteq> ids_before env (wTick w)"
    "mirrored (wMem w) (wBooks w) all"
  using assms by (simp_all add: mirror_rows_def)

lemma rwID_rows [simp]: "map rwID (map order_row all) = map ID all"
  by (simp add: comp_def)

lemma mirror_invE:
  assumes "mirror_inv env w"
  obtains all where "svc_inv tables_ok tOrders w" "mirror_rows env all w" "distinct (map ID all)"
    "books_inv (wMem w) (wNextO w) (ID ` set all) (wBooks w)"
proof -
  obtain all where a: "svc_inv tables_ok tOrders w" "mirror_rows env all w" using assms by (auto simp: mirror_inv_def)
  have r: "tOrders (wDb w) = map order_row all" by (rule mirror_rowsD(1) [OF a(2)])
  have "distinct (map ID all)" using a(1) by (simp add: svc_inv_def tables_ok_def r comp_def)
  moreover have "books_inv (wMem w) (wNextO w) (ID ` set all) (wBooks w)"
    using a(1) by (simp add: svc_inv_def r image_image)
  ultimately show ?thesis using that a by blast
qed

lemma ids_before_mono: "j \<le> k \<Longrightarrow> ids_before env j \<subseteq> ids_before env k"
  by (auto simp: ids_before_def)

lemma mirrored_store:
  assumes "books_inv m n ids B" "mirrored m B all"
  shows "mirrored (store_order m n od) B all"
proof -
  have rest: "resting (store_order m n od) c = resting m c" for c by (simp add: resting_def store_order_def)
  have "ordAt (store_order m n od) r = ordAt m r" if "B q = Some c" "r \<in> resting m c" for q c r
    using books_invD(2) [OF assms(1) that] by (simp add: store_order_def)
  then show ?thesis using assms(2) unfolding mirrored_def rest by metis
qed

lemma mirrored_create:
  assumes "mirrored m B all"
  shows "mirrored m (B(p \<mapsto> (case B p of Some b \<Rightarrow> b | None \<Rightarrow> \<lparr>pair = p, buys = [], sells = [], orderMap = Map.empty\<rparr>))) all"
proof (cases "B p")
  case None
  have "resting m \<lparr>pair = p, buys = [], sells = [], orderMap = Map.empty\<rparr> = {}" by (simp add: resting_def entries_def)
  then show ?thesis using assms None unfolding mirrored_def by (auto split: if_splits)
next
  case (Some b)
  then have "B(p \<mapsto> b) = B" by auto
  then show ?thesis using assms Some by simp
qed

lemma order_check_row:
  assumes "order_check (order_row od) db = None"
  shows "int_ok (AmountSell od)" "int_ok (AmountBuy od)" "int_ok (FilledBase od)"
  using assms by (auto simp: order_check_def order_row_def split: if_splits)

lemma stored_mirrors: "mirrors od (stored micros od)"
  by (simp add: mirrors_def stored_def)

lemma mirrored_bounds:
  assumes "mirrored m B all" "\<forall>y \<in> set all. row_ok y" "B p = Some b" "r \<in> resting m b"
  shows "int_ok (AmountSell (ordAt m r)) \<and> int_ok (AmountBuy (ordAt m r))"
proof -
  obtain y where y: "y \<in> set all" "mirrors (ordAt m r) y" using mirroredD(1) [OF assms(1,3,4)] by blast
  have "row_ok y" using assms(2) y(1) by blast
  then show ?thesis using mirrors_eqs(9,10) [OF y(2)] by (simp add: row_ok_def)
qed

text \<open>A request that leaves the database alone.\<close>

lemma mirror_rows_tick:
  assumes "mirror_rows env all w" "wDb w' = wDb w" "wTick w \<le> wTick w'" "mirrored (wMem w') (wBooks w') all"
  shows "mirror_rows env all w'"
  using assms ids_before_mono [OF assms(3), of env] by (auto simp: mirror_rows_def)

lemma placed_mirror:
  assumes sql: "dSql d = pg" and env: "env_ok (dEnv d)" and inv: "mirror_inv (dEnv d) w"
    and od: "FilledBase od = 0" "Status od = OrderStatusOpen" "ID od = []"
    and c: "OrderRepo_Create pg (dEnv d) (wTick w) od (wDb w) = (None, od', db')"
    and gc: "GetOrCreateOrderBook (OPair od') (w\<lparr>wDb := db', wTick := Suc (wTick w),
        wMem := store_order (wMem w) (wNextO w) od', wNextO := Suc (wNextO w)\<rparr>) = Some (book, w2)"
    and x: "AddOrder (wMem w2) book (wNextO w) = Some (m', book', ms)"
  shows "\<exists>all. mirror_rows (dEnv d) all
    (fold (process_match d (OPair od')) ms (set_book (OPair od') book' (w2\<lparr>wMem := m'\<rparr>)))"
proof -
  let ?n = "wNextO w" and ?p = "OPair od'"
  obtain all where s: "svc_inv tables_ok tOrders w" and mr: "mirror_rows (dEnv d) all w" and dist: "distinct (map ID all)"
    and bi: "books_inv (wMem w) ?n (ID ` set all) (wBooks w)"
    using inv by (rule mirror_invE)
  note M = mirror_rowsD [OF mr] and E = env_okD [OF env, of "wTick w"] and C = OrderRepo_Create_order [OF c]
  have id: "ID od' = uuid_New (dEnv d) (wTick w)"
    using c od(3) by (auto simp: OrderRepo_Create_def Let_def split: prod.splits)
  have newid: "ID od' \<notin> ID ` set all" using E(1) M(3) unfolding id by blast
  have oc: "order_check (order_row od') (wDb w) = None"
    and db': "db' = (wDb w)\<lparr>tOrders := tOrders (wDb w) @ [order_row (stored micros od')]\<rparr>"
    using C(1) unfolding insert_order_pg by (auto split: option.splits)
  note oi = order_check_row [OF oc]
  let ?w1 = "w\<lparr>wDb := db', wTick := Suc (wTick w), wMem := store_order (wMem w) ?n od', wNextO := Suc ?n\<rparr>"
  let ?row = "stored micros od'"
  have row_id: "ID ?row = ID od'" by (simp add: stored_def)
  have "books_inv (wMem w) ?n (ID ` set all) (wBooks ?w1)" using bi by simp
  note P = placed_setup [OF this _ _ gc newid, simplified, OF od(1) [folded C(4)] od(2) [folded C(5)]]
  have ok: "add_ok (wMem w2) book ?n" using AddOrder_priced [OF x] P(3) by (intro P(5)) simp
  note G = GetOrCreateOrderBook_frame [OF gc]
  have G': "wDb w2 = db'" "wTick w2 = Suc (wTick w)" "wMem w2 = store_order (wMem w) ?n od'" using G by simp_all
  have mir2: "mirrored (wMem w2) (wBooks w2) all"
    unfolding G' G(7,8) using mirrored_create [OF mirrored_store [OF bi M(5)]] by simp
  obtain ks where ms: "ms = map (trade_record (wMem w2) (is_buy (wMem w2) ?n) ?n) ks" and inv': "book_inv m' book'"
    and ad: "added (wMem w2) book ?n m' book' ks"
    using AddOrder_cases [OF ok x] by blast
  have row: "mirrors (ordAt (wMem w2) ?n) ?row" unfolding P(3) by (rule stored_mirrors)
  have par: "set (parties ms) = (if ks = [] then {} else insert ?n (fst ` set ks))" unfolding ms by simp
  let ?now = "micros (tNow (wDb w))"
  let ?all = "map (fold (refresh m' ?now) (parties ms)) (all @ [?row])"
  have new: "ID ?row \<notin> ID ` set all" using newid row_id by simp
  have pt: "OPair (ordAt (wMem w2) ?n) = ?p" by (simp add: P(3))
  note mirA = mirrored_add [OF P(1) mir2 dist P(2) ok P(4) pt row new ad par, where now = ?now]
  let ?w3 = "set_book ?p book' (w2\<lparr>wMem := m'\<rparr>)"
  have f0: "FilledBase (ordAt (wMem w2) ?n) = 0" "status_check (Status (ordAt (wMem w2) ?n))"
    using od C(4,5) by (simp_all add: P(3) status_check_def OrderStatusOpen_def)
  have rows_ok: "\<forall>y \<in> set (all @ [?row]). row_ok y"
    using M(2) oi od(1) C(4) by (auto simp: row_ok_def stored_def)
  have bounds: "\<forall>r \<in> insert ?n (resting (wMem w2) book).
      int_ok (AmountSell (ordAt (wMem w2) r)) \<and> int_ok (AmountBuy (ordAt (wMem w2) r))"
    using mirrored_bounds [OF mir2 _ P(2)] M(2) oi P(3) by auto
  have known: "\<forall>r \<in> insert ?n (resting (wMem w2) book). ID (ordAt (wMem w2) r) \<in> ID ` set (all @ [?row])"
    using books_invD(4) [OF P(1,2)] row_id P(3) by auto
  note mok = added_match_ok [OF ok ad f0 bounds known ms]
  have r3: "tOrders (wDb ?w3) = map order_row (all @ [?row])" by (simp add: G' db' M(1))
  have tick3: "wTick ?w3 = Suc (wTick w)" "tNow (wDb ?w3) = tNow (wDb w)" by (simp_all add: G' db')
  have t3: "twID ` set (tTrades (wDb ?w3)) \<subseteq> ids_before (dEnv d) (wTick ?w3)"
    using M(4) E(3) by (simp add: G' db' tick3)
  let ?w4 = "fold (process_match d ?p) ms ?w3"
  have F: "tOrders (wDb ?w4) = map order_row ?all" "twID ` set (tTrades (wDb ?w4)) \<subseteq> ids_before (dEnv d) (wTick ?w4)"
    "Suc (wTick w) \<le> wTick ?w4"
    using fold_process_match_pg [OF sql env r3 t3, of ms ?p] mok(1) unfolding tick3 by simp_all
  have ids: "ID ` set ?all = insert (ID od') (ID ` set all)" unfolding set_map image_image by (simp add: row_id)
  have "insert (ID od') (ID ` set all) \<subseteq> ids_before (dEnv d) (Suc (wTick w))"
    using E(2,3) M(3) unfolding id by blast
  then have i4: "ID ` set ?all \<subseteq> ids_before (dEnv d) (wTick ?w4)"
    unfolding ids by (rule subset_trans [OF _ ids_before_mono [OF F(3)]])
  have ro: "\<forall>y \<in> set ?all. row_ok y"
    using rows_ok row_ok_refresh [OF _ mok(2)] unfolding set_map by blast
  have "mirrored (wMem ?w4) (wBooks ?w4) ?all" using mirA by simp
  then have "mirror_rows (dEnv d) ?all ?w4"
    unfolding mirror_rows_def using F(1,2) ro i4 by blast
  then show ?thesis by blast
qed

text \<open>
  A request that panics on an order with two zero amounts: the row is there, and open, but nothing of it
  remains, so no book needs to hold it.
\<close>

lemma panicked_mirror:
  assumes sql: "dSql d = pg" and env: "env_ok (dEnv d)" and inv: "mirror_inv (dEnv d) w"
    and od: "FilledBase od = 0" "ID od = []" "AmountSell od = 0" "AmountBuy od = 0"
    and c: "OrderRepo_Create pg (dEnv d) (wTick w) od (wDb w) = (None, od', db')"
    and gc: "GetOrCreateOrderBook (OPair od') (w\<lparr>wDb := db', wTick := Suc (wTick w),
        wMem := store_order (wMem w) (wNextO w) od', wNextO := Suc (wNextO w)\<rparr>) = Some (book, w2)"
  shows "\<exists>all. mirror_rows (dEnv d) all w2"
proof -
  let ?n = "wNextO w" and ?row = "stored micros od'"
  obtain all where mr: "mirror_rows (dEnv d) all w" and bi: "books_inv (wMem w) ?n (ID ` set all) (wBooks w)"
    using inv by (rule mirror_invE)
  note M = mirror_rowsD [OF mr] and E = env_okD [OF env, of "wTick w"] and C = OrderRepo_Create_order [OF c]
  note G = GetOrCreateOrderBook_frame [OF gc]
  have id: "ID od' = uuid_New (dEnv d) (wTick w)"
    using c od(2) by (auto simp: OrderRepo_Create_def Let_def split: prod.splits)
  have oc: "order_check (order_row od') (wDb w) = None"
    and db': "db' = (wDb w)\<lparr>tOrders := tOrders (wDb w) @ [order_row ?row]\<rparr>"
    using C(1) unfolding insert_order_pg by (auto split: option.splits)
  have w2: "wDb w2 = db'" "wTick w2 = Suc (wTick w)" "wMem w2 = store_order (wMem w) ?n od'" using G by simp_all
  have mir: "mirrored (wMem w2) (wBooks w2) all"
    unfolding w2 G(7,8) using mirrored_create [OF mirrored_store [OF bi M(5)]] by simp
  have "RemainingBase ?row = 0" using od C(2-4) by (simp add: stored_def RemainingBase_def)
  then have "mirrored (wMem w2) (wBooks w2) (all @ [?row])" using mir unfolding mirrored_def by auto
  moreover have "\<forall>y \<in> set (all @ [?row]). row_ok y"
    using M(2) order_check_row [OF oc] od(1) C(4) by (auto simp: row_ok_def stored_def)
  moreover have "tOrders (wDb w2) = map order_row (all @ [?row])" "tTrades (wDb w2) = tTrades (wDb w)"
    by (simp_all add: w2 db' M(1))
  moreover have "ID ` set (all @ [?row]) \<subseteq> ids_before (dEnv d) (wTick w2)"
    using M(3) E(2,3) id by (auto simp: w2 stored_def)
  ultimately have "mirror_rows (dEnv d) (all @ [?row]) w2"
    unfolding mirror_rows_def using M(4) E(3) w2(2) by auto
  then show ?thesis by blast
qed

section \<open>The requests\<close>

lemma place_order_mirror:
  assumes sql: "dSql d = pg" and env: "env_ok (dEnv d)" and inv: "mirror_inv (dEnv d) w"
    and od: "FilledBase od = 0" "Status od = OrderStatusOpen" "ID od = []"
    and run: "place_order d od w = (w', res)"
  shows "mirror_inv (dEnv d) w'"
proof -
  obtain all where s: "svc_inv tables_ok tOrders w" and mr: "mirror_rows (dEnv d) all w"
    and bi: "books_inv (wMem w) (wNextO w) (ID ` set all) (wBooks w)"
    using inv by (rule mirror_invE)
  have s': "svc_inv tables_ok tOrders w'" by (rule tab.place_order_inv(1) [OF sql s od(1,2) run])
  obtain err od' db' where c: "OrderRepo_Create pg (dEnv d) (wTick w) od (wDb w) = (err, od', db')"
    by (cases "OrderRepo_Create pg (dEnv d) (wTick w) od (wDb w)")
  let ?w1 = "w\<lparr>wDb := db', wTick := Suc (wTick w), wMem := store_order (wMem w) (wNextO w) od', wNextO := Suc (wNextO w)\<rparr>"
  have "\<exists>all. mirror_rows (dEnv d) all w'"
  proof (cases err)
    case (Some e)
    then have w': "w' = ?w1" using run c by (simp add: place_order_def sql Let_def)
    have "insert_order pg (order_row od') (wDb w) = (Some e, db')" using OrderRepo_Create_order(1) [OF c] Some by simp
    then have "db' = wDb w" unfolding insert_order_pg by (auto split: option.splits)
    then have "mirror_rows (dEnv d) all w'"
      using mirrored_store [OF bi mirror_rowsD(5) [OF mr]] by (intro mirror_rows_tick [OF mr]) (simp_all add: w')
    then show ?thesis by blast
  next
    case None
    obtain book w2 where gc: "GetOrCreateOrderBook (OPair od') ?w1 = Some (book, w2)"
      using GetOrCreateOrderBook_total by blast
    show ?thesis
    proof (cases "AddOrder (wMem w2) book (wNextO w)")
      case None2: None
      then have w': "w' = w2" "res = None" using run c None gc by (simp_all add: place_order_def sql Let_def)
      then have "AmountSell od = 0" "AmountBuy od = 0" using tab.place_order_inv(2) [OF sql s od(1,2) run] by blast+
      then show ?thesis
        unfolding w'(1) by (rule panicked_mirror [OF sql env inv od(1,3) _ _ c [unfolded None] gc])
    next
      case (Some x)
      obtain m' book' ms where x: "AddOrder (wMem w2) book (wNextO w) = Some (m', book', ms)" using Some by (cases x) auto
      let ?w4 = "fold (process_match d (OPair od')) ms (set_book (OPair od') book' (w2\<lparr>wMem := m'\<rparr>))"
      obtain all' where m4: "mirror_rows (dEnv d) all' ?w4"
        using placed_mirror [OF sql env inv od c [unfolded None] gc x] by blast
      show ?thesis
      proof (cases "updateCache d (OPair od') book' ?w4")
        case None3: None
        then have "w' = ?w4" using run c None gc x by (simp add: place_order_def sql Let_def)
        then show ?thesis using m4 by blast
      next
        case (Some w5)
        then have "w' = w5" using run c None gc x by (simp add: place_order_def sql Let_def)
        then have uc: "updateCache d (OPair od') book' ?w4 = Some w'" using Some by simp
        note F = updateCache_frame [OF uc]
        have "mirror_rows (dEnv d) all' w'"
          using mirror_rowsD(5) [OF m4] by (intro mirror_rows_tick [OF m4]) (simp_all only: F)
        then show ?thesis by blast
      qed
    qed
  qed
  then show ?thesis using s' by (simp add: mirror_inv_def)
qed

lemma SubmitOrder_mirror:
  assumes "dSql d = pg" "env_ok (dEnv d)" "mirror_inv (dEnv d) w" "OrderService_SubmitOrder d sub w = (w', res)"
  shows "mirror_inv (dEnv d) w'"
proof (cases "check_submission d sub")
  case (Inl e)
  then show ?thesis using assms(3,4) by (simp add: OrderService_SubmitOrder_def)
next
  case (Inr od)
  then have po: "place_order d od w = (w', res)" using assms(4) by (simp add: OrderService_SubmitOrder_def)
  have "FilledBase od = 0" "Status od = OrderStatusOpen" "ID od = []"
    using Inr by (auto simp: check_submission_def submission_order_def split: option.splits sum.splits if_splits)
  then show ?thesis by (rule place_order_mirror [OF assms(1-3) _ _ _ po])
qed

lemma find_SomeD: "List.find P xs = Some x \<Longrightarrow> x \<in> set xs \<and> P x"
  by (induction xs) (auto split: if_splits)

text \<open>A cancellation, by whether the order has a row.\<close>

lemma CancelOrder_unknown:
  assumes "dSql d = pg" "i \<notin> rwID ` set (tOrders (wDb w))"
  shows "OrderService_CancelOrder d i w = (w, Some (Inl (OrderNotFound (SqlError ''sql: no rows in result set''))))"
proof -
  have "List.find (\<lambda>r. rwID r = i) (tOrders (wDb w)) = None" using assms(2) by (auto simp: find_None_iff)
  then show ?thesis
    by (simp add: OrderService_CancelOrder_def OrderRepo_GetByID_def assms(1) pg_def t_select_order_def)
qed

lemma CancelOrder_known:
  assumes sql: "dSql d = pg" and rows: "tOrders (wDb w) = map order_row all" "\<forall>y \<in> set all. row_ok y"
    and dist: "distinct (map ID all)" and i: "i \<in> ID ` set all" and run: "OrderService_CancelOrder d i w = (w', Some res)"
  obtains od book w1 m' book' x where "od \<in> set all" "ID od = i" "GetOrCreateOrderBook (OPair od) w = Some (book, w1)"
    "CancelOrder (wMem w1) book i = Some (m', book', x)" "res = Inr ()" "wMem w' = m'"
    "wBooks w' = (wBooks w1)(OPair od \<mapsto> book')" "wTick w' = wTick w" "wJobs w' = wJobs w"
    "wDb w' = (wDb w)\<lparr>tOrders := map order_row (map (cancel_row i (micros (tNow (wDb w)))) all)\<rparr>"
proof -
  obtain y where "y \<in> set all" "ID y = i" using i by blast
  then have "order_row y \<in> set (tOrders (wDb w))" "rwID (order_row y) = i" by (simp_all add: rows(1))
  then have "List.find (\<lambda>r. rwID r = i) (tOrders (wDb w)) \<noteq> None"
    using find_None_iff [of "\<lambda>r. rwID r = i" "tOrders (wDb w)"] by blast
  then obtain r where find: "List.find (\<lambda>r. rwID r = i) (tOrders (wDb w)) = Some r" by blast
  from find_SomeD [OF this] obtain od where od: "od \<in> set all" "r = order_row od" "ID od = i"
    unfolding rows(1) set_map by (metis imageE order_row_sel(1))
  have get: "OrderRepo_GetByID pg i (wDb w) = Inr od"
    using find od by (simp add: OrderRepo_GetByID_def pg_def t_select_order_def)
  let ?p = "OPair od" and ?now = "micros (tNow (wDb w))"
  obtain book w1 where gc: "GetOrCreateOrderBook ?p w = Some (book, w1)" using GetOrCreateOrderBook_total by blast
  note G = GetOrCreateOrderBook_frame [OF gc]
  obtain m' book' x where can: "CancelOrder (wMem w1) book i = Some (m', book', x)"
    using run get gc by (cases "CancelOrder (wMem w1) book i") (auto simp: OrderService_CancelOrder_def sql)
  let ?db = "(wDb w)\<lparr>tOrders := map order_row (map (cancel_row i ?now) all)\<rparr>"
  have eq: "set_status i OrderStatusCancelled (big_String (FilledBase od)) ?now (order_row y) = order_row (cancel_row i ?now y)"
    if "y \<in> set all" for y
  proof (cases "ID y = i")
    case True
    then have "y = od" using distinct_IDs [OF dist that od(1)] od(3) by simp
    then show ?thesis by (simp add: set_status_def cancel_row_def order_row_def)
  qed (simp add: set_status_def cancel_row_def)
  have "int_ok (FilledBase od)" using rows(2) od(1) by (simp add: row_ok_def)
  then have u: "OrderRepo_UpdateStatus pg i OrderStatusCancelled (big_String (FilledBase od)) (wDb w) = (None, ?db)"
    using eq by (simp add: OrderRepo_UpdateStatus_def pg_def t_update_status_def status_check_def OrderStatusCancelled_def rows)
  let ?w3 = "(set_book ?p book' (w1\<lparr>wMem := m'\<rparr>))\<lparr>wDb := ?db\<rparr>"
  have uc: "updateCache d ?p book' ?w3 = Some w'" and res: "res = Inr ()"
    using run get gc can u G(3) by (auto simp: OrderService_CancelOrder_def sql Let_def split: option.splits)
  note F = updateCache_frame [OF uc]
  show ?thesis
  proof (rule that [OF od(1,3) gc can res])
    show "wDb w' = ?db" unfolding F(3) by (simp del: map_map)
  qed (simp_all add: F(1,4,5,6) G(4,5) del: map_map)
qed

lemma CancelOrder_mirror:
  assumes sql: "dSql d = pg" and inv: "mirror_inv (dEnv d) w" and run: "OrderService_CancelOrder d i w = (w', Some res)"
  shows "mirror_inv (dEnv d) w'"
proof -
  obtain all where s: "svc_inv tables_ok tOrders w" and mr: "mirror_rows (dEnv d) all w" and dist: "distinct (map ID all)"
    and bi: "books_inv (wMem w) (wNextO w) (ID ` set all) (wBooks w)"
    using inv by (rule mirror_invE)
  note M = mirror_rowsD [OF mr]
  have s': "svc_inv tables_ok tOrders w'" by (rule tab.CancelOrder_inv(1) [OF sql s run])
  have "\<exists>all. mirror_rows (dEnv d) all w'"
  proof (cases "i \<in> ID ` set all")
    case False
    then have "i \<notin> rwID ` set (tOrders (wDb w))" by (simp add: M(1) image_image)
    then show ?thesis using run mr CancelOrder_unknown [OF sql] by auto
  next
    case True
    have ok: "\<forall>y \<in> set all. row_ok y" using M(2) by blast
    let ?now = "micros (tNow (wDb w))"
    let ?all = "map (cancel_row i ?now) all"
    obtain od book w1 m' book' x where od: "od \<in> set all" "ID od = i"
      and gc: "GetOrCreateOrderBook (OPair od) w = Some (book, w1)"
      and can: "CancelOrder (wMem w1) book i = Some (m', book', x)"
      and w': "wMem w' = m'" "wBooks w' = (wBooks w1)(OPair od \<mapsto> book')" "wTick w' = wTick w"
        "wDb w' = (wDb w)\<lparr>tOrders := map order_row ?all\<rparr>"
      using CancelOrder_known [OF sql M(1) ok dist True run] by metis
    note G = GetOrCreateOrderBook_frame [OF gc]
    have B1: "books_inv (wMem w1) (wNextO w1) (ID ` set all) (wBooks w1)"
      unfolding G(1,2) G(7,8) by (rule books_inv_create [OF bi])
    have b1: "wBooks w1 (OPair od) = Some book" by (simp add: G(7))
    have mir1: "mirrored (wMem w1) (wBooks w1) all" unfolding G(1) G(7,8) by (rule mirrored_create [OF M(5)])
    have "mirrored (wMem w') (wBooks w') ?all"
      unfolding w'(1,2) by (rule mirrored_cancel [OF B1 mir1 dist b1 can od refl])
    moreover have "\<forall>y \<in> set ?all. row_ok y" using M(2) by (auto simp: row_ok_def)
    moreover have "ID ` set ?all = ID ` set all" by (simp add: image_image)
    moreover have "tOrders (wDb w') = map order_row ?all" "tTrades (wDb w') = tTrades (wDb w)"
      unfolding w'(4) by (simp_all del: map_map)
    ultimately have "mirror_rows (dEnv d) ?all w'" unfolding mirror_rows_def w'(3) using M(3,4) by metis
    then show ?thesis by blast
  qed
  then show ?thesis using s' by (simp add: mirror_inv_def)
qed

section \<open>Runs of the service\<close>

text \<open>
  Requests handled one after the other, from a process started on empty tables.  A request that panics
  (an order with two zero amounts) is recovered by the HTTP server, its deferred unlocks run, and the service
  goes on in the world it left.
\<close>

inductive svc_step :: "('pk, tables, 'c) deps \<Rightarrow> (tables, 'c) world \<Rightarrow> (tables, 'c) world \<Rightarrow> bool" for d where
  submit: "OrderService_SubmitOrder d sub w = (w', res) \<Longrightarrow> svc_step d w w'"
| cancel: "OrderService_CancelOrder d i w = (w', res) \<Longrightarrow> svc_step d w w'"
| orderbook: "OrderService_GetOrderbook p w = Some (s, w') \<Longrightarrow> svc_step d w w'"

inductive svc_reachable :: "('pk, tables, 'c) deps \<Rightarrow> (tables, 'c) world \<Rightarrow> bool" for d where
  start: "svc_reachable d (start_world m n \<lparr>tOrders = [], tTrades = [], tNow = t\<rparr> k c)"
| step: "svc_reachable d w \<Longrightarrow> svc_step d w w' \<Longrightarrow> svc_reachable d w'"

inductive_cases svc_stepE: "svc_step d w w'"

lemma GetOrderbook_mirror:
  assumes inv: "mirror_inv env w" and run: "OrderService_GetOrderbook p w = Some (s, w')"
  shows "mirror_inv env w'"
proof -
  obtain all where sv: "svc_inv tables_ok tOrders w" and mr: "mirror_rows env all w"
    using inv by (rule mirror_invE)
  obtain book where gc: "GetOrCreateOrderBook p w = Some (book, w')"
    using run by (auto simp: OrderService_GetOrderbook_def bind_Some_iff)
  note G = GetOrCreateOrderBook_frame [OF gc]
  have "books_inv (wMem w') (wNextO w') (rwID ` set (tOrders (wDb w'))) (wBooks w')"
    unfolding G(1,2,3) G(7,8) using sv by (intro books_inv_create) (simp add: svc_inv_def)
  then have "svc_inv tables_ok tOrders w'" using sv by (simp add: svc_inv_def G(3))
  moreover have "mirror_rows env all w'"
    by (rule mirror_rows_tick [OF mr G(3)]) (simp_all only: G mirrored_create [OF mirror_rowsD(5) [OF mr]] order_refl)
  ultimately show ?thesis by (auto simp: mirror_inv_def)
qed

lemma svc_step_mirror:
  assumes "dSql d = pg" "env_ok (dEnv d)" "mirror_inv (dEnv d) w" "svc_step d w w'"
  shows "mirror_inv (dEnv d) w'"
  using assms(4)
proof (cases rule: svc_step.cases)
  case (cancel i res)
  then obtain r where "res = Some r"
    using tab.CancelOrder_inv(2) [OF assms(1) _ cancel] assms(3) by (auto simp: mirror_inv_def)
  then show ?thesis using CancelOrder_mirror [OF assms(1,3)] cancel by blast
qed (auto intro: SubmitOrder_mirror [OF assms(1-3)] GetOrderbook_mirror [OF assms(3)])

lemma svc_reachable_mirror:
  assumes "dSql d = pg" "env_ok (dEnv d)" "svc_reachable d w"
  shows "mirror_inv (dEnv d) w"
  using assms(3)
proof (induction rule: svc_reachable.induct)
  case (start m n t k c)
  show ?case by (auto simp: mirror_inv_def svc_inv_def tables_ok_def mirror_rows_def mirrored_def)
next
  case (step w w')
  then show ?case by (blast intro: svc_step_mirror [OF assms(1,2)])
qed

section \<open>A restart\<close>

lemma sort_rows_orders: "\<exists>ods. rowsToOrders rs = Inr ods" if "\<forall>r \<in> set rs. \<exists>od. r = order_row od"
  using that
proof (induction rs)
  case (Cons r rs)
  then obtain od ods where "r = order_row od" "rowsToOrders rs = Inr ods" by auto
  then show ?case by simp
qed simp

lemma GetOpenByPair_pg:
  assumes "tables_ok db" "tOrders db = map order_row all"
  shows "\<exists>ods. OrderRepo_GetOpenByPair pg p db = Inr ods \<and>
    mset ods = filter_mset (\<lambda>od. is_open p (order_row od)) (mset all)"
proof -
  obtain rs where rs: "select_open pg p db = Inr rs" by (auto simp: pg_def t_select_open_def)
  have "set rs \<subseteq> set (tOrders db)" using rs by (auto simp: pg_def t_select_open_def)
  then have "\<forall>r \<in> set rs. \<exists>od. r = order_row od" using assms(2) by auto
  then obtain ods where "rowsToOrders rs = Inr ods" using sort_rows_orders by blast
  then have "OrderRepo_GetOpenByPair pg p db = Inr ods" using rs by (simp add: OrderRepo_GetOpenByPair_def)
  then show ?thesis using tab.open_orders(1) [OF assms(1) _ assms(2)] by blast
qed

text \<open>What a restart may change in an order: the time of its creation is rounded, that of its update is the row's.\<close>

definition rounded :: "Order \<Rightarrow> Order" where
  "rounded od = od\<lparr>CreatedAt := micros (CreatedAt od), UpdatedAt := 0\<rparr>"

definition book_view :: "(Order \<Rightarrow> Order) \<Rightarrow> mem \<Rightarrow> bool \<Rightarrow> OrderBook option \<Rightarrow> Order multiset" where
  "book_view f m s ob = (case ob of None \<Rightarrow> {#} | Some b \<Rightarrow> image_mset f (book_side m (side_of s b)))"

lemma mirrors_rounded: "mirrors od row \<Longrightarrow> row\<lparr>UpdatedAt := 0\<rparr> = rounded od"
  by (cases od; cases row) (simp add: mirrors_def rounded_def)

lemma mset_by_ID:
  fixes xs ys :: "Order list" and f g :: "Order \<Rightarrow> Order"
  assumes "distinct (map ID xs)" "distinct (map ID ys)" "\<And>x. ID (f x) = ID x" "\<And>y. ID (g y) = ID y"
    "f ` set xs = g ` set ys"
  shows "image_mset f (mset xs) = image_mset g (mset ys)"
proof -
  have d: "distinct (map f xs)" if "distinct (map ID xs)" "\<And>x. ID (f x) = ID x" for f :: "Order \<Rightarrow> Order" and xs :: "Order list"
  proof -
    have "distinct (map ID (map f xs))" using that by (simp add: comp_def)
    then show ?thesis by (simp only: distinct_map)
  qed
  have "mset (map f xs) = mset (map g ys)"
    using iffD1 [OF set_eq_iff_mset_eq_distinct [OF d [OF assms(1,3)] d [OF assms(2,4)]]] assms(5) by simp
  then show ?thesis by simp
qed

lemma side_distinct_ids:
  assumes "book_inv m b"
  shows "distinct (map ID (map (order_of m) (side_of s b)))"
proof -
  have "inj_on (\<lambda>e. ID (order_of m e)) (set (side_of s b))"
  proof (rule inj_onI)
    fix x y assume xy: "x \<in> set (side_of s b)" "y \<in> set (side_of s b)" "ID (order_of m x) = ID (order_of m y)"
    then have "x \<in> entries b" "y \<in> entries b" using entries_sides [of b s] by blast+
    then have "orderMap b (ID (order_of m x)) = Some x" "orderMap b (ID (order_of m x)) = Some y"
      using orderMap_iff [OF assms] xy(3) by simp_all
    then show "x = y" by simp
  qed
  moreover have "distinct (side_of s b)" using book_invD(1) [OF assms] by (simp add: side_inv_def)
  ultimately show ?thesis by (simp add: distinct_map comp_def)
qed

text \<open>The open rows of a pair, as far as something of them is left, are the book of the pair.\<close>

lemma resting_side:
  assumes "book_inv m b" "r \<in> resting m b" "(Side (ordAt m r) = SideBuy) = s"
  shows "\<exists>e \<in> set (side_of s b). order_of m e = ordAt m r"
proof -
  obtain e where e: "e \<in> entries b" "r = entryOrder (entAt m e)" using assms(2) by (auto simp: resting_def)
  have "e \<notin> set (side_of (\<not> s) b)"
    using book_invD(2) [OF assms(1), of e "\<not> s"] assms(3) e(2) by (auto simp: live_def)
  then show ?thesis using e entries_sides [of b s] by auto
qed

lemma open_rows_set:
  assumes inv: "books_inv m n ids B" and mir: "mirrored m B all" and dist: "distinct (map ID all)" and b: "B p = Some b"
    and ods: "set ods = {od \<in> set all. OPair od = p \<and> active od}"
  shows "(\<lambda>od. od\<lparr>UpdatedAt := 0\<rparr>) ` {od \<in> set ods. (Side od = SideBuy) = s \<and> 0 < RemainingBase od} =
    rounded ` order_of m ` set (side_of s b)"
proof (intro set_eqI iffI)
  note binv = books_invD(1) [OF inv b]
  fix z assume "z \<in> (\<lambda>od. od\<lparr>UpdatedAt := 0\<rparr>) ` {od \<in> set ods. (Side od = SideBuy) = s \<and> 0 < RemainingBase od}"
  then obtain od where od: "od \<in> set all" "OPair od = p" "active od" "(Side od = SideBuy) = s" "0 < RemainingBase od"
    and z: "z = od\<lparr>UpdatedAt := 0\<rparr>" by (auto simp: ods)
  obtain r where r: "r \<in> resting m b" "ID (ordAt m r) = ID od"
    using mirroredD(2) [OF mir od(1,3,5)] od(2) b by auto
  obtain y where y: "y \<in> set all" "mirrors (ordAt m r) y" using mirroredD(1) [OF mir b r(1)] by blast
  have "y = od" using distinct_IDs [OF dist y(1) od(1)] mirrors_eqs(1) [OF y(2)] r(2) by simp
  then have "mirrors (ordAt m r) od" using y(2) by simp
  then have "z = rounded (ordAt m r)" "(Side (ordAt m r) = SideBuy) = s"
    using mirrors_rounded mirrors_eqs(6) od(4) by (auto simp: z)
  then show "z \<in> rounded ` order_of m ` set (side_of s b)"
    using resting_side [OF binv r(1)] by force
next
  note binv = books_invD(1) [OF inv b]
  fix z assume "z \<in> rounded ` order_of m ` set (side_of s b)"
  then obtain e where e: "e \<in> set (side_of s b)" "z = rounded (order_of m e)" by auto
  then have r: "entryOrder (entAt m e) \<in> resting m b" using entries_sides [of b s] by (auto simp: resting_def)
  obtain y where y: "y \<in> set all" "mirrors (order_of m e) y" using mirroredD(1) [OF mir b r] by blast
  have "live s (order_of m e)" using book_invD(2) [OF binv e(1)] .
  then have my: "y \<in> {od \<in> set ods. (Side od = SideBuy) = s \<and> 0 < RemainingBase od}"
    using y(1) mirrors_eqs [OF y(2)] books_invD(3) [OF inv b r] by (simp add: ods live_def)
  show "z \<in> (\<lambda>od. od\<lparr>UpdatedAt := 0\<rparr>) ` {od \<in> set ods. (Side od = SideBuy) = s \<and> 0 < RemainingBase od}"
    by (rule image_eqI [OF _ my]) (simp add: e(2) mirrors_rounded [OF y(2)])
qed

lemma open_rows_book:
  assumes inv: "books_inv m n ids B" and mir: "mirrored m B all" and dist: "distinct (map ID all)"
    and ods: "mset ods = filter_mset (\<lambda>od. is_open p (order_row od)) (mset all)"
  shows "distinct (map ID ods)"
    "image_mset (\<lambda>od. od\<lparr>UpdatedAt := 0\<rparr>) (side_orders s ods) = book_view rounded m s (B p)"
proof -
  have open_iff: "is_open p (order_row od) \<longleftrightarrow> OPair od = p \<and> active od" for od by (simp add: is_open_def active_def)
  have ods': "mset ods = mset (filter (\<lambda>od. is_open p (order_row od)) all)" using ods by (simp add: mset_filter)
  then have set_ods: "set ods = {od \<in> set all. OPair od = p \<and> active od}"
    using mset_eq_setD [OF ods'] by (auto simp: open_iff)
  have "mset (map ID ods) = mset (map ID (filter (\<lambda>od. is_open p (order_row od)) all))" using ods' by simp
  then show d: "distinct (map ID ods)" using dist mset_eq_imp_distinct_iff distinct_map_filter by metis
  let ?S = "filter (\<lambda>od. (Side od = SideBuy) = s \<and> 0 < RemainingBase od) ods"
  show "image_mset (\<lambda>od. od\<lparr>UpdatedAt := 0\<rparr>) (side_orders s ods) = book_view rounded m s (B p)"
  proof (cases "B p")
    case None
    have "\<not> 0 < RemainingBase od" if "od \<in> set ods" for od
      using that mirroredD(2) [OF mir, of od] None by (auto simp: set_ods)
    then have "?S = []" by (auto simp: filter_empty_conv)
    then show ?thesis by (simp add: book_view_def None side_orders_def)
  next
    case (Some b)
    have "image_mset (\<lambda>od. od\<lparr>UpdatedAt := 0\<rparr>) (mset ?S) = image_mset rounded (mset (map (order_of m) (side_of s b)))"
    proof (rule mset_by_ID)
      show "distinct (map ID ?S)" by (rule distinct_map_filter [OF d])
      show "distinct (map ID (map (order_of m) (side_of s b)))" by (rule side_distinct_ids [OF books_invD(1) [OF inv Some]])
      show "(\<lambda>od. od\<lparr>UpdatedAt := 0\<rparr>) ` set ?S = rounded ` set (map (order_of m) (side_of s b))"
        using open_rows_set [OF inv mir dist Some set_ods, of s] by simp
    qed (simp_all add: rounded_def)
    then show ?thesis by (simp add: book_view_def Some side_orders_def book_side_def)
  qed
qed

text \<open>And they do not cross, as the book did not.\<close>

lemma open_rows_no_cross:
  assumes inv: "books_inv m n ids B" and mir: "mirrored m B all" and dist: "distinct (map ID all)"
    and ods: "\<forall>od \<in> set ods. od \<in> set all \<and> OPair od = p \<and> active od"
  shows "no_cross (mset ods)"
  unfolding no_cross_def
proof (intro ballI impI)
  fix x y assume x: "x \<in># mset ods" "Side x = SideBuy" "0 < RemainingBase x"
    and y: "y \<in># mset ods" "Side y \<noteq> SideBuy" "0 < RemainingBase y"
  have find: "\<exists>b r. B p = Some b \<and> r \<in> resting m b \<and> mirrors (ordAt m r) z"
    if z: "z \<in># mset ods" "0 < RemainingBase z" for z
  proof -
    have z': "z \<in> set all" "OPair z = p" "active z" using ods z(1) by auto
    obtain b r where r: "B p = Some b" "r \<in> resting m b" "ID (ordAt m r) = ID z"
      using mirroredD(2) [OF mir z'(1,3) z(2)] z'(2) by auto
    obtain u where u: "u \<in> set all" "mirrors (ordAt m r) u" using mirroredD(1) [OF mir r(1,2)] by blast
    have "u = z" using distinct_IDs [OF dist u(1) z'(1)] mirrors_eqs(1) [OF u(2)] r(3) by simp
    then show ?thesis using r u(2) by blast
  qed
  obtain b r where r: "B p = Some b" "r \<in> resting m b" "mirrors (ordAt m r) x" using find [OF x(1,3)] by blast
  obtain s where s: "s \<in> resting m b" "mirrors (ordAt m s) y" using find [OF y(1,3)] r(1) by auto
  note binv = books_invD(1) [OF inv r(1)]
  have sx: "(Side (ordAt m r) = SideBuy) = True" and sy: "(Side (ordAt m s) = SideBuy) = False"
    using mirrors_eqs(6) [OF r(3)] mirrors_eqs(6) [OF s(2)] x(2) y(2) by simp_all
  obtain e f where "e \<in> set (buys b)" "order_of m e = ordAt m r" "f \<in> set (sells b)" "order_of m f = ordAt m s"
    using resting_side [OF binv r(2) sx] resting_side [OF binv s(1) sy] by auto
  then have "price_of (ordAt m r) < price_of (ordAt m s)"
    using book_invD(5) [OF binv] unfolding uncrossed_def by metis
  then show "price_of x < price_of y"
    using mirrors_eqs(7) [OF r(3)] mirrors_eqs(7) [OF s(2)] by (simp add: price_of_def)
qed

end
