(* ===== verification/Requests.thy ===== *)
theory Requests
  imports Recovery
begin

text \<open>
  What one request does to the trades, the settlement queue and the orders of the store: every trade it adds
  has a new id and its own job, and no order loses its terms.
\<close>

section \<open>The trades and jobs of a request\<close>

definition recorded :: "mem \<Rightarrow> tradeRow \<Rightarrow> SettleJob \<Rightarrow> bool" where
  "recorded m t j \<longleftrightarrow> twID t = jTradeID j \<and>
     twBuyOrderID t = ID (ordAt m (mBuyOrder (jMatch j))) \<and> twSellOrderID t = ID (ordAt m (mSellOrder (jMatch j))) \<and>
     twBaseAmount t = big_String (FillAmount (jMatch j)) \<and> twQuoteAmount t = big_String (QuoteAmount (jMatch j))"

text \<open>Every trade a request adds is unsettled, has a new id and its own job.\<close>

definition trades_grow :: "mem \<Rightarrow> MatchResult set \<Rightarrow> (tables, 'c) world \<Rightarrow> (tables, 'c) world \<Rightarrow> bool" where
  "trades_grow m M w w' \<longleftrightarrow> (\<exists>ts js. tTrades (wDb w') = tTrades (wDb w) @ ts \<and> wJobs w' = wJobs w @ js \<and>
     list_all2 (recorded m) ts js \<and> (\<forall>t \<in> set ts. \<not> twSettledOnChain t) \<and> jMatch ` set js \<subseteq> M \<and>
     (distinct (map twID (tTrades (wDb w))) \<longrightarrow> distinct (map twID (tTrades (wDb w')))))"

lemma trades_grow_same: "tTrades (wDb w') = tTrades (wDb w) \<Longrightarrow> wJobs w' = wJobs w \<Longrightarrow> trades_grow m M w w'"
  unfolding trades_grow_def by (intro exI [of _ "[]"]) simp

lemma trades_grow_trans:
  assumes "trades_grow m M w w1" "trades_grow m N w1 w2"
  shows "trades_grow m (M \<union> N) w w2"
proof -
  obtain ts js where a: "tTrades (wDb w1) = tTrades (wDb w) @ ts" "wJobs w1 = wJobs w @ js"
    "list_all2 (recorded m) ts js" "\<forall>t \<in> set ts. \<not> twSettledOnChain t" "jMatch ` set js \<subseteq> M"
    "distinct (map twID (tTrades (wDb w))) \<longrightarrow> distinct (map twID (tTrades (wDb w1)))"
    using assms(1) unfolding trades_grow_def by blast
  obtain us ks where b: "tTrades (wDb w2) = tTrades (wDb w1) @ us" "wJobs w2 = wJobs w1 @ ks"
    "list_all2 (recorded m) us ks" "\<forall>t \<in> set us. \<not> twSettledOnChain t" "jMatch ` set ks \<subseteq> N"
    "distinct (map twID (tTrades (wDb w1))) \<longrightarrow> distinct (map twID (tTrades (wDb w2)))"
    using assms(2) unfolding trades_grow_def by blast
  have c: "tTrades (wDb w2) = tTrades (wDb w) @ (ts @ us)" "wJobs w2 = wJobs w @ (js @ ks)"
    by (simp_all only: b(1,2) a(1,2) append_assoc)
  have d: "list_all2 (recorded m) (ts @ us) (js @ ks)" by (rule list_all2_appendI [OF a(3) b(3)])
  have e: "\<forall>t \<in> set (ts @ us). \<not> twSettledOnChain t" using a(4) b(4) by auto
  have f: "jMatch ` set (js @ ks) \<subseteq> M \<union> N" using a(5) b(5) by auto
  show ?thesis unfolding trades_grow_def using c d e f a(6) b(6) by blast
qed

lemma update_order_status_trades:
  assumes "dSql d = pg"
  shows "tTrades (update_order_status d od db) = tTrades db"
  by (simp add: update_order_status_def OrderRepo_UpdateStatus_def assms pg_def t_update_status_def)

lemma process_match_trades:
  assumes "dSql d = pg"
  shows "trades_grow (wMem w) {mt} w (process_match d p mt w)"
proof -
  obtain err t db1 where c: "TradeRepo_Create pg (dEnv d) (wTick w) (match_trade p (wMem w) mt) (wDb w) = (err, t, db1)"
    by (cases "TradeRepo_Create pg (dEnv d) (wTick w) (match_trade p (wMem w) mt) (wDb w)")
  then have ins: "t_insert_trade (trade_row t) (wDb w) = (err, db1)"
    and t: "BaseAmount t = FillAmount mt" "TQuoteAmount t = QuoteAmount mt" "SettledOnChain t = False"
      "BuyOrderID t = ID (ordAt (wMem w) (mBuyOrder mt))" "SellOrderID t = ID (ordAt (wMem w) (mSellOrder mt))"
    by (auto simp: TradeRepo_Create_def Let_def match_trade_def pg_def split: prod.splits)
  show ?thesis
  proof (cases err)
    case (Some e)
    then have "db1 = wDb w" using ins by (auto simp: t_insert_trade_def split: option.splits)
    then show ?thesis using c Some by (intro trades_grow_same) (simp_all add: process_match_def Let_def assms)
  next
    case None
    let ?t = "trade_row (t\<lparr>TCreatedAt := micros (TCreatedAt t)\<rparr>)"
    have chk: "trade_check (trade_row t) (wDb w) = None" and db1: "tTrades db1 = tTrades (wDb w) @ [?t]"
      using ins None trade_row_stored [of t] by (auto simp: t_insert_trade_def split: option.splits)
    have fresh: "twID ?t \<notin> twID ` set (tTrades (wDb w))"
      using chk by (auto simp: trade_check_def trade_row_def split: if_splits)
    have w': "tTrades (wDb (process_match d p mt w)) = tTrades (wDb w) @ [?t]"
      "wJobs (process_match d p mt w) = wJobs w @ [\<lparr>jMatch = mt, jTradeID = TradeID t\<rparr>]"
      using c None db1 update_order_status_trades [OF assms] by (simp_all add: process_match_def Let_def assms)
    show ?thesis
      unfolding trades_grow_def w'
      by (intro exI [of _ "[?t]"] exI [of _ "[\<lparr>jMatch = mt, jTradeID = TradeID t\<rparr>]"] conjI)
        (use fresh t in \<open>simp_all add: recorded_def trade_row_def\<close>)
  qed
qed

lemma fold_process_match_trades:
  assumes "dSql d = pg"
  shows "trades_grow (wMem w) (set ms) w (fold (process_match d p) ms w)"
proof (induction ms arbitrary: w)
  case (Cons mt ms)
  from Cons.IH [of "process_match d p mt w"]
  have "trades_grow (wMem w) (set ms) (process_match d p mt w) (fold (process_match d p) (mt # ms) w)" by simp
  from trades_grow_trans [OF process_match_trades [OF assms] this] show ?case by simp
qed (simp add: trades_grow_same)

section \<open>Orders keep their terms\<close>

definition terms_kept :: "(tables, 'c) world \<Rightarrow> (tables, 'c) world \<Rightarrow> bool" where
  "terms_kept w w' \<longleftrightarrow> wNextO w \<le> wNextO w' \<and> (\<forall>r < wNextO w. same_terms (ordAt (wMem w) r) (ordAt (wMem w') r))"

lemma terms_kept_same: "wMem w' = wMem w \<Longrightarrow> wNextO w' = wNextO w \<Longrightarrow> terms_kept w w'"
  by (simp add: terms_kept_def)

text \<open>One request: the trades it adds with their jobs, whose parties are stored orders.\<close>

definition request_ok :: "(tables, 'c) world \<Rightarrow> (tables, 'c) world \<Rightarrow> bool" where
  "request_ok w w' \<longleftrightarrow> terms_kept w w' \<and>
     (\<exists>M. trades_grow (wMem w') M w w' \<and> (\<forall>x \<in> M. mBuyOrder x < wNextO w' \<and> mSellOrder x < wNextO w'))"

lemma request_okI:
  assumes "terms_kept w w'" "tTrades (wDb w') = tTrades (wDb w)" "wJobs w' = wJobs w"
  shows "request_ok w w'"
  using assms(1) trades_grow_same [OF assms(2,3), of "wMem w'" "{}"] unfolding request_ok_def by blast

lemma place_order_request:
  assumes sql: "dSql d = pg" and inv: "svc_inv tables_ok tOrders w" and od: "FilledBase od = 0" "Status od = OrderStatusOpen"
    and run: "place_order d od w = (w', res)"
  shows "request_ok w w'"
proof -
  let ?r = "wNextO w"
  obtain err od' db' where c: "OrderRepo_Create pg (dEnv d) (wTick w) od (wDb w) = (err, od', db')"
    by (cases "OrderRepo_Create pg (dEnv d) (wTick w) od (wDb w)")
  note C = OrderRepo_Create_order [OF c]
  have g: "tables_ok (wDb w)" and bi: "books_inv (wMem w) ?r (rwID ` set (tOrders (wDb w))) (wBooks w)"
    using inv by (simp_all add: svc_inv_def)
  let ?w1 = "w\<lparr>wDb := db', wTick := Suc (wTick w), wMem := store_order (wMem w) ?r od', wNextO := Suc ?r\<rparr>"
  have trades: "tTrades db' = tTrades (wDb w)" using tab.insert_order_trades [OF g C(1)] .
  have st: "same_terms (ordAt (wMem w) r) (ordAt (store_order (wMem w) ?r od') r)" if "r < ?r" for r
    using that by (simp add: store_order_def)
  show ?thesis
  proof (cases err)
    case (Some e)
    then have "w' = ?w1" using run c by (simp add: place_order_def sql Let_def)
    then show ?thesis using trades st by (intro request_okI) (simp_all add: terms_kept_def)
  next
    case None
    have ins: "tOrders db' = tOrders (wDb w) @ [order_row (stored micros od')]" "tables_ok db'"
      using tab.insert_ok [OF g] C(1) None by blast+
    have newid: "ID od' \<notin> rwID ` set (tOrders (wDb w))"
      using tab.unique [OF ins(2)] by (simp add: ins(1) stored_def)
    obtain book w2 where gc: "GetOrCreateOrderBook (OPair od') ?w1 = Some (book, w2)"
      using GetOrCreateOrderBook_total by blast
    note G = GetOrCreateOrderBook_frame [OF gc]
    have "books_inv (wMem w) ?r (rwID ` set (tOrders (wDb w))) (wBooks ?w1)" using bi by simp
    note P = placed_setup [OF this _ _ gc newid, simplified, OF od(1) [folded C(4)] od(2) [folded C(5)]]
    have mem2: "wMem w2 = store_order (wMem w) ?r od'" "wNextO w2 = Suc ?r" using G by simp_all
    show ?thesis
    proof (cases "AddOrder (wMem w2) book ?r")
      case None2: None
      then have "w' = w2" using run c None gc by (simp add: place_order_def sql Let_def)
      then show ?thesis using G trades st by (intro request_okI) (simp_all add: terms_kept_def)
    next
      case (Some x)
      obtain m' book' ms where x: "AddOrder (wMem w2) book ?r = Some (m', book', ms)" using Some by (cases x) auto
      have ok: "add_ok (wMem w2) book ?r" using AddOrder_priced [OF x] P(3) by (intro P(5)) simp
      let ?w3 = "set_book (OPair od') book' (w2\<lparr>wMem := m'\<rparr>)"
      let ?w4 = "fold (process_match d (OPair od')) ms ?w3"
      have "book_inv (wMem ?w4) book'" using AddOrder_cases [OF ok x] by simp
      then obtain w5 where "updateCache d (OPair od') book' ?w4 = Some w5" using updateCache_total by blast
      then have uc: "updateCache d (OPair od') book' ?w4 = Some w'"
        using run c None gc x by (simp add: place_order_def sql Let_def)
      note F = updateCache_frame [OF uc]
      obtain ks where ks: "ms = map (trade_record (wMem w2) (is_buy (wMem w2) ?r) ?r) ks" and ad: "added (wMem w2) book ?r m' book' ks"
        using AddOrder_cases [OF ok x] by blast
      have next': "wNextO w' = Suc ?r" "wMem w' = m'" using F mem2 by simp_all
      have "same_terms (ordAt (wMem w) r) (ordAt m' r)" if "r < ?r" for r
        using same_terms_trans [OF st [OF that]] added_terms [OF ad, of r] by (simp add: mem2)
      then have kept: "terms_kept w w'" by (simp add: terms_kept_def next')
      have ids: "k < Suc ?r" if "(k, n) \<in> set ks" for k n
      proof -
        have "k \<in> resting (wMem w2) book" using addedD(4) [OF ad] that by force
        then show ?thesis using books_invD(2) [OF P(1,2)] mem2 by simp
      qed
      have "\<forall>x \<in> set ms. mBuyOrder x < wNextO w' \<and> mSellOrder x < wNextO w'"
        using ids by (auto simp: ks next')
      moreover have "trades_grow (wMem ?w3) (set ms) ?w3 ?w4" by (rule fold_process_match_trades [OF sql])
      then have "trades_grow (wMem w') (set ms) w w'"
        unfolding trades_grow_def next' F(3,5) using G trades by simp
      ultimately show ?thesis using kept unfolding request_ok_def by blast
    qed
  qed
qed

lemma CancelOrder_terms:
  assumes inv: "book_inv m b" and run: "CancelOrder m b i = Some (m', b', res)"
  shows "same_terms (ordAt m r) (ordAt m' r)"
proof (cases "orderMap b i")
  case None
  then show ?thesis using run by (simp add: CancelOrder_def)
next
  case (Some e)
  then have "cancelled m b (entryOrder (entAt m e)) m' b'" using CancelOrder_spec [OF inv Some] run by auto
  then have "ordAt m' = (ordAt m)(entryOrder (entAt m e) := (ordAt m (entryOrder (entAt m e)))\<lparr>Status := OrderStatusCancelled\<rparr>)"
    by (simp add: cancelled_def Let_def)
  then show ?thesis by (simp add: same_terms_def)
qed

lemma CancelOrder_next:
  assumes "OrderService_CancelOrder d i w = (w', Some res)"
  shows "wNextO w' = wNextO w"
  using assms
  by (auto simp: OrderService_CancelOrder_def Let_def dest!: GetOrCreateOrderBook_frame(2) updateCache_frame(2)
    split: sum.splits option.splits prod.splits)

lemma CancelOrder_request:
  assumes sql: "dSql d = pg" and inv: "mirror_inv (dEnv d) w" and run: "OrderService_CancelOrder d i w = (w', Some res)"
  shows "request_ok w w'"
proof -
  obtain all where mr: "mirror_rows (dEnv d) all w" and dist: "distinct (map ID all)"
    and bi: "books_inv (wMem w) (wNextO w) (ID ` set all) (wBooks w)"
    using inv by (rule mirror_invE)
  note M = mirror_rowsD [OF mr]
  show ?thesis
  proof (cases "i \<in> ID ` set all")
    case False
    then have "i \<notin> rwID ` set (tOrders (wDb w))" by (simp add: M(1) image_image)
    then have "w' = w" using run CancelOrder_unknown [OF sql] by auto
    then show ?thesis by (intro request_okI) (simp_all add: terms_kept_same)
  next
    case True
    have ok: "\<forall>y \<in> set all. row_ok y" using M(2) by blast
    let ?P = "\<lambda>(od :: Order) book w1 m' book' x. GetOrCreateOrderBook (OPair od) w = Some (book, w1) \<and>
      CancelOrder (wMem w1) book i = Some (m', book', x) \<and> wMem w' = m' \<and> wJobs w' = wJobs w \<and>
      tTrades (wDb w') = tTrades (wDb w)"
    obtain od book w1 m' book' x where P: "?P od book w1 m' book' x"
    proof (rule CancelOrder_known [OF sql M(1) ok dist True run])
      fix od :: Order and book w1 m' book' x
      assume a: "GetOrCreateOrderBook (OPair od) w = Some (book, w1)" "CancelOrder (wMem w1) book i = Some (m', book', x)"
        "wMem w' = m'" "wJobs w' = wJobs w"
        "wDb w' = (wDb w)\<lparr>tOrders := map order_row (map (cancel_row i (micros (tNow (wDb w)))) all)\<rparr>"
      have "tTrades (wDb w') = tTrades (wDb w)" unfolding a(5) by (simp del: map_map)
      then have "?P od book w1 m' book' x" using a(1-4) by blast
      then show thesis by (rule that)
    qed
    have gc: "GetOrCreateOrderBook (OPair od) w = Some (book, w1)" and can: "CancelOrder (wMem w1) book i = Some (m', book', x)"
      and w': "wMem w' = m'" "wJobs w' = wJobs w" "tTrades (wDb w') = tTrades (wDb w)"
      using P by blast+
    note G = GetOrCreateOrderBook_frame [OF gc]
    have B1: "books_inv (wMem w1) (wNextO w1) (ID ` set all) (wBooks w1)"
      unfolding G(1,2) G(7,8) by (rule books_inv_create [OF bi])
    have b1: "wBooks w1 (OPair od) = Some book" by (simp add: G(7))
    have terms: "same_terms (ordAt (wMem w) r) (ordAt m' r)" for r
      by (rule CancelOrder_terms [OF books_invD(1) [OF B1 b1] can, unfolded G(1)])
    have "wNextO w' = wNextO w" by (rule CancelOrder_next [OF run])
    then show ?thesis using terms w' by (intro request_okI) (simp_all add: terms_kept_def)
  qed
qed

text \<open>What every request does to trades, jobs and orders.\<close>

lemma svc_step_request:
  assumes sql: "dSql d = pg" and inv: "mirror_inv (dEnv d) w" and st: "svc_step d w w'"
  shows "request_ok w w'"
  using st
proof (cases rule: svc_step.cases)
  case (submit sub res)
  show ?thesis
  proof (cases "check_submission d sub")
    case (Inl e)
    then have "w' = w" using submit by (simp add: OrderService_SubmitOrder_def)
    then show ?thesis by (intro request_okI) (simp_all add: terms_kept_same)
  next
    case (Inr od)
    then have po: "place_order d od w = (w', res)" using submit by (simp add: OrderService_SubmitOrder_def)
    have "FilledBase od = 0" "Status od = OrderStatusOpen"
      using Inr by (auto simp: check_submission_def submission_order_def split: option.splits sum.splits if_splits)
    then show ?thesis using inv by (intro place_order_request [OF sql _ _ _ po]) (simp_all add: mirror_inv_def)
  qed
next
  case (cancel i res)
  then obtain r where "res = Some r"
    using tab.CancelOrder_inv(2) [OF sql _ cancel] inv by (auto simp: mirror_inv_def)
  then show ?thesis using CancelOrder_request [OF sql inv] cancel by blast
next
  case (orderbook p s)
  then obtain book where "GetOrCreateOrderBook p w = Some (book, w')"
    by (auto simp: OrderService_GetOrderbook_def bind_Some_iff)
  note G = GetOrCreateOrderBook_frame [OF this]
  show ?thesis by (intro request_okI) (simp_all add: terms_kept_same G)
qed

end
