(* ===== verification/Settlement.thy ===== *)
theory Settlement
  imports ServiceOps
begin

text \<open>
  \<open>internal/blockchain/client.go\<close> and \<open>settlement.go\<close>: connecting to a node, and the worker that turns a
  match into a transaction and waits for its receipt.  The node, the key and ABI functions of go-ethereum
  and the network are not part of the repository: they are the fields of \<open>node\<close>, a parameter, over a
  network state \<open>'n\<close> that every call may change.
\<close>

section \<open>go-ethereum\<close>

record Transaction =
  txNonce :: "64 word"
  txTo :: address
  txValue :: int
  txGas :: "64 word"
  txGasPrice :: int
  txData :: "byte list"

record abiOrder =
  aoMaker :: address
  aoTokenSell :: address
  aoTokenBuy :: address
  aoAmountSell :: int
  aoAmountBuy :: int
  aoExpiry :: int
  aoNonce :: int
  aoSalt :: int

record ('key, 'tx, 'n) node =
  Dial :: "string \<Rightarrow> string option"
  HexToECDSA :: "string \<Rightarrow> string + 'key"
  KeyToAddress :: "'key \<Rightarrow> address"
  NetworkChainID :: "string + int"
  Pack_settleMatch :: "abiOrder \<Rightarrow> byte list \<Rightarrow> abiOrder \<Rightarrow> byte list \<Rightarrow> int \<Rightarrow> string + byte list"
  PendingNonceAt :: "address \<Rightarrow> 'n \<Rightarrow> (string + 64 word) \<times> 'n"
  SuggestGasPrice :: "'n \<Rightarrow> (string + int) \<times> 'n"
  SignTx :: "int \<Rightarrow> 'key \<Rightarrow> Transaction \<Rightarrow> string + 'tx"
  SendTransaction :: "'tx \<Rightarrow> 'n \<Rightarrow> string option \<times> 'n"
  WaitMined :: "'tx \<Rightarrow> 'n \<Rightarrow> (string + 64 word) \<times> 'n"
  HashHex :: "'tx \<Rightarrow> string"

text \<open>The documented value of \<open>types.ReceiptStatusSuccessful\<close>.\<close>

definition ReceiptStatusSuccessful :: "64 word" where
  "ReceiptStatusSuccessful = 1"

section \<open>\<open>client.go\<close>\<close>

record 'key Client =
  clPrivateKey :: 'key
  clAddress :: address
  clChainID :: int
  clContract :: address

datatype client_error =
    ConnectFailed string
  | InvalidPrivateKey string
  | ChainIDFailed string
  | ChainIDMismatch int int

text \<open>\<open>big.Int\<close>'s \<open>Int64\<close>: the low 64 bits, signed.\<close>

definition big_Int64 :: "int \<Rightarrow> int" where
  "big_Int64 x = sint (word_of_int x :: 64 word)"

definition NewClient ::
  "'pk eth \<Rightarrow> ('key, 'tx, 'n) node \<Rightarrow> string \<Rightarrow> string \<Rightarrow> int \<Rightarrow> string \<Rightarrow> client_error + 'key Client"
where
  "NewClient eth nd rpcURL privateKeyHex chainID contractAddr =
     (case Dial nd rpcURL of
        Some e \<Rightarrow> Inl (ConnectFailed e)
      | None \<Rightarrow>
     (case HexToECDSA nd privateKeyHex of
        Inl e \<Rightarrow> Inl (InvalidPrivateKey e)
      | Inr privateKey \<Rightarrow>
     (case NetworkChainID nd of
        Inl e \<Rightarrow> Inl (ChainIDFailed e)
      | Inr networkChainID \<Rightarrow>
          if big_Int64 networkChainID \<noteq> chainID then Inl (ChainIDMismatch chainID (big_Int64 networkChainID))
          else Inr \<lparr>clPrivateKey = privateKey, clAddress = KeyToAddress nd privateKey, clChainID = chainID,
                    clContract = HexToAddress eth contractAddr\<rparr>)))"

section \<open>\<open>settlement.go\<close>\<close>

text \<open>A worker is its client; \<open>abiErr\<close> is the outcome of parsing the constant \<open>nexusABI\<close>.\<close>

definition NewSettlementWorker :: "string option \<Rightarrow> 'key Client \<Rightarrow> string + 'key Client" where
  "NewSettlementWorker abiErr cl = (case abiErr of Some e \<Rightarrow> Inl e | None \<Rightarrow> Inr cl)"

datatype settle_error =
    PackFailed string
  | NonceFailed string
  | GasPriceFailed string
  | SignFailed string
  | SendFailed string
  | WaitMinedFailed string
  | TxReverted string

record SettleResult =
  srTxHash :: string
  srErr :: "settle_error option"

definition settle_failed :: "settle_error \<Rightarrow> SettleResult" where
  "settle_failed e = \<lparr>srTxHash = [], srErr = Some e\<rparr>"

definition tuplifyOrder :: "'pk eth \<Rightarrow> Order \<Rightarrow> abiOrder" where
  "tuplifyOrder eth od =
     \<lparr>aoMaker = HexToAddress eth (Maker od), aoTokenSell = HexToAddress eth (TokenSell od),
      aoTokenBuy = HexToAddress eth (TokenBuy od), aoAmountSell = AmountSell od, aoAmountBuy = AmountBuy od,
      aoExpiry = uint (Expiry od), aoNonce = uint (Nonce od), aoSalt = Salt od\<rparr>"

definition settlement_tx :: "'key Client \<Rightarrow> 64 word \<Rightarrow> int \<Rightarrow> byte list \<Rightarrow> Transaction" where
  "settlement_tx cl nonce gasPrice data =
     \<lparr>txNonce = nonce, txTo = clContract cl, txValue = 0, txGas = 500000, txGasPrice = gasPrice, txData = data\<rparr>"

definition settle ::
  "'pk eth \<Rightarrow> ('key, 'tx, 'n) node \<Rightarrow> 'key Client \<Rightarrow> mem \<Rightarrow> MatchResult \<Rightarrow> 'n \<Rightarrow> SettleResult \<times> 'n"
where
  "settle eth nd cl m mt n =
     (let buy = ordAt m (mBuyOrder mt);
          sell = ordAt m (mSellOrder mt);
          buySig = FromHex eth (Signature buy);
          sellSig = FromHex eth (Signature sell)
      in case Pack_settleMatch nd (tuplifyOrder eth buy) buySig (tuplifyOrder eth sell) sellSig (FillAmount mt) of
           Inl e \<Rightarrow> (settle_failed (PackFailed e), n)
         | Inr data \<Rightarrow>
     (case PendingNonceAt nd (clAddress cl) n of
        (Inl e, n1) \<Rightarrow> (settle_failed (NonceFailed e), n1)
      | (Inr nonce, n1) \<Rightarrow>
     (case SuggestGasPrice nd n1 of
        (Inl e, n2) \<Rightarrow> (settle_failed (GasPriceFailed e), n2)
      | (Inr gasPrice, n2) \<Rightarrow>
     (case SignTx nd (clChainID cl) (clPrivateKey cl) (settlement_tx cl nonce gasPrice data) of
        Inl e \<Rightarrow> (settle_failed (SignFailed e), n2)
      | Inr signedTx \<Rightarrow>
     (case SendTransaction nd signedTx n2 of
        (Some e, n3) \<Rightarrow> (settle_failed (SendFailed e), n3)
      | (None, n3) \<Rightarrow>
     (case WaitMined nd signedTx n3 of
        (Inl e, n4) \<Rightarrow> (settle_failed (WaitMinedFailed e), n4)
      | (Inr status, n4) \<Rightarrow>
          if status \<noteq> ReceiptStatusSuccessful then (settle_failed (TxReverted (HashHex nd signedTx)), n4)
          else (\<lparr>srTxHash = HashHex nd signedTx, srErr = None\<rparr>, n4)))))))"

text \<open>
  The worker's loop.  What \<open>select\<close> yields is an event: the context is done, the channel is closed, or a
  job; with none left the worker waits.  The result is the list of replies, by trade id.
\<close>

datatype run_event = CtxDone | JobsClosed | JobReady SettleJob

fun Run ::
  "'pk eth \<Rightarrow> ('key, 'tx, 'n) node \<Rightarrow> 'key Client \<Rightarrow> mem \<Rightarrow> run_event list \<Rightarrow> 'n \<Rightarrow> (string \<times> SettleResult) list \<times> 'n"
where
  "Run eth nd cl m [] n = ([], n)"
| "Run eth nd cl m (CtxDone # es) n = ([], n)"
| "Run eth nd cl m (JobsClosed # es) n = ([], n)"
| "Run eth nd cl m (JobReady j # es) n =
     (let (result, n1) = settle eth nd cl m (jMatch j) n;
          (rest, n2) = Run eth nd cl m es n1
      in ((jTradeID j, result) # rest, n2))"

text \<open>The goroutine of \<open>SubmitOrder\<close> that waits for a reply; errors of the update are logged only.\<close>

definition handle_result :: "('pk, 'db, 'c) deps \<Rightarrow> string \<Rightarrow> SettleResult \<Rightarrow> 'db \<Rightarrow> 'db" where
  "handle_result d tradeID result db =
     (if srErr result \<noteq> None then db else snd (TradeRepo_MarkSettled (dSql d) tradeID (srTxHash result) db))"

text \<open>Without a configured contract \<open>main\<close> drains the channel instead.\<close>

definition drain_result :: SettleResult where
  "drain_result = \<lparr>srTxHash = ''0x_mock'', srErr = None\<rparr>"

section \<open>Properties\<close>

text \<open>What the worker reads of an order are terms.\<close>

lemma tuplifyOrder_terms:
  assumes "same_terms x y"
  shows "tuplifyOrder eth y = tuplifyOrder eth x" "Signature y = Signature x"
  using assms by (cases x; cases y; simp add: same_terms_def tuplifyOrder_def)+

text \<open>
  C33: a settlement that reports success was mined successfully.  Its result is the hash of a transaction to
  the contract that carries exactly the two signed orders and the fill, was signed with the client's key
  for its chain, was accepted by the node, and has a receipt with status 1.
\<close>

theorem settle_success:
  assumes "settle eth nd cl m mt n = (r, n')" "srErr r = None"
  shows "\<exists>data nonce n1 gasPrice n2 tx n3.
    Pack_settleMatch nd (tuplifyOrder eth (ordAt m (mBuyOrder mt))) (FromHex eth (Signature (ordAt m (mBuyOrder mt))))
      (tuplifyOrder eth (ordAt m (mSellOrder mt))) (FromHex eth (Signature (ordAt m (mSellOrder mt)))) (FillAmount mt) = Inr data \<and>
    PendingNonceAt nd (clAddress cl) n = (Inr nonce, n1) \<and> SuggestGasPrice nd n1 = (Inr gasPrice, n2) \<and>
    SignTx nd (clChainID cl) (clPrivateKey cl)
      \<lparr>txNonce = nonce, txTo = clContract cl, txValue = 0, txGas = 500000, txGasPrice = gasPrice, txData = data\<rparr> = Inr tx \<and>
    SendTransaction nd tx n2 = (None, n3) \<and> WaitMined nd tx n3 = (Inr 1, n') \<and> srTxHash r = HashHex nd tx"
  using assms
  by (auto simp: settle_def Let_def settle_failed_def settlement_tx_def ReceiptStatusSuccessful_def
    split: sum.splits prod.splits option.splits if_splits)

text \<open>
  What is settled does not depend on when.  Matching may go on changing fills and statuses of the two
  orders while their job waits; the worker reads none of that, so the transaction and the result are the
  same as if the job had been settled at once.
\<close>

theorem settle_ignores_fills:
  assumes "same_terms (ordAt m (mBuyOrder mt)) (ordAt m' (mBuyOrder mt))"
    and "same_terms (ordAt m (mSellOrder mt)) (ordAt m' (mSellOrder mt))"
  shows "settle eth nd cl m' mt n = settle eth nd cl m mt n"
  using assms by (simp add: settle_def Let_def tuplifyOrder_terms)

section \<open>Witnesses\<close>

text \<open>A node that accepts every transaction and counts the calls; a client of it.\<close>

definition ex_node :: "(unit, Transaction, nat) node" where
  "ex_node = \<lparr>Dial = (\<lambda>_. None), HexToECDSA = (\<lambda>s. if s = [] then Inl ''empty'' else Inr ()),
     KeyToAddress = (\<lambda>_. replicate 20 7), NetworkChainID = Inr 31337,
     Pack_settleMatch = (\<lambda>buy bs sell ss n. Inr (bs @ ss)),
     PendingNonceAt = (\<lambda>_ n. (Inr (word_of_nat n), Suc n)), SuggestGasPrice = (\<lambda>n. (Inr 8, Suc n)),
     SignTx = (\<lambda>_ _ tx. Inr tx), SendTransaction = (\<lambda>_ n. (None, Suc n)), WaitMined = (\<lambda>_ n. (Inr 1, Suc n)),
     HashHex = (\<lambda>tx. ''0x'')\<rparr>"

definition ex_client :: "unit Client" where
  "ex_client = \<lparr>clPrivateKey = (), clAddress = replicate 20 7, clChainID = 31337, clContract = replicate 20 9\<rparr>"

definition ex_fill :: MatchResult where
  "ex_fill = \<lparr>mBuyOrder = 0, mSellOrder = 1, FillAmount = 5, QuoteAmount = 10, MPrice = Fin 2\<rparr>"

lemma ex_settle: "settle ex_eth ex_node ex_client m mt n = (\<lparr>srTxHash = ''0x'', srErr = None\<rparr>, n + 4)"
  by (simp add: settle_def ex_node_def Let_def ReceiptStatusSuccessful_def)

lemma settle_success_witness:
  "\<exists>tx n3. SendTransaction ex_node tx 2 = (None, n3) \<and> WaitMined ex_node tx n3 = (Inr 1, 4) \<and> txTo tx = replicate 20 9"
proof -
  have "settle ex_eth ex_node ex_client ex_mem ex_fill 0 = (\<lparr>srTxHash = ''0x'', srErr = None\<rparr>, 4)"
    by (simp add: ex_settle)
  from settle_success [OF this] obtain data nonce gasPrice n2 tx n3 where
    "SignTx ex_node (clChainID ex_client) (clPrivateKey ex_client) \<lparr>txNonce = nonce, txTo = clContract ex_client,
      txValue = 0, txGas = 500000, txGasPrice = gasPrice, txData = data\<rparr> = Inr tx"
    "SuggestGasPrice ex_node 1 = (Inr gasPrice, n2)"
    "SendTransaction ex_node tx n2 = (None, n3)" "WaitMined ex_node tx n3 = (Inr 1, 4)" by (auto simp: ex_node_def)
  then show ?thesis by (intro exI [of _ tx] exI [of _ n3]) (auto simp: ex_node_def ex_client_def)
qed

lemma settle_ignores_fills_witness:
  "settle ex_eth ex_node ex_client (ex_mem\<lparr>ordAt := (ordAt ex_mem)(0 := fill_order 1 (ordAt ex_mem 0))\<rparr>) ex_fill 0 =
   settle ex_eth ex_node ex_client ex_mem ex_fill 0"
  by (rule settle_ignores_fills) (simp_all add: ex_fill_def)

end
