(* ===== verification/Pipeline.thy ===== *)
theory Pipeline
  imports Requests Settlement
begin

text \<open>
  The whole settlement pipeline: requests that queue jobs, the one worker (or, without a contract, the
  drain) that takes them from the channel in order, and the goroutines of \<open>SubmitOrder\<close> that record the
  replies, in any order and interleaved with everything else.
\<close>

section \<open>The machine\<close>

type_synonym 'n settler = "mem \<Rightarrow> MatchResult \<Rightarrow> 'n \<Rightarrow> SettleResult \<times> 'n"

text \<open>What \<open>main\<close> starts on the channel: the worker of a client, or the drain.\<close>

definition main_settler :: "'pk eth \<Rightarrow> ('key, 'tx, 'n) node \<Rightarrow> 'key Client option \<Rightarrow> 'n settler" where
  "main_settler eth nd clo m mt n = (case clo of Some cl \<Rightarrow> settle eth nd cl m mt n | None \<Rightarrow> (drain_result, n))"

text \<open>
  \<open>pReplies\<close> holds the replies whose goroutine has not handled them; \<open>pLog\<close> is a history of the jobs taken
  and their results, which no step reads.
\<close>

record ('c, 'n) pipeline =
  pWorld :: "(tables, 'c) world"
  pReplies :: "(string \<times> SettleResult) list"
  pNet :: 'n
  pLog :: "(SettleJob \<times> SettleResult) list"

definition pipe_start :: "mem \<Rightarrow> oref \<Rightarrow> time \<Rightarrow> nat \<Rightarrow> 'c \<Rightarrow> 'n \<Rightarrow> ('c, 'n) pipeline" where
  "pipe_start m k t tick c n =
     \<lparr>pWorld = start_world m k \<lparr>tOrders = [], tTrades = [], tNow = t\<rparr> tick c, pReplies = [], pNet = n, pLog = []\<rparr>"

definition take_job :: "'n settler \<Rightarrow> SettleJob \<Rightarrow> SettleJob list \<Rightarrow> ('c, 'n) pipeline \<Rightarrow> ('c, 'n) pipeline" where
  "take_job st j js s =
     (let (r, n') = st (wMem (pWorld s)) (jMatch j) (pNet s)
      in s\<lparr>pWorld := (pWorld s)\<lparr>wJobs := js\<rparr>, pReplies := pReplies s @ [(jTradeID j, r)], pNet := n',
           pLog := pLog s @ [(j, r)]\<rparr>)"

definition take_reply ::
  "('pk, tables, 'c) deps \<Rightarrow> string \<times> SettleResult \<Rightarrow> (string \<times> SettleResult) list \<Rightarrow> ('c, 'n) pipeline \<Rightarrow> ('c, 'n) pipeline"
where
  "take_reply d x rest s =
     s\<lparr>pWorld := (pWorld s)\<lparr>wDb := handle_result d (fst x) (snd x) (wDb (pWorld s))\<rparr>, pReplies := rest\<rparr>"

text \<open>The steps that need no request: the worker's and the goroutines'.\<close>

inductive drain_step :: "('pk, tables, 'c) deps \<Rightarrow> 'n settler \<Rightarrow> ('c, 'n) pipeline \<Rightarrow> ('c, 'n) pipeline \<Rightarrow> bool" for d st where
  job: "wJobs (pWorld s) = j # js \<Longrightarrow> drain_step d st s (take_job st j js s)"
| reply: "pReplies s = xs @ x # ys \<Longrightarrow> drain_step d st s (take_reply d x (xs @ ys) s)"

inductive pipe_step :: "('pk, tables, 'c) deps \<Rightarrow> 'n settler \<Rightarrow> ('c, 'n) pipeline \<Rightarrow> ('c, 'n) pipeline \<Rightarrow> bool" for d st where
  request: "svc_step d (pWorld s) w' \<Longrightarrow> pipe_step d st s (s\<lparr>pWorld := w'\<rparr>)"
| drain: "drain_step d st s s' \<Longrightarrow> pipe_step d st s s'"

inductive pipe_reachable :: "('pk, tables, 'c) deps \<Rightarrow> 'n settler \<Rightarrow> ('c, 'n) pipeline \<Rightarrow> bool" for d st where
  start: "pipe_reachable d st (pipe_start m k t tick c n)"
| step: "pipe_reachable d st s \<Longrightarrow> pipe_step d st s s' \<Longrightarrow> pipe_reachable d st s'"

inductive_cases drain_stepE: "drain_step d st s s'"
inductive_cases pipe_stepE: "pipe_step d st s s'"

section \<open>The contract of a settler\<close>

text \<open>What a settler returns depends on the terms of the two orders only, not on their fills.\<close>

locale settler_contract =
  fixes st :: "'n settler"
  assumes reads_terms: "same_terms (ordAt m (mBuyOrder mt)) (ordAt m' (mBuyOrder mt)) \<Longrightarrow>
    same_terms (ordAt m (mSellOrder mt)) (ordAt m' (mSellOrder mt)) \<Longrightarrow> st m' mt n = st m mt n"

interpretation ms: settler_contract "main_settler eth nd clo"
  by unfold_locales (simp add: main_settler_def settle_def Let_def tuplifyOrder_terms split: option.splits)

section \<open>The invariant\<close>

definition settled_by :: "(SettleJob \<times> SettleResult) list \<Rightarrow> (string \<times> SettleResult) list \<Rightarrow> string \<Rightarrow> bool" where
  "settled_by lg replies i \<longleftrightarrow>
     (\<exists>j r. (j, r) \<in> set lg \<and> jTradeID j = i \<and> srErr r = None \<and> (i, r) \<notin> set replies)"

text \<open>Trades and jobs, taken or waiting, correspond one to one.\<close>

definition jobs_inv :: "tradeRow list \<Rightarrow> mem \<Rightarrow> oref \<Rightarrow> SettleJob list \<Rightarrow> bool" where
  "jobs_inv ts m k js \<longleftrightarrow> distinct (map twID ts) \<and> list_all2 (recorded m) ts js \<and>
     (\<forall>j \<in> set js. mBuyOrder (jMatch j) < k \<and> mSellOrder (jMatch j) < k)"

definition replies_inv :: "tradeRow list \<Rightarrow> (SettleJob \<times> SettleResult) list \<Rightarrow> (string \<times> SettleResult) list \<Rightarrow> bool" where
  "replies_inv ts lg replies \<longleftrightarrow> distinct (map fst replies) \<and> set replies \<subseteq> (\<lambda>(j, r). (jTradeID j, r)) ` set lg \<and>
     (\<forall>t \<in> set ts. (twSettledOnChain t \<longleftrightarrow> settled_by lg replies (twID t)) \<and>
       (\<forall>(j, r) \<in> set lg. jTradeID j = twID t \<longrightarrow> twSettledOnChain t \<longrightarrow> twTxHash t = srTxHash r))"

definition results_inv :: "'n settler \<Rightarrow> mem \<Rightarrow> (SettleJob \<times> SettleResult) list \<Rightarrow> bool" where
  "results_inv st m lg \<longleftrightarrow> (\<forall>(j, r) \<in> set lg. \<exists>n n'. st m (jMatch j) n = (r, n'))"

definition pipe_inv :: "env \<Rightarrow> 'n settler \<Rightarrow> ('c, 'n) pipeline \<Rightarrow> bool" where
  "pipe_inv env st s \<longleftrightarrow> (let w = pWorld s; ts = tTrades (wDb w) in
     mirror_inv env w \<and> jobs_inv ts (wMem w) (wNextO w) (map fst (pLog s) @ wJobs w) \<and>
     replies_inv ts (pLog s) (pReplies s) \<and> results_inv st (wMem w) (pLog s))"

lemma pipe_invD:
  assumes "pipe_inv env st s"
  shows "mirror_inv env (pWorld s)"
    "jobs_inv (tTrades (wDb (pWorld s))) (wMem (pWorld s)) (wNextO (pWorld s)) (map fst (pLog s) @ wJobs (pWorld s))"
    "replies_inv (tTrades (wDb (pWorld s))) (pLog s) (pReplies s)"
    "results_inv st (wMem (pWorld s)) (pLog s)"
  using assms by (simp_all add: pipe_inv_def Let_def)

lemma recorded_ids: "list_all2 (recorded m) ts js \<Longrightarrow> map twID ts = map jTradeID js"
  by (induction rule: list_all2_induct) (simp_all add: recorded_def)

lemma jobs_inv_ids:
  assumes "jobs_inv ts m k js"
  shows "map twID ts = map jTradeID js" "distinct (map jTradeID js)"
  using assms recorded_ids [of m ts js] by (auto simp: jobs_inv_def)

lemma mirror_inv_jobs [simp]: "mirror_inv env (w\<lparr>wJobs := js\<rparr>) = mirror_inv env w"
  by (simp add: mirror_inv_def svc_inv_def mirror_rows_def)

lemma pipe_inv_start: "pipe_inv env st (pipe_start m k t tick c n)"
  by (auto simp: pipe_inv_def pipe_start_def Let_def mirror_inv_def svc_inv_def tables_ok_def mirror_rows_def mirrored_def
    jobs_inv_def replies_inv_def results_inv_def)

lemma settled_byI: "(j, r) \<in> set lg \<Longrightarrow> jTradeID j = i \<Longrightarrow> srErr r = None \<Longrightarrow> (i, r) \<notin> set replies \<Longrightarrow> settled_by lg replies i"
  unfolding settled_by_def by blast

lemma log_ids:
  assumes "map twID ts = map jTradeID (map fst lg @ js)" "distinct (map jTradeID (map fst lg @ js))"
  shows "(j, r) \<in> set lg \<Longrightarrow> jTradeID j \<in> twID ` set ts"
    "(j, r) \<in> set lg \<Longrightarrow> (j', r') \<in> set lg \<Longrightarrow> jTradeID j = jTradeID j' \<Longrightarrow> j = j' \<and> r = r'"
    "(j, r) \<in> set lg \<Longrightarrow> j' \<in> set js \<Longrightarrow> jTradeID j \<noteq> jTradeID j'"
proof -
  have e: "twID ` set ts = jTradeID ` set (map fst lg @ js)" using arg_cong [OF assms(1), of set] by (simp only: set_map)
  show "(j, r) \<in> set lg \<Longrightarrow> jTradeID j \<in> twID ` set ts" unfolding e by force
  have "distinct (map (\<lambda>x. jTradeID (fst x)) lg)" using assms(2) by (simp add: comp_def)
  then show "(j, r) \<in> set lg \<Longrightarrow> (j', r') \<in> set lg \<Longrightarrow> jTradeID j = jTradeID j' \<Longrightarrow> j = j' \<and> r = r'"
    unfolding distinct_map by (metis fst_conv inj_onD prod.inject)
  show "(j, r) \<in> set lg \<Longrightarrow> j' \<in> set js \<Longrightarrow> jTradeID j \<noteq> jTradeID j'" using assms(2) by force
qed

lemma recorded_kept:
  assumes "recorded m t j" "same_terms (ordAt m (mBuyOrder (jMatch j))) (ordAt m' (mBuyOrder (jMatch j)))"
    "same_terms (ordAt m (mSellOrder (jMatch j))) (ordAt m' (mSellOrder (jMatch j)))"
  shows "recorded m' t j"
  using assms same_terms_eqs(1) [OF assms(2)] same_terms_eqs(1) [OF assms(3)] by (simp add: recorded_def)

lemma jobs_inv_kept:
  assumes "jobs_inv ts m k js" "k \<le> k'" "\<forall>r < k. same_terms (ordAt m r) (ordAt m' r)"
  shows "jobs_inv ts m' k' js"
proof -
  have "recorded m' t j" if "recorded m t j" "j \<in> set js" for t j
    using recorded_kept [OF that(1)] assms that(2) by (simp add: jobs_inv_def)
  then have "list_all2 (recorded m') ts js"
    using assms(1) list.rel_mono_strong [of "recorded m" ts js "recorded m'"] by (simp add: jobs_inv_def)
  then show ?thesis using assms(1,2) by (auto simp: jobs_inv_def)
qed

text \<open>Preservation, step by step.\<close>

lemma replies_inv_grow:
  assumes ri: "replies_inv ts lg replies" and ids: "map twID ts = map jTradeID (map fst lg @ js)"
    and new: "\<forall>t \<in> set us. \<not> twSettledOnChain t" "distinct (map twID (ts @ us))"
  shows "replies_inv (ts @ us) lg replies"
proof -
  have "\<not> settled_by lg replies (twID t)" if "t \<in> set us" for t
  proof
    assume "settled_by lg replies (twID t)"
    then obtain j r where "(j, r) \<in> set lg" "jTradeID j = twID t" by (auto simp: settled_by_def)
    then have "twID t \<in> jTradeID ` set (map fst lg @ js)" by force
    then have "twID t \<in> twID ` set ts" using arg_cong [OF ids, of set] by (simp only: set_map)
    then show False using that new(2) by auto
  qed
  then show ?thesis using ri new(1) by (auto simp: replies_inv_def)
qed

lemma pipe_inv_request:
  assumes sql: "dSql d = pg" and env: "env_ok (dEnv d)" and st: "settler_contract st" and inv: "pipe_inv (dEnv d) st s"
    and step: "svc_step d (pWorld s) w'"
  shows "pipe_inv (dEnv d) st (s\<lparr>pWorld := w'\<rparr>)"
proof -
  let ?w = "pWorld s" and ?all = "map fst (pLog s) @ wJobs (pWorld s)"
  note I = pipe_invD [OF inv]
  have kept: "terms_kept ?w w'" using svc_step_request [OF sql I(1) step] by (simp add: request_ok_def)
  obtain M where grow: "trades_grow (wMem w') M ?w w'" and M: "\<forall>x \<in> M. mBuyOrder x < wNextO w' \<and> mSellOrder x < wNextO w'"
    using svc_step_request [OF sql I(1) step] by (auto simp: request_ok_def)
  obtain ts js where g: "tTrades (wDb w') = tTrades (wDb ?w) @ ts" "wJobs w' = wJobs ?w @ js" "list_all2 (recorded (wMem w')) ts js"
    "\<forall>t \<in> set ts. \<not> twSettledOnChain t" "jMatch ` set js \<subseteq> M"
    and d: "distinct (map twID (tTrades (wDb ?w))) \<longrightarrow> distinct (map twID (tTrades (wDb w')))"
    using grow unfolding trades_grow_def by blast
  have k: "wNextO ?w \<le> wNextO w'" "\<forall>r < wNextO ?w. same_terms (ordAt (wMem ?w) r) (ordAt (wMem w') r)"
    using kept by (simp_all add: terms_kept_def)
  have dist: "distinct (map twID (tTrades (wDb w')))" using d I(2) by (simp add: jobs_inv_def)
  note J = jobs_inv_kept [OF I(2) k]
  have jobs: "jobs_inv (tTrades (wDb w')) (wMem w') (wNextO w') (map fst (pLog s) @ wJobs w')"
    unfolding jobs_inv_def
  proof (intro conjI)
    show "distinct (map twID (tTrades (wDb w')))" by (rule dist)
    have "list_all2 (recorded (wMem w')) (tTrades (wDb ?w) @ ts) (?all @ js)"
      using J g(3) by (intro list_all2_appendI) (simp_all add: jobs_inv_def)
    then show "list_all2 (recorded (wMem w')) (tTrades (wDb w')) (map fst (pLog s) @ wJobs w')" by (simp add: g)
    show "\<forall>j \<in> set (map fst (pLog s) @ wJobs w'). mBuyOrder (jMatch j) < wNextO w' \<and> mSellOrder (jMatch j) < wNextO w'"
    proof
      fix j assume "j \<in> set (map fst (pLog s) @ wJobs w')"
      then consider "j \<in> set ?all" | "j \<in> set js" by (auto simp: g(2))
      then show "mBuyOrder (jMatch j) < wNextO w' \<and> mSellOrder (jMatch j) < wNextO w'"
      proof cases
        case 1
        then show ?thesis using J by (simp only: jobs_inv_def)
      next
        case 2
        then have "jMatch j \<in> M" using g(5) by blast
        then show ?thesis using M by blast
      qed
    qed
  qed
  have replies: "replies_inv (tTrades (wDb w')) (pLog s) (pReplies s)"
    using replies_inv_grow [OF I(3) jobs_inv_ids(1) [OF I(2)] g(4)] dist by (simp add: g(1))
  have results: "results_inv st (wMem w') (pLog s)"
    unfolding results_inv_def
  proof (clarify)
    fix j r assume jr: "(j, r) \<in> set (pLog s)"
    then obtain n n' where "st (wMem ?w) (jMatch j) n = (r, n')" using I(4) by (auto simp: results_inv_def)
    moreover have "j \<in> set ?all" using jr by force
    then have "mBuyOrder (jMatch j) < wNextO ?w" "mSellOrder (jMatch j) < wNextO ?w" using I(2) by (simp_all only: jobs_inv_def)
    ultimately show "\<exists>n n'. st (wMem w') (jMatch j) n = (r, n')"
      using settler_contract.reads_terms [OF st, of "wMem ?w" "jMatch j" "wMem w'" n] k(2) by auto
  qed
  show ?thesis
    unfolding pipe_inv_def Let_def
    using svc_step_mirror [OF sql env I(1) step] jobs replies results by simp
qed

lemma pipe_inv_job:
  assumes inv: "pipe_inv env st s" and jobs: "wJobs (pWorld s) = j # js"
  shows "pipe_inv env st (take_job st j js s)"
proof -
  note I = pipe_invD [OF inv]
  let ?lg = "pLog s" and ?rs = "pReplies s"
  obtain r n' where r: "st (wMem (pWorld s)) (jMatch j) (pNet s) = (r, n')" by (cases "st (wMem (pWorld s)) (jMatch j) (pNet s)")
  let ?x = "(jTradeID j, r)"
  note L = log_ids [OF jobs_inv_ids [OF I(2), unfolded jobs]]
  have new: "jTradeID j' \<noteq> jTradeID j" if "(j', r') \<in> set ?lg" for j' r' using L(3) [OF that, of j] by simp
  have fresh: "jTradeID j \<notin> fst ` set ?rs"
  proof
    assume "jTradeID j \<in> fst ` set ?rs"
    then obtain x where "(jTradeID j, x) \<in> set ?rs" by force
    then have "(jTradeID j, x) \<in> (\<lambda>(j, r). (jTradeID j, r)) ` set ?lg" using I(3) by (auto simp: replies_inv_def)
    then obtain j' where "(j', x) \<in> set ?lg" "jTradeID j' = jTradeID j" by auto
    then show False using new by blast
  qed
  have by_eq: "settled_by (?lg @ [(j, r)]) (?rs @ [?x]) i = settled_by ?lg ?rs i" for i
    using new unfolding settled_by_def by fastforce
  have none: "\<not> settled_by ?lg ?rs (jTradeID j)" using new unfolding settled_by_def by blast
  have "replies_inv (tTrades (wDb (pWorld s))) (?lg @ [(j, r)]) (?rs @ [?x])"
    unfolding replies_inv_def by_eq
  proof (intro conjI ballI)
    show "distinct (map fst (?rs @ [?x]))" using I(3) fresh by (auto simp: replies_inv_def)
    show "set (?rs @ [?x]) \<subseteq> (\<lambda>(j, r). (jTradeID j, r)) ` set (?lg @ [(j, r)])" using I(3) by (auto simp: replies_inv_def)
  next
    fix t assume t: "t \<in> set (tTrades (wDb (pWorld s)))"
    show eq: "twSettledOnChain t = settled_by ?lg ?rs (twID t)" using I(3) t by (simp add: replies_inv_def)
    fix y assume y: "y \<in> set (?lg @ [(j, r)])"
    show "case y of (j', r') \<Rightarrow> jTradeID j' = twID t \<longrightarrow> twSettledOnChain t \<longrightarrow> twTxHash t = srTxHash r'"
    proof (cases "y = (j, r)")
      case True
      then show ?thesis using none eq by auto
    next
      case False
      then have "y \<in> set ?lg" using y by simp
      then show ?thesis using I(3) t by (auto simp: replies_inv_def)
    qed
  qed
  moreover have "results_inv st (wMem (pWorld s)) (?lg @ [(j, r)])" using I(4) r by (auto simp: results_inv_def)
  moreover have "jobs_inv (tTrades (wDb (pWorld s))) (wMem (pWorld s)) (wNextO (pWorld s)) (map fst (?lg @ [(j, r)]) @ js)"
    using I(2) jobs by simp
  ultimately show ?thesis using I(1) by (simp add: pipe_inv_def take_job_def r Let_def)
qed

text \<open>The effect of a handled reply on the tables.\<close>

definition mark :: "string \<Rightarrow> SettleResult \<Rightarrow> tradeRow \<Rightarrow> tradeRow" where
  "mark i r t = (if srErr r = None \<and> twID t = i then t\<lparr>twSettledOnChain := True, twTxHash := srTxHash r\<rparr> else t)"

lemma mark_sel [simp]:
  "twID (mark i r t) = twID t" "recorded m (mark i r t) j = recorded m t j"
  by (simp_all add: mark_def recorded_def)

lemma handle_result_pg:
  assumes "dSql d = pg"
  shows "handle_result d i r db = db\<lparr>tTrades := map (mark i r) (tTrades db)\<rparr>"
proof (cases "srErr r = None")
  case True
  then have "mark i r = (\<lambda>t. if twID t = i then t\<lparr>twSettledOnChain := True, twTxHash := srTxHash r\<rparr> else t)"
    by (simp add: fun_eq_iff mark_def)
  then show ?thesis using True by (simp add: handle_result_def assms TradeRepo_MarkSettled_def pg_def t_mark_settled_def)
next
  case False
  then have "mark i r = id" by (intro ext) (simp add: mark_def del: not_None_eq)
  then show ?thesis using False by (simp add: handle_result_def)
qed

lemma mirror_inv_trades:
  assumes "mirror_inv env w" "twID ` set ts = twID ` set (tTrades (wDb w))"
  shows "mirror_inv env (w\<lparr>wDb := (wDb w)\<lparr>tTrades := ts\<rparr>\<rparr>)"
  using assms by (simp add: mirror_inv_def svc_inv_def mirror_rows_def tables_ok_def)

lemma pipe_inv_reply:
  assumes sql: "dSql d = pg" and inv: "pipe_inv env st s" and rep: "pReplies s = xs @ x # ys"
  shows "pipe_inv env st (take_reply d x (xs @ ys) s)"
proof -
  note I = pipe_invD [OF inv]
  obtain i r where x: "x = (i, r)" by (cases x)
  let ?ts = "tTrades (wDb (pWorld s))" and ?lg = "pLog s"
  let ?ts' = "map (mark i r) ?ts"
  have J: "jobs_inv ?ts' m k js" if "jobs_inv ?ts m k js" for m k js
    using that by (simp add: jobs_inv_def list_all2_map1 comp_def)
  note L = log_ids [OF jobs_inv_ids [OF I(2)]]
  have "x \<in> (\<lambda>(j, r). (jTradeID j, r)) ` set ?lg" using I(3) rep by (auto simp: replies_inv_def)
  then obtain j where j: "(j, r) \<in> set ?lg" "jTradeID j = i" by (auto simp: x)
  have only: "r' = r" if "(j', r') \<in> set ?lg" "jTradeID j' = i" for j' r' using L(2) [OF that(1) j(1)] that(2) j(2) by simp
  have "distinct (map fst (xs @ (i, r) # ys))" using I(3) unfolding replies_inv_def rep x by (rule conjunct1)
  then have "i \<notin> fst ` set (xs @ ys)" by auto
  then have gone: "(i, r') \<notin> set (xs @ ys)" for r' by (metis fst_conv imageI)
  have mine: "settled_by ?lg (xs @ ys) i \<longleftrightarrow> srErr r = None"
    using j only gone unfolding settled_by_def by metis
  have other: "settled_by ?lg (xs @ ys) k = settled_by ?lg (pReplies s) k" if "k \<noteq> i" for k
    using that unfolding settled_by_def rep x by simp
  have unset: "\<not> settled_by ?lg (pReplies s) i"
    using only unfolding settled_by_def rep x by auto
  have "replies_inv ?ts' ?lg (xs @ ys)"
    unfolding replies_inv_def
  proof (intro conjI ballI)
    show "distinct (map fst (xs @ ys))" using I(3) by (auto simp: replies_inv_def rep)
    show "set (xs @ ys) \<subseteq> (\<lambda>(j, r). (jTradeID j, r)) ` set ?lg" using I(3) by (auto simp: replies_inv_def rep)
  next
    fix t' assume "t' \<in> set ?ts'"
    then obtain t where t: "t \<in> set ?ts" "t' = mark i r t" by auto
    have old: "twSettledOnChain t = settled_by ?lg (pReplies s) (twID t)" using I(3) t(1) by (simp add: replies_inv_def)
    show "twSettledOnChain t' = settled_by ?lg (xs @ ys) (twID t')"
      using old mine other [of "twID t"] unset by (cases "twID t = i") (auto simp: t(2) mark_def)
    fix y assume y: "y \<in> set ?lg"
    show "case y of (j', r') \<Rightarrow> jTradeID j' = twID t' \<longrightarrow> twSettledOnChain t' \<longrightarrow> twTxHash t' = srTxHash r'"
    proof (cases "twID t = i")
      case True
      then show ?thesis using only y old unset by (auto simp: t(2) mark_def)
    next
      case False
      then have "t' = t" by (simp add: t(2) mark_def)
      then show ?thesis using I(3) t(1) y by (auto simp: replies_inv_def)
    qed
  qed
  moreover have "mirror_inv env ((pWorld s)\<lparr>wDb := (wDb (pWorld s))\<lparr>tTrades := ?ts'\<rparr>\<rparr>)"
    by (rule mirror_inv_trades [OF I(1)]) (simp add: image_image)
  ultimately show ?thesis using J [OF I(2)] I(4)
    by (simp add: pipe_inv_def take_reply_def handle_result_pg [OF sql] x Let_def)
qed

lemma drain_step_inv:
  assumes "dSql d = pg" "pipe_inv env st s" "drain_step d st s s'"
  shows "pipe_inv env st s'"
  using assms(3,2) by (cases rule: drain_step.cases) (auto intro: pipe_inv_job pipe_inv_reply [OF assms(1)])

lemma drain_steps_inv:
  assumes "dSql d = pg" "pipe_inv env st s" "(drain_step d st)\<^sup>*\<^sup>* s s'"
  shows "pipe_inv env st s'"
  using assms(3,2) by (induction rule: rtranclp_induct) (auto intro: drain_step_inv [OF assms(1)])

lemma pipe_reachable_inv:
  assumes "dSql d = pg" "env_ok (dEnv d)" "settler_contract st" "pipe_reachable d st s"
  shows "pipe_inv (dEnv d) st s"
  using assms(4)
proof (induction rule: pipe_reachable.induct)
  case (start m k t tick c n)
  show ?case by (rule pipe_inv_start)
next
  case (step s s')
  from step.hyps(2) step.IH show ?case
    by (cases rule: pipe_step.cases) (auto intro: pipe_inv_request [OF assms(1-3)] drain_step_inv [OF assms(1)])
qed

end
