(* ===== verification/ServiceExample.thy ===== *)
theory ServiceExample
  imports Recovery
begin

text \<open>
  A concrete service for the witnesses: the tables of the schema, an in-memory cache, numbered ids and a
  clock of one second per tick; a sell and a buy order that match.
\<close>

definition ex_env :: env where
  "ex_env = \<lparr>time_Now = (\<lambda>k. 1000000000 * int k), uuid_New = (\<lambda>k. replicate (Suc k) CHR ''u'')\<rparr>"

definition ex_deps :: "(address, tables, kv) deps" where
  "ex_deps = NewOrderService ex_eth pg kv_redis ex_env 31337 (replicate 20 9)"

definition ex_mem0 :: mem where
  "ex_mem0 = \<lparr>ordAt = (\<lambda>_. ex_order [] SideBuy 1 1 0), entAt = (\<lambda>_. \<lparr>entryOrder = 0, Index = 0\<rparr>), nextE = 0\<rparr>"

definition ex_kv :: kv where
  "ex_kv = \<lparr>kvContent = Map.empty, kvPublished = []\<rparr>"

definition ex_world :: "(tables, kv) world" where
  "ex_world = start_world ex_mem0 0 \<lparr>tOrders = [], tTrades = [], tNow = 0\<rparr> 0 ex_kv"

definition ex_sub :: "Side \<Rightarrow> int \<Rightarrow> int \<Rightarrow> OrderSubmission" where
  "ex_sub sd sell buy = \<lparr>sMaker = ''0xm'', sTokenSell = ''0xs'', sTokenBuy = ''0xb'', sAmountSell = big_String sell,
     sAmountBuy = big_String buy, sExpiry = 0, sNonce = 0, sSalt = big_String 1, sSignature = hex_encode (replicate 65 1),
     sSide = sd, sPair = ''TKA-TKB''\<rparr>"

lemma ex_env_ok: "env_ok ex_env"
  by (auto simp: env_ok_def ex_env_def inj_def dest: arg_cong [where f = length])

lemma ex_deps_sel [simp]:
  "dSql ex_deps = pg" "dEnv ex_deps = ex_env" "dEth ex_deps = ex_eth" "dRedis ex_deps = kv_redis"
  by (simp_all add: ex_deps_def NewOrderService_def)

lemma hex_no_prefix: "hexToBytes (hex_encode (b # bs)) = Inr (b # bs)" if "unat b div 16 = 0" "unat b mod 16 = 1"
proof -
  have "TrimPrefix (hex_encode (b # bs)) ''0x'' = hex_encode (b # bs)"
    using that by (simp add: TrimPrefix_def hex_char_def char_of_def)
  then show ?thesis unfolding hexToBytes_def by (simp only: hex_DecodeString_encode)
qed

lemma ex_check: "check_submission ex_deps (ex_sub sd a b) = Inr (submission_order (ex_sub sd a b) a b 1)"
proof -
  have "hexToBytes (hex_encode (replicate 65 1)) = Inr (replicate 65 1)"
  proof -
    have eq: "replicate 65 (1 :: byte) = 1 # replicate 64 1" using replicate_Suc [of 64 "1 :: byte"] by simp
    show ?thesis unfolding eq by (rule hex_no_prefix) simp_all
  qed
  moreover have "\<not> 27 \<le> (1 :: byte)" by (simp add: word_le_nat_alt)
  then have "VerifyOrderSignature ex_eth ds (submission_data ex_eth sub x y z) (replicate 65 1) = Inr True" for ds sub x y z
    by (simp add: VerifyOrderSignature_def adjust_v_def ex_eth_def submission_data_def Let_def)
  ultimately show ?thesis by (simp add: check_submission_def ex_sub_def)
qed


text \<open>The orders these submissions make, as \<open>Create\<close> leaves them.\<close>

definition ex_placed :: "nat \<Rightarrow> Side \<Rightarrow> int \<Rightarrow> int \<Rightarrow> Order" where
  "ex_placed k sd a b = (submission_order (ex_sub sd a b) a b 1)\<lparr>ID := replicate (Suc k) CHR ''u'',
     CreatedAt := 1000000000 * int k, UpdatedAt := 1000000000 * int k\<rparr>"

lemma ex_placed_sel [simp]:
  "ID (ex_placed k sd a b) = replicate (Suc k) CHR ''u''" "Side (ex_placed k sd a b) = sd"
  "AmountSell (ex_placed k sd a b) = a" "AmountBuy (ex_placed k sd a b) = b" "FilledBase (ex_placed k sd a b) = 0"
  "Status (ex_placed k sd a b) = OrderStatusOpen" "OPair (ex_placed k sd a b) = ''TKA-TKB''"
  "CreatedAt (ex_placed k sd a b) = 1000000000 * int k" "Salt (ex_placed k sd a b) = 1"
  "Expiry (ex_placed k sd a b) = 0" "Nonce (ex_placed k sd a b) = 0"
  by (simp_all add: ex_placed_def submission_order_def ex_sub_def)

lemma ex_placed_price [simp]:
  "Price (ex_placed k SideSell 100 200) = Some (Fin 2)" "Price (ex_placed k SideBuy 520 130) = Some (Fin 4)"
  by (simp_all add: Price_def)

lemma ex_submit:
  "OrderService_SubmitOrder ex_deps (ex_sub sd a b) w = place_order ex_deps (submission_order (ex_sub sd a b) a b 1) w"
  by (simp add: OrderService_SubmitOrder_def ex_check)

lemma ex_create:
  assumes "sd = SideBuy \<or> sd = SideSell" "int_ok a" "int_ok b" "replicate (Suc k) CHR ''u'' \<notin> rwID ` set (tOrders db)"
  shows "OrderRepo_Create pg ex_env k (submission_order (ex_sub sd a b) a b 1) db =
    (None, ex_placed k sd a b, db\<lparr>tOrders := tOrders db @ [order_row (stored micros (ex_placed k sd a b))]\<rparr>)"
proof -
  have "order_check (order_row (ex_placed k sd a b)) db = None"
    using assms by (auto simp: order_check_def order_row_def bigint_ok_def side_check_def status_check_def side_defs
      status_defs int_ok_def)
  moreover have "(submission_order (ex_sub sd a b) a b 1)\<lparr>ID := uuid_New ex_env k, CreatedAt := time_Now ex_env k,
      UpdatedAt := time_Now ex_env k\<rparr> = ex_placed k sd a b"
    by (simp add: ex_placed_def ex_env_def)
  moreover have "ID (submission_order (ex_sub sd a b) a b 1) = []" by (simp add: submission_order_def)
  ultimately show ?thesis by (simp add: OrderRepo_Create_def Let_def insert_order_pg)
qed

text \<open>The sell order is stored and rests; the buy order then matches it.\<close>

lemma updateCache_cache: "updateCache d p b w = Some w' \<Longrightarrow> \<exists>c. w' = w\<lparr>wCache := c\<rparr>"
  by (auto simp: updateCache_def bind_Some_iff Let_def case_prod_beta)

definition ex_mem1 :: mem where
  "ex_mem1 = \<lparr>ordAt = (ordAt ex_mem0)(0 := ex_placed 0 SideSell 100 200), entAt = entAt ex_mem0, nextE = 1\<rparr>"

definition ex_world1 :: "kv \<Rightarrow> (tables, kv) world" where
  "ex_world1 c = \<lparr>wMem = ex_mem1, wNextO = 1,
     wBooks = [''TKA-TKB'' \<mapsto> \<lparr>pair = ''TKA-TKB'', buys = [], sells = [0], orderMap = [''u'' \<mapsto> 0]\<rparr>],
     wDb = \<lparr>tOrders = [order_row (stored micros (ex_placed 0 SideSell 100 200))], tTrades = [], tNow = 0\<rparr>,
     wTick = 1, wJobs = [], wCache = c\<rparr>"

lemma ex_svc_inv: "svc_inv tables_ok tOrders ex_world"
  by (simp add: svc_inv_def ex_world_def tables_ok_def)

lemma ex_no_panic:
  assumes "svc_inv tables_ok tOrders w" "a \<noteq> 0"
  shows "\<exists>w' res. OrderService_SubmitOrder ex_deps (ex_sub sd a b) w = (w', Some res)"
proof -
  obtain w' r where run: "OrderService_SubmitOrder ex_deps (ex_sub sd a b) w = (w', r)"
    by (cases "OrderService_SubmitOrder ex_deps (ex_sub sd a b) w")
  have "r \<noteq> None" using tab.SubmitOrder_inv(2) [OF _ assms(1) run] assms(2) by (auto simp: ex_sub_def)
  then show ?thesis using run by auto
qed

definition ex_book1 :: OrderBook where
  "ex_book1 = \<lparr>pair = ''TKA-TKB'', buys = [], sells = [0], orderMap = [''u'' \<mapsto> 0]\<rparr>"

lemma ex_entry: "set_index (new_entry (store_order ex_mem0 0 (ex_placed 0 SideSell 100 200)) 0) 0 0 = ex_mem1"
  by (simp add: ex_mem1_def new_entry_def set_index_def store_order_def ex_mem0_def fun_eq_iff)

lemma ex_mem0_sel [simp]: "nextE ex_mem0 = 0" by (simp add: ex_mem0_def)

lemma ex_add1:
  "AddOrder (store_order ex_mem0 0 (ex_placed 0 SideSell 100 200))
     \<lparr>pair = ''TKA-TKB'', buys = [], sells = [], orderMap = Map.empty\<rparr> 0 = Some (ex_mem1, ex_book1, [])"
  by (simp add: run_simps RemainingBase_def ex_entry [unfolded store_order_def] store_order_def ex_book1_def)

text \<open>\<open>SubmitOrder\<close> once its parts are known.\<close>

lemma submit_eval:
  assumes inv: "svc_inv tables_ok tOrders w" and sd: "sd = SideBuy \<or> sd = SideSell" and ok: "int_ok a" "int_ok b" "a \<noteq> 0"
    and fresh: "replicate (Suc (wTick w)) CHR ''u'' \<notin> rwID ` set (tOrders (wDb w))"
    and book: "book = (case wBooks w ''TKA-TKB'' of Some b \<Rightarrow> b
      | None \<Rightarrow> \<lparr>pair = ''TKA-TKB'', buys = [], sells = [], orderMap = Map.empty\<rparr>)"
    and add: "AddOrder (store_order (wMem w) (wNextO w) (ex_placed (wTick w) sd a b)) book (wNextO w) = Some (m', book', ms)"
  shows "\<exists>c. OrderService_SubmitOrder ex_deps (ex_sub sd a b) w =
    ((fold (process_match ex_deps ''TKA-TKB'') ms
      (w\<lparr>wDb := (wDb w)\<lparr>tOrders := tOrders (wDb w) @ [order_row (stored micros (ex_placed (wTick w) sd a b))]\<rparr>,
         wTick := Suc (wTick w), wNextO := Suc (wNextO w), wMem := m', wBooks := (wBooks w)(''TKA-TKB'' \<mapsto> book')\<rparr>))\<lparr>wCache := c\<rparr>, Some (Inr (wNextO w, ms)))"
proof -
  let ?db = "(wDb w)\<lparr>tOrders := tOrders (wDb w) @ [order_row (stored micros (ex_placed (wTick w) sd a b))]\<rparr>"
  let ?w1 = "w\<lparr>wDb := ?db, wTick := Suc (wTick w), wMem := store_order (wMem w) (wNextO w) (ex_placed (wTick w) sd a b),
    wNextO := Suc (wNextO w)\<rparr>"
  let ?w3 = "w\<lparr>wDb := ?db, wTick := Suc (wTick w), wNextO := Suc (wNextO w), wMem := m',
    wBooks := (wBooks w)(''TKA-TKB'' \<mapsto> book')\<rparr>"
  have gc: "GetOrCreateOrderBook ''TKA-TKB'' ?w1 = Some (book, ?w1\<lparr>wBooks := (wBooks w)(''TKA-TKB'' \<mapsto> book)\<rparr>)"
    unfolding book
    by (cases w) (auto simp: GetOrCreateOrderBook_def NewOrderBook_spec set_book_def map_upd_triv split: option.splits)
  obtain w' res where run: "OrderService_SubmitOrder ex_deps (ex_sub sd a b) w = (w', Some res)"
    using ex_no_panic [OF inv ok(3)] by blast
  have eq: "OrderService_SubmitOrder ex_deps (ex_sub sd a b) w =
    (case updateCache ex_deps ''TKA-TKB'' book' (fold (process_match ex_deps ''TKA-TKB'') ms ?w3) of
       None \<Rightarrow> (fold (process_match ex_deps ''TKA-TKB'') ms ?w3, None)
     | Some w5 \<Rightarrow> (w5, Some (Inr (wNextO w, ms))))"
    unfolding ex_submit place_order_def using ex_create [OF sd ok(1,2) fresh] gc add by (simp add: Let_def set_book_def)
  then show ?thesis
    using run updateCache_cache [of ex_deps "''TKA-TKB''" book' "fold (process_match ex_deps ''TKA-TKB'') ms ?w3"]
    by (auto split: option.splits)
qed

lemma ex_submit_sell:
  "\<exists>c. OrderService_SubmitOrder ex_deps (ex_sub SideSell 100 200) ex_world = (ex_world1 c, Some (Inr (0, [])))"
  using submit_eval [OF ex_svc_inv, of SideSell 100 200] ex_add1
  by (simp add: ex_world_def int_ok_def ex_world1_def ex_book1_def start_world_def)

lemma ex_svc_inv1: "svc_inv tables_ok tOrders (ex_world1 c)"
proof -
  obtain c0 where run: "OrderService_SubmitOrder ex_deps (ex_sub SideSell 100 200) ex_world = (ex_world1 c0, Some (Inr (0, [])))"
    using ex_submit_sell by blast
  have "svc_inv tables_ok tOrders (ex_world1 c0)" by (rule tab.SubmitOrder_inv(1) [OF ex_deps_sel(1) ex_svc_inv run])
  then show ?thesis by (simp add: svc_inv_def ex_world1_def)
qed

definition ex_match :: MatchResult where
  "ex_match = \<lparr>mBuyOrder = 1, mSellOrder = 0, FillAmount = 100, QuoteAmount = 200, MPrice = Fin 2\<rparr>"

lemma ex_add2:
  "\<exists>m' b'. AddOrder (store_order ex_mem1 1 (ex_placed 1 SideBuy 520 130)) ex_book1 1 = Some (m', b', [ex_match]) \<and>
    sells b' = [] \<and> buys b' = [1] \<and> entryOrder (entAt m' 1) = 1 \<and> FilledBase (ordAt m' 1) = 100 \<and>
    Status (ordAt m' 1) = OrderStatusPartiallyFilled \<and> ID (ordAt m' 1) = ''uu'' \<and> ID (ordAt m' 0) = ''u''"
  by (simp add: run_simps RemainingBase_def store_order_def ex_book1_def ex_mem1_def ex_mem0_def new_entry_def set_index_def ex_match_def)

text \<open>The job that the match queues.\<close>

definition ex_job :: SettleJob where
  "ex_job = \<lparr>jMatch = ex_match, jTradeID = ''uuu''\<rparr>"

lemma ex_process:
  assumes "ID (ordAt (wMem w) 1) = ''uu''" "ID (ordAt (wMem w) 0) = ''u''" "wTick w = 2"
    "{''u'', ''uu''} \<subseteq> rwID ` set (tOrders (wDb w))" "tTrades (wDb w) = []"
  shows "wJobs (process_match ex_deps p ex_match w) = wJobs w @ [ex_job]"
proof -
  let ?t = "(match_trade p (wMem w) ex_match)\<lparr>TradeID := ''uuu'', TCreatedAt := 2000000000\<rparr>"
  have "trade_check (trade_row ?t) (wDb w) = None"
    using assms by (auto simp: trade_check_def trade_row_def match_trade_def ex_match_def int_ok_def)
  then have "\<exists>db. TradeRepo_Create pg ex_env 2 (match_trade p (wMem w) ex_match) (wDb w) = (None, ?t, db)"
    by (simp add: TradeRepo_Create_def Let_def pg_def t_insert_trade_def match_trade_def ex_env_def numeral_2_eq_2)
  then obtain db where c: "TradeRepo_Create pg ex_env 2 (match_trade p (wMem w) ex_match) (wDb w) = (None, ?t, db)"
    by blast
  show ?thesis unfolding process_match_def Let_def by (simp add: assms(3) c ex_job_def)
qed

lemma ex_submit_buy:
  "\<exists>w'. OrderService_SubmitOrder ex_deps (ex_sub SideBuy 520 130) (ex_world1 c) = (w', Some (Inr (1, [ex_match]))) \<and>
    wJobs w' = [ex_job]"
proof -
  obtain m' b' where "AddOrder (store_order ex_mem1 1 (ex_placed 1 SideBuy 520 130)) ex_book1 1 = Some (m', b', [ex_match])"
    and ids: "ID (ordAt m' 1) = ''uu''" "ID (ordAt m' 0) = ''u''"
    using ex_add2 by blast
  then have add: "AddOrder (store_order (wMem (ex_world1 c)) (wNextO (ex_world1 c)) (ex_placed (wTick (ex_world1 c)) SideBuy 520 130))
      ex_book1 (wNextO (ex_world1 c)) = Some (m', b', [ex_match])"
    by (simp add: ex_world1_def)
  have "ex_book1 = (case wBooks (ex_world1 c) ''TKA-TKB'' of Some b \<Rightarrow> b
      | None \<Rightarrow> \<lparr>pair = ''TKA-TKB'', buys = [], sells = [], orderMap = Map.empty\<rparr>)"
    by (simp add: ex_world1_def ex_book1_def)
  note E = submit_eval [OF ex_svc_inv1 _ _ _ _ _ this add]
  have "replicate (Suc (wTick (ex_world1 c))) CHR ''u'' \<notin> rwID ` set (tOrders (wDb (ex_world1 c)))"
    by (simp add: ex_world1_def stored_def)
  moreover have "int_ok 520" "int_ok 130" "(520 :: int) \<noteq> 0" by (simp_all add: int_ok_def)
  moreover have "wNextO (ex_world1 c) = 1" by (simp add: ex_world1_def)
  ultimately obtain c' where run: "OrderService_SubmitOrder ex_deps (ex_sub SideBuy 520 130) (ex_world1 c) =
    ((fold (process_match ex_deps ''TKA-TKB'') [ex_match] ((ex_world1 c)\<lparr>
      wDb := (wDb (ex_world1 c))\<lparr>tOrders := tOrders (wDb (ex_world1 c)) @
        [order_row (stored micros (ex_placed (wTick (ex_world1 c)) SideBuy 520 130))]\<rparr>,
      wTick := Suc (wTick (ex_world1 c)), wNextO := Suc (wNextO (ex_world1 c)), wMem := m',
      wBooks := (wBooks (ex_world1 c))(''TKA-TKB'' \<mapsto> b')\<rparr>))\<lparr>wCache := c'\<rparr>, Some (Inr (1, [ex_match])))"
    using E by fastforce
  let ?w = "(ex_world1 c)\<lparr>
      wDb := (wDb (ex_world1 c))\<lparr>tOrders := tOrders (wDb (ex_world1 c)) @
        [order_row (stored micros (ex_placed (wTick (ex_world1 c)) SideBuy 520 130))]\<rparr>,
      wTick := Suc (wTick (ex_world1 c)), wNextO := Suc (wNextO (ex_world1 c)), wMem := m',
      wBooks := (wBooks (ex_world1 c))(''TKA-TKB'' \<mapsto> b')\<rparr>"
  have "wJobs (process_match ex_deps ''TKA-TKB'' ex_match ?w) = wJobs ?w @ [ex_job]"
    using ids by (intro ex_process) (simp_all add: ex_world1_def stored_def)
  then show ?thesis using run by (simp add: ex_world1_def)
qed

end
