(* ===== verification/ServiceClaims.thy ===== *)
theory ServiceClaims
  imports Recovery ServiceExample
begin

text \<open>
  The properties of the service over the schema's tables: safety and outcomes of \<open>SubmitOrder\<close>, its
  settlement jobs, \<open>CancelOrder\<close>, and what a restart rebuilds.
\<close>

section \<open>\<open>SubmitOrder\<close>\<close>

text \<open>
  \<open>SubmitOrder\<close> keeps the service consistent.  From a world in which every book satisfies its invariant,
  holds its own pair's orders and only persisted ones, any submission leads to such a world, whatever
  its outcome; and the only submissions that can make it panic have both amounts zero.
\<close>

theorem SubmitOrder_safe:
  assumes "dSql d = pg" "svc_inv tables_ok tOrders w" "OrderService_SubmitOrder d sub w = (w', res)"
  shows "svc_inv tables_ok tOrders w' \<and>
    (res = None \<longrightarrow> parseBigInt (sAmountSell sub) = Some 0 \<and> parseBigInt (sAmountBuy sub) = Some 0)"
  using tab.SubmitOrder_inv [OF assms] by blast

text \<open>
  \<open>CancelOrder\<close> keeps the service consistent and never panics.
\<close>

theorem CancelOrder_safe:
  assumes "dSql d = pg" "svc_inv tables_ok tOrders w" "OrderService_CancelOrder d i w = (w', res)"
  shows "svc_inv tables_ok tOrders w' \<and> res \<noteq> None"
  using tab.CancelOrder_inv [OF assms] by blast

text \<open>The four ways \<open>place_order\<close> ends.\<close>

lemma place_order_cases:
  assumes "place_order d od w = (w', res)"
    "OrderRepo_Create (dSql d) (dEnv d) (wTick w) od (wDb w) = (err, od', db')"
  obtains (failed) e where "err = Some e" "res = Some (Inl (PersistFailed e))"
      "wBooks w' = wBooks w" "wJobs w' = wJobs w" "wCache w' = wCache w"
    | (panicked) "err = None" "res = None"
    | (placed) book m' book' ms w3 where "err = None"
      "AddOrder (store_order (wMem w) (wNextO w) od') book (wNextO w) = Some (m', book', ms)"
      "wDb w3 = db'" "wJobs w3 = wJobs w" "wCache w3 = wCache w" "wMem w3 = m'" "wBooks w3 (OPair od') = Some book'" "res = Some (Inr (wNextO w, ms))"
      "updateCache d (OPair od') book' (fold (process_match d (OPair od')) ms w3) = Some w'"
proof (cases err)
  case (Some e)
  then show ?thesis using assms failed by (auto simp: place_order_def Let_def)
next
  case None
  let ?w1 = "w\<lparr>wDb := db', wTick := Suc (wTick w), wMem := store_order (wMem w) (wNextO w) od', wNextO := Suc (wNextO w)\<rparr>"
  obtain book w2 where gc: "GetOrCreateOrderBook (OPair od') ?w1 = Some (book, w2)"
    using GetOrCreateOrderBook_total by blast
  note G = GetOrCreateOrderBook_frame [OF gc]
  have G': "wDb w2 = db'" "wJobs w2 = wJobs w" "wCache w2 = wCache w" "wMem w2 = store_order (wMem w) (wNextO w) od'" using G by simp_all
  show ?thesis
  proof (cases "AddOrder (wMem w2) book (wNextO w)")
    case None2: None
    then have "w' = w2" "res = None" using assms None gc by (simp_all add: place_order_def Let_def)
    then show ?thesis using panicked None by simp
  next
    case (Some x)
    obtain m' book' ms where x: "AddOrder (wMem w2) book (wNextO w) = Some (m', book', ms)" using Some by (cases x) auto
    let ?w3 = "set_book (OPair od') book' (w2\<lparr>wMem := m'\<rparr>)"
    let ?w4 = "fold (process_match d (OPair od')) ms ?w3"
    show ?thesis
    proof (cases "updateCache d (OPair od') book' ?w4")
      case None3: None
      then have "w' = ?w4" "res = None" using assms None gc x by (simp_all add: place_order_def Let_def)
      then show ?thesis using panicked None by simp
    next
      case (Some w5)
      then have "w' = w5" "res = Some (Inr (wNextO w, ms))" using assms None gc x by (simp_all add: place_order_def Let_def)
      then show ?thesis using placed [OF None, of book m' book' ms ?w3] x G' Some by simp
    qed
  qed
qed

text \<open>
  C24: what a response of \<open>SubmitOrder\<close> means.  Any error leaves books, settlement queue and cache as they
  were, and every error but a failed insert leaves the whole world.  A success means that the three
  numbers parsed and the 65-byte signature was verified for exactly these values and maker.
\<close>

theorem SubmitOrder_outcomes:
  assumes "OrderService_SubmitOrder d sub w = (w', Some res)"
  shows "(\<forall>e. res = Inl e \<longrightarrow> wBooks w' = wBooks w \<and> wJobs w' = wJobs w \<and> wCache w' = wCache w \<and>
      ((\<forall>m. e \<noteq> PersistFailed m) \<longrightarrow> w' = w)) \<and>
    (\<forall>x. res = Inr x \<longrightarrow> (\<exists>amountSell amountBuy salt sig.
      parseBigInt (sAmountSell sub) = Some amountSell \<and> parseBigInt (sAmountBuy sub) = Some amountBuy \<and>
      parseBigInt (sSalt sub) = Some salt \<and> hexToBytes (sSignature sub) = Inr sig \<and> length sig = 65 \<and>
      VerifyOrderSignature (dEth d) (dDomain d)
        (submission_data (dEth d) sub amountSell amountBuy salt) sig = Inr True))"
proof (cases "check_submission d sub")
  case (Inl e)
  then show ?thesis using assms by (auto simp: OrderService_SubmitOrder_def)
next
  case (Inr od)
  then obtain a b s sig where p: "parseBigInt (sAmountSell sub) = Some a" "parseBigInt (sAmountBuy sub) = Some b"
    "parseBigInt (sSalt sub) = Some s" "hexToBytes (sSignature sub) = Inr sig"
    "VerifyOrderSignature (dEth d) (dDomain d) (submission_data (dEth d) sub a b s) sig = Inr True"
    by (auto simp: check_submission_def split: option.splits sum.splits if_splits)
  then have len: "length sig = 65" by (auto simp: VerifyOrderSignature_def split: if_splits)
  have po: "place_order d od w = (w', Some res)" using assms Inr by (simp add: OrderService_SubmitOrder_def)
  obtain err od' db' where c: "OrderRepo_Create (dSql d) (dEnv d) (wTick w) od (wDb w) = (err, od', db')"
    by (cases "OrderRepo_Create (dSql d) (dEnv d) (wTick w) od (wDb w)")
  show ?thesis using p len by (cases rule: place_order_cases [OF po c]) auto
qed

text \<open>
  Nothing is settled that was not recorded.  The jobs \<open>SubmitOrder\<close> queues are, in order, some of its
  matches; and if every job queued so far had its trade in the database with the same base and quote
  amounts, so has every job afterwards.
\<close>

theorem SubmitOrder_jobs:
  assumes "dSql d = pg" "svc_inv tables_ok tOrders w" "OrderService_SubmitOrder d sub w = (w', Some (Inr (r, ms)))"
    and "\<forall>j \<in> set (wJobs w). job_persisted (tTrades (wDb w)) j"
  shows "(\<exists>js. wJobs w' = wJobs w @ js \<and> subseq (map jMatch js) ms) \<and>
    (\<forall>j \<in> set (wJobs w'). job_persisted (tTrades (wDb w')) j)"
proof -
  obtain od where od: "check_submission d sub = Inr od" and po: "place_order d od w = (w', Some (Inr (r, ms)))"
    using assms(3) by (auto simp: OrderService_SubmitOrder_def split: sum.splits)
  obtain err od' db' where c: "OrderRepo_Create (dSql d) (dEnv d) (wTick w) od (wDb w) = (err, od', db')"
    by (cases "OrderRepo_Create (dSql d) (dEnv d) (wTick w) od (wDb w)")
  note C = OrderRepo_Create_order(1) [OF c]
  have g: "tables_ok (wDb w)" using assms(2) by (simp add: svc_inv_def)
  have err: "err = None" using po c by (cases err) (auto simp: place_order_def Let_def)
  then have db': "tables_ok db'" "tTrades db' = tTrades (wDb w)"
    using tab.insert_ok [OF g] tab.insert_order_trades [OF g] C assms(1) by metis+
  from po c show ?thesis
  proof (cases rule: place_order_cases)
    case (placed book m' book' ms' w3)
    then have ms: "ms' = ms" and uc: "updateCache d (OPair od') book' (fold (process_match d (OPair od')) ms w3) = Some w'"
      by simp_all
    have "\<forall>j \<in> set (wJobs w3). job_persisted (tTrades (wDb w3)) j" using assms(4) placed db' by simp
    from tab.fold_process_match_jobs [OF assms(1) _ this, of "OPair od'" ms] show ?thesis
      using db'(1) placed(3,4) updateCache_frame(3,5) [OF uc] by simp
  qed (use err in auto)
qed

text \<open>Witnesses: the sell order of the example, then the buy order that matches it.\<close>

lemma SubmitOrder_safe_witness:
  "svc_inv tables_ok tOrders (fst (OrderService_SubmitOrder ex_deps (ex_sub SideSell 100 200) ex_world)) \<and>
    snd (OrderService_SubmitOrder ex_deps (ex_sub SideSell 100 200) ex_world) \<noteq> None"
  using SubmitOrder_safe [OF ex_deps_sel(1) ex_svc_inv prod.collapse [symmetric], of "ex_sub SideSell 100 200"]
  by (auto simp: ex_sub_def)

lemma CancelOrder_safe_witness:
  "svc_inv tables_ok tOrders (fst (OrderService_CancelOrder ex_deps ''u'' (ex_world1 ex_kv))) \<and>
    snd (OrderService_CancelOrder ex_deps ''u'' (ex_world1 ex_kv)) \<noteq> None"
  using CancelOrder_safe [OF ex_deps_sel(1) ex_svc_inv1 prod.collapse [symmetric], of "''u''" ex_kv] by blast

lemma SubmitOrder_outcomes_witness:
  "\<exists>sig. hexToBytes (sSignature (ex_sub SideSell 100 200)) = Inr sig \<and> length sig = 65 \<and>
    VerifyOrderSignature ex_eth (dDomain ex_deps) (submission_data ex_eth (ex_sub SideSell 100 200) 100 200 1) sig = Inr True"
proof -
  obtain c where "OrderService_SubmitOrder ex_deps (ex_sub SideSell 100 200) ex_world = (ex_world1 c, Some (Inr (0, [])))"
    using ex_submit_sell by blast
  from SubmitOrder_outcomes [OF this] show ?thesis by (auto simp: ex_sub_def)
qed

lemma SubmitOrder_jobs_witness:
  "\<exists>w'. OrderService_SubmitOrder ex_deps (ex_sub SideBuy 520 130) (ex_world1 ex_kv) = (w', Some (Inr (1, [ex_match]))) \<and>
    (\<exists>js. wJobs w' = js \<and> subseq (map jMatch js) [ex_match]) \<and>
    (\<forall>j \<in> set (wJobs w'). job_persisted (tTrades (wDb w')) j)"
proof -
  obtain w' where run: "OrderService_SubmitOrder ex_deps (ex_sub SideBuy 520 130) (ex_world1 ex_kv) = (w', Some (Inr (1, [ex_match])))"
    using ex_submit_buy by blast
  from SubmitOrder_jobs [OF ex_deps_sel(1) ex_svc_inv1 run] show ?thesis using run by (auto simp: ex_world1_def)
qed

section \<open>The database and the books\<close>

text \<open>
  C23: the database mirrors the books.  In every state reached from empty tables by submissions, cancellations
  and book reads, every resting order has its row, equal to it but for the rounding of its times, and
  every open row with something left is a resting order of its pair's book.
\<close>

theorem db_mirrors_books:
  assumes "dSql d = pg" "env_ok (dEnv d)" "svc_reachable d w"
  shows "(\<forall>p b. \<forall>r \<in> resting (wMem w) b. wBooks w p = Some b \<longrightarrow>
      (\<exists>row. order_row row \<in> set (tOrders (wDb w)) \<and> mirrors (ordAt (wMem w) r) row)) \<and>
    (\<forall>row. order_row row \<in> set (tOrders (wDb w)) \<longrightarrow> active row \<longrightarrow> 0 < RemainingBase row \<longrightarrow>
      (\<exists>b. wBooks w (OPair row) = Some b \<and> (\<exists>r \<in> resting (wMem w) b. mirrors (ordAt (wMem w) r) row)))"
proof -
  obtain all where mr: "mirror_rows (dEnv d) all w" and dist: "distinct (map ID all)"
    using svc_reachable_mirror [OF assms] by (rule mirror_invE)
  note M = mirror_rowsD [OF mr]
  have mem: "order_row row \<in> set (tOrders (wDb w)) \<longleftrightarrow> row \<in> set all" for row
    unfolding M(1) using rowToOrder_row by (metis (no_types, lifting) image_iff list.set_map sum.inject(2))
  show ?thesis
    unfolding mem
  proof (intro conjI allI ballI impI)
    fix p b r assume "r \<in> resting (wMem w) b" "wBooks w p = Some b"
    then show "\<exists>row. row \<in> set all \<and> mirrors (ordAt (wMem w) r) row" using mirroredD(1) [OF M(5)] by blast
  next
    fix row assume row: "row \<in> set all" "active row" "0 < RemainingBase row"
    obtain b r where r: "wBooks w (OPair row) = Some b" "r \<in> resting (wMem w) b" "ID (ordAt (wMem w) r) = ID row"
      using mirroredD(2) [OF M(5) row] by blast
    obtain y where y: "y \<in> set all" "mirrors (ordAt (wMem w) r) y" using mirroredD(1) [OF M(5) r(1,2)] by blast
    have "y = row" using distinct_IDs [OF dist y(1) row(1)] mirrors_eqs(1) [OF y(2)] r(3) by simp
    then show "\<exists>b. wBooks w (OPair row) = Some b \<and> (\<exists>r \<in> resting (wMem w) b. mirrors (ordAt (wMem w) r) row)"
      using r y(2) by blast
  qed
qed

lemma ex_reachable1: "\<exists>c. svc_reachable ex_deps (ex_world1 c)"
proof -
  obtain c where run: "OrderService_SubmitOrder ex_deps (ex_sub SideSell 100 200) ex_world = (ex_world1 c, Some (Inr (0, [])))"
    using ex_submit_sell by blast
  have "svc_reachable ex_deps ex_world" unfolding ex_world_def by (rule svc_reachable.start)
  then show ?thesis using svc_reachable.step [OF _ svc_step.submit [OF run]] by blast
qed

lemma db_mirrors_books_witness:
  "\<exists>w b r. svc_reachable ex_deps w \<and> wBooks w ''TKA-TKB'' = Some b \<and> r \<in> resting (wMem w) b \<and>
    mirrors (ordAt (wMem w) r) (stored micros (ex_placed 0 SideSell 100 200))"
proof -
  obtain c where reach: "svc_reachable ex_deps (ex_world1 c)" using ex_reachable1 by blast
  have env: "env_ok (dEnv ex_deps)" by (simp add: ex_env_ok)
  have "active (stored micros (ex_placed 0 SideSell 100 200))" "0 < RemainingBase (stored micros (ex_placed 0 SideSell 100 200))"
    "OPair (stored micros (ex_placed 0 SideSell 100 200)) = ''TKA-TKB''"
    "order_row (stored micros (ex_placed 0 SideSell 100 200)) \<in> set (tOrders (wDb (ex_world1 c)))"
    by (simp_all add: active_def stored_def RemainingBase_def ex_world1_def)
  then show ?thesis using db_mirrors_books [OF ex_deps_sel(1) env reach] reach by metis
qed

text \<open>The rows that make every load of a pair panic: open orders whose amounts are both zero.\<close>

definition restart_blocked :: "string \<Rightarrow> tables \<Rightarrow> bool" where
  "restart_blocked p db \<longleftrightarrow> (\<exists>row \<in> set (tOrders db). is_open p row \<and>
     parseBigInt (rwAmountSell row) = Some 0 \<and> parseBigInt (rwAmountBuy row) = Some 0)"

lemma restart_blocked_rows:
  assumes "tOrders db = map order_row all"
  shows "restart_blocked p db \<longleftrightarrow> (\<exists>od \<in> set all. is_open p (order_row od) \<and> AmountSell od = 0 \<and> AmountBuy od = 0)"
  unfolding restart_blocked_def assms by (auto simp: order_row_def)

lemma LoadOpenOrders_rebuilds:
  assumes "mirror_inv env w" "dSql d' = pg" "\<not> restart_blocked p (wDb w)"
  shows "\<exists>w' b. LoadOpenOrders d' p (start_world m n (wDb w) k c) = (w', Some (Inr ())) \<and> wBooks w' p = Some b \<and>
    wDb w' = wDb w \<and> book_inv (wMem w') b \<and>
    (\<forall>s. image_mset (\<lambda>od. od\<lparr>UpdatedAt := 0\<rparr>) (book_side (wMem w') (side_of s b)) =
      book_view rounded (wMem w) s (wBooks w p))"
proof -
  obtain all where sv: "svc_inv tables_ok tOrders w" and mr: "mirror_rows env all w" and dist: "distinct (map ID all)"
    and bi: "books_inv (wMem w) (wNextO w) (ID ` set all) (wBooks w)"
    using assms(1) by (rule mirror_invE)
  note M = mirror_rowsD [OF mr]
  let ?w0 = "start_world m n (wDb w) k c" and ?e = "\<lparr>pair = p, buys = [], sells = [], orderMap = Map.empty\<rparr>"
  have "tables_ok (wDb w)" using sv by (simp add: svc_inv_def)
  from GetOpenByPair_pg [OF this M(1)] obtain ods where get: "OrderRepo_GetOpenByPair pg p (wDb w) = Inr ods"
    and ods: "mset ods = filter_mset (\<lambda>od. is_open p (order_row od)) (mset all)" by blast
  note O = open_rows_book [OF bi M(5) dist ods]
  have mem: "\<forall>od \<in> set ods. od \<in> set all \<and> OPair od = p \<and> active od"
    using arg_cong [OF ods, of set_mset] by (auto simp: is_open_def active_def)
  have gc: "GetOrCreateOrderBook p ?w0 = Some (?e, set_book p ?e ?w0)"
    by (simp add: GetOrCreateOrderBook_def NewOrderBook_spec)
  have empty: "resting m ?e = {}" "book_orders m ?e = {#}" "book_side m (side_of s ?e) = {#}" for s
    by (simp_all add: resting_def entries_def book_orders_def book_side_def side_of_def)
  have ld: "\<forall>od \<in> set ods. loadable od \<and> ID od \<notin> dom (orderMap ?e)"
  proof (intro ballI conjI)
    fix od assume od: "od \<in> set ods"
    then have "is_open p (order_row od)" using arg_cong [OF ods, of set_mset] by auto
    then have "\<not> (AmountSell od = 0 \<and> AmountBuy od = 0)"
      using assms(3) mem od unfolding restart_blocked_rows [OF M(1)] by blast
    then show "loadable od"
      using mem od M(2) by (auto simp: loadable_def row_ok_def Price_panics_iff simp del: not_None_eq)
  qed simp
  have nc: "no_cross (mset ods + book_orders m ?e)"
    using open_rows_no_cross [OF bi M(5) dist mem] by (simp add: empty)
  have r0: "\<forall>r \<in> resting m ?e. r < n" by (simp add: empty)
  obtain m' n' b where load: "load_orders ods m n ?e = Some (m', n', b)" "book_inv m' b"
    "\<And>s. book_side m' (side_of s b) = side_orders s ods"
    using load_orders_spec [OF book_inv_new r0 O(1) ld nc] by (auto simp: empty)
  let ?w' = "set_book p b ((set_book p ?e ?w0)\<lparr>wMem := m', wNextO := n'\<rparr>)"
  have "LoadOpenOrders d' p ?w0 = (?w', Some (Inr ()))"
    unfolding LoadOpenOrders_def using get gc load(1) by (simp add: assms(2))
  moreover have "wBooks ?w' p = Some b" "wMem ?w' = m'" "wDb ?w' = wDb w" by simp_all
  ultimately show ?thesis using load(2,3) O(2) by (metis (no_types, lifting))
qed

lemma load_orders_zero:
  "\<exists>od \<in> set ods. AmountSell od = 0 \<and> AmountBuy od = 0 \<Longrightarrow> load_orders ods m n b = None"
proof (induction ods arbitrary: m n b)
  case (Cons od ods)
  show ?case
  proof (cases "AddOrder (store_order m n od) b n")
    case (Some x)
    then obtain m' b' ms where x: "AddOrder (store_order m n od) b n = Some (m', b', ms)" by (cases x) auto
    have "Price od \<noteq> None" using AddOrder_priced [OF x] by (simp add: store_order_def)
    then have "\<not> (AmountSell od = 0 \<and> AmountBuy od = 0)" by (simp add: Price_panics_iff del: not_None_eq)
    then show ?thesis using Cons x by auto
  qed simp
qed simp

lemma LoadOpenOrders_blocked:
  assumes "tables_ok db" "tOrders db = map order_row all" "restart_blocked p db" "dSql d = pg"
  shows "snd (LoadOpenOrders d p (start_world m n db k c)) = None"
proof -
  from GetOpenByPair_pg [OF assms(1,2), of p] obtain ods where get: "OrderRepo_GetOpenByPair pg p db = Inr ods"
    and ods: "mset ods = filter_mset (\<lambda>od. is_open p (order_row od)) (mset all)" by blast
  obtain od where od: "od \<in> set all" "is_open p (order_row od)" "AmountSell od = 0" "AmountBuy od = 0"
    using assms(3) unfolding restart_blocked_rows [OF assms(2)] by blast
  have "od \<in># mset ods" unfolding ods using od(1,2) by simp
  then have "load_orders ods mm nn b = None" for mm nn b using od(3,4) by (intro load_orders_zero) auto
  moreover obtain book w1 where "GetOrCreateOrderBook p (start_world m n db k c) = Some (book, w1)"
    using GetOrCreateOrderBook_total by blast
  ultimately show ?thesis using get by (simp add: LoadOpenOrders_def assms(4))
qed

text \<open>The two ways a load of a reachable database ends.\<close>

lemma LoadOpenOrders_blocked_mirror:
  assumes "mirror_inv env w" "dSql d = pg" "restart_blocked p (wDb w)"
  shows "snd (LoadOpenOrders d p (start_world m n (wDb w) k c)) = None"
proof -
  obtain all where sv: "svc_inv tables_ok tOrders w" and mr: "mirror_rows env all w"
    using assms(1) by (rule mirror_invE)
  then have "tables_ok (wDb w)" by (simp add: svc_inv_def)
  then show ?thesis by (rule LoadOpenOrders_blocked [OF _ mirror_rowsD(1) [OF mr] assms(3,2)])
qed

text \<open>
  C22: crash recovery.  From every reachable state, panicked submissions included, a process that starts on
  the same database and loads a pair's open orders either meets an open row of the pair with two zero
  amounts, and then the load panics; or it rebuilds the pair's book: the load returns, the book satisfies
  its invariant, and each of its sides is the side of the lost book with creation times rounded to
  microseconds.
\<close>

theorem crash_recovery:
  assumes "dSql d = pg" "env_ok (dEnv d)" "svc_reachable d w"
  shows "if restart_blocked p (wDb w) then snd (LoadOpenOrders d p (start_world m n (wDb w) k c)) = None
    else \<exists>w' b. LoadOpenOrders d p (start_world m n (wDb w) k c) = (w', Some (Inr ())) \<and> wBooks w' p = Some b \<and>
      wDb w' = wDb w \<and> book_inv (wMem w') b \<and>
      (\<forall>s. image_mset (\<lambda>od. od\<lparr>UpdatedAt := 0\<rparr>) (book_side (wMem w') (side_of s b)) =
        book_view rounded (wMem w) s (wBooks w p))"
  using LoadOpenOrders_rebuilds [OF svc_reachable_mirror [OF assms] assms(1)]
    LoadOpenOrders_blocked_mirror [OF svc_reachable_mirror [OF assms] assms(1)] by simp

lemma ex_not_blocked: "\<not> restart_blocked p (wDb (ex_world1 c))"
proof -
  have rows: "tOrders (wDb (ex_world1 c)) = map order_row [stored micros (ex_placed 0 SideSell 100 200)]"
    by (simp add: ex_world1_def)
  show ?thesis unfolding restart_blocked_rows [OF rows] by (simp add: stored_def)
qed

lemma crash_recovery_witness:
  "\<exists>w w' b. svc_reachable ex_deps w \<and> LoadOpenOrders ex_deps ''TKA-TKB'' (start_world ex_mem0 0 (wDb w) 0 (wCache w)) = (w', Some (Inr ())) \<and>
    wBooks w' ''TKA-TKB'' = Some b \<and> size (book_side (wMem w') (sells b)) = 1"
proof -
  obtain c where reach: "svc_reachable ex_deps (ex_world1 c)" using ex_reachable1 by blast
  have env: "env_ok (dEnv ex_deps)" by (simp add: ex_env_ok)
  obtain w' b where r: "LoadOpenOrders ex_deps ''TKA-TKB'' (start_world ex_mem0 0 (wDb (ex_world1 c)) 0 (wCache (ex_world1 c))) = (w', Some (Inr ()))"
    "wBooks w' ''TKA-TKB'' = Some b"
    and sides: "\<forall>s. image_mset (\<lambda>od. od\<lparr>UpdatedAt := 0\<rparr>) (book_side (wMem w') (side_of s b)) =
      book_view rounded (wMem (ex_world1 c)) s (wBooks (ex_world1 c) ''TKA-TKB'')"
    using crash_recovery [OF ex_deps_sel(1) env reach, of "''TKA-TKB''" ex_mem0 0 0 "wCache (ex_world1 c)"]
    unfolding if_not_P [OF ex_not_blocked] by blast
  have "size (book_side (wMem w') (side_of False b)) = size (book_view rounded (wMem (ex_world1 c)) False (wBooks (ex_world1 c) ''TKA-TKB''))"
    using sides by (metis size_image_mset)
  also have "\<dots> = 1" by (simp add: book_view_def ex_world1_def book_side_def)
  finally show ?thesis using r reach by auto
qed

text \<open>
  C26: a panicking submission blocks the next start.  When \<open>SubmitOrder\<close> panics (on an order whose amounts
  are both zero) the order is already a row with status open; a process started on the database it leaves
  panics in \<open>LoadOpenOrders\<close> for the pair.
\<close>

lemma panicking_row:
  assumes "dSql d = pg" "svc_inv tables_ok tOrders w" "OrderService_SubmitOrder d sub w = (w', None)"
  shows "\<exists>od. tOrders (wDb w') = tOrders (wDb w) @ [order_row od] \<and> AmountSell od = 0 \<and> AmountBuy od = 0 \<and>
    is_open (sPair sub) (order_row od)"
proof -
  obtain od where od: "check_submission d sub = Inr od" and po: "place_order d od w = (w', None)"
    using assms(3) by (auto simp: OrderService_SubmitOrder_def split: sum.splits)
  have sub: "FilledBase od = 0" "Status od = OrderStatusOpen" "OPair od = sPair sub"
    using od by (auto simp: check_submission_def submission_order_def split: option.splits sum.splits if_splits)
  have zero: "AmountSell od = 0" "AmountBuy od = 0" using tab.place_order_inv(2) [OF assms(1,2) sub(1,2) po] by simp_all
  obtain err od' db' where c: "OrderRepo_Create pg (dEnv d) (wTick w) od (wDb w) = (err, od', db')"
    by (cases "OrderRepo_Create pg (dEnv d) (wTick w) od (wDb w)")
  note C = OrderRepo_Create_order [OF c]
  have err: "err = None" using po c by (cases err) (auto simp: place_order_def Let_def assms(1))
  then have db': "tOrders db' = tOrders (wDb w) @ [order_row (stored micros od')]"
    using C(1) unfolding insert_order_pg by (auto split: option.splits)
  let ?w1 = "w\<lparr>wDb := db', wTick := Suc (wTick w), wMem := store_order (wMem w) (wNextO w) od', wNextO := Suc (wNextO w)\<rparr>"
  obtain book w2 where gc: "GetOrCreateOrderBook (OPair od') ?w1 = Some (book, w2)"
    using GetOrCreateOrderBook_total by blast
  note G = GetOrCreateOrderBook_frame [OF gc]
  have "ordAt (wMem w2) (wNextO w) = od'" using G(1) by (simp add: store_order_def)
  then have "AddOrder (wMem w2) book (wNextO w) = None"
    using zero C(2,3) AddOrder_priced [of "wMem w2" book "wNextO w"] Price_panics_iff [of od']
    by (cases "AddOrder (wMem w2) book (wNextO w)") auto
  then have "w' = w2" using po c err gc by (simp add: place_order_def Let_def assms(1))
  then show ?thesis using db' G(3) zero C(2,3,5,6) sub
    by (intro exI [of _ "stored micros od'"]) (simp add: stored_def is_open_def)
qed

theorem zero_order_blocks_restart:
  assumes "dSql d = pg" "env_ok (dEnv d)" "svc_reachable d w" "OrderService_SubmitOrder d sub w = (w', None)"
  shows "snd (LoadOpenOrders d (sPair sub) (start_world m n (wDb w') k c)) = None"
proof -
  obtain all where sv: "svc_inv tables_ok tOrders w" and mr: "mirror_rows (dEnv d) all w"
    using svc_reachable_mirror [OF assms(1-3)] by (rule mirror_invE)
  obtain od where od: "tOrders (wDb w') = map order_row (all @ [od])" "AmountSell od = 0" "AmountBuy od = 0"
    "is_open (sPair sub) (order_row od)"
    using panicking_row [OF assms(1) sv assms(4)] mirror_rowsD(1) [OF mr] by auto
  have "tables_ok (wDb w')" using tab.SubmitOrder_inv(1) [OF assms(1) sv assms(4)] by (simp add: svc_inv_def)
  moreover have "restart_blocked (sPair sub) (wDb w')" unfolding restart_blocked_rows [OF od(1)] using od(2-4) by auto
  ultimately show ?thesis by (rule LoadOpenOrders_blocked [OF _ od(1) _ assms(1)])
qed

lemma ex_zero_panics:
  "\<exists>w. OrderService_SubmitOrder ex_deps (ex_sub SideSell 0 0) ex_world = (w, None) \<and> restart_blocked ''TKA-TKB'' (wDb w)"
proof -
  have "Price (ex_placed 0 SideSell 0 0) = None" by (simp add: Price_panics_iff)
  then have "AddOrder (store_order ex_mem0 0 (ex_placed 0 SideSell 0 0)) b 0 = None" for b
    using AddOrder_priced [of "store_order ex_mem0 0 (ex_placed 0 SideSell 0 0)" b 0]
    by (cases "AddOrder (store_order ex_mem0 0 (ex_placed 0 SideSell 0 0)) b 0") (auto simp: store_order_def)
  then have "snd (OrderService_SubmitOrder ex_deps (ex_sub SideSell 0 0) ex_world) = None"
    by (simp add: ex_submit place_order_def Let_def ex_create int_ok_def ex_world_def GetOrCreateOrderBook_def
      NewOrderBook_spec set_book_def)
  then obtain w where run: "OrderService_SubmitOrder ex_deps (ex_sub SideSell 0 0) ex_world = (w, None)"
    by (metis prod.collapse)
  obtain od where od: "tOrders (wDb w) = map order_row [od]" "AmountSell od = 0" "AmountBuy od = 0"
    "is_open ''TKA-TKB'' (order_row od)"
    using panicking_row [OF ex_deps_sel(1) ex_svc_inv run] by (auto simp: ex_sub_def ex_world_def)
  have "restart_blocked ''TKA-TKB'' (wDb w)" unfolding restart_blocked_rows [OF od(1)] using od(2-4) by simp
  then show ?thesis using run by blast
qed

lemma zero_order_blocks_restart_witness:
  "snd (LoadOpenOrders ex_deps ''TKA-TKB'' (start_world ex_mem0 0
    (wDb (fst (OrderService_SubmitOrder ex_deps (ex_sub SideSell 0 0) ex_world))) 1 ex_kv)) = None"
proof -
  have env: "env_ok (dEnv ex_deps)" by (simp add: ex_env_ok)
  have reach: "svc_reachable ex_deps ex_world" unfolding ex_world_def by (rule svc_reachable.start)
  obtain w where "OrderService_SubmitOrder ex_deps (ex_sub SideSell 0 0) ex_world = (w, None)" using ex_zero_panics by blast
  from zero_order_blocks_restart [OF ex_deps_sel(1) env reach this] this show ?thesis by (simp add: ex_sub_def)
qed

lemma resting_active:
  assumes "book_inv m b" "r \<in> resting m b"
  shows "active (ordAt m r)"
proof -
  obtain e where e: "e \<in> entries b" "r = entryOrder (entAt m e)" using assms(2) by (auto simp: resting_def)
  then consider "e \<in> set (side_of True b)" | "e \<in> set (side_of False b)" using entries_sides [of b True] by auto
  then have "live True (order_of m e) \<or> live False (order_of m e)"
    using book_invD(2) [OF assms(1), of e] by blast
  then show ?thesis using e(2) by (auto simp: live_def)
qed

text \<open>
  C25: what cancelling does.  For an id without a row \<open>CancelOrder\<close> reports \<open>OrderNotFound\<close> and changes
  nothing.  Otherwise it succeeds: the row is cancelled with its fill unchanged, whatever its status was
  (a filled order's too), no book holds the order any more, and neither trades nor queued jobs change.
\<close>

theorem CancelOrder_effect:
  assumes "dSql d = pg" "env_ok (dEnv d)" "svc_reachable d w" "OrderService_CancelOrder d i w = (w', Some res)"
  shows "if i \<in> rwID ` set (tOrders (wDb w)) then
      res = Inr () \<and> tTrades (wDb w') = tTrades (wDb w) \<and> wJobs w' = wJobs w \<and>
      (\<exists>t. tOrders (wDb w') =
        map (\<lambda>row. if rwID row = i then row\<lparr>rwStatus := OrderStatusCancelled, rwUpdatedAt := t\<rparr> else row) (tOrders (wDb w))) \<and>
      (\<forall>p b. \<forall>r \<in> resting (wMem w') b. wBooks w' p = Some b \<longrightarrow> ID (ordAt (wMem w') r) \<noteq> i)
    else w' = w \<and> (\<exists>e. res = Inl (OrderNotFound e))"
proof -
  obtain all where sv: "svc_inv tables_ok tOrders w" and mr: "mirror_rows (dEnv d) all w" and dist: "distinct (map ID all)"
    using svc_reachable_mirror [OF assms(1-3)] by (rule mirror_invE)
  have reach': "svc_reachable d w'" by (rule svc_reachable.step [OF assms(3) svc_step.cancel [OF assms(4)]])
  obtain all' where mr': "mirror_rows (dEnv d) all' w'" and dist': "distinct (map ID all')"
    and bi': "books_inv (wMem w') (wNextO w') (ID ` set all') (wBooks w')"
    using svc_reachable_mirror [OF assms(1,2) reach'] by (rule mirror_invE)
  note M = mirror_rowsD [OF mr] and M' = mirror_rowsD [OF mr']
  show ?thesis
  proof (cases "i \<in> rwID ` set (tOrders (wDb w))")
    case False
    then show ?thesis using assms(4) CancelOrder_unknown [OF assms(1) False] by auto
  next
    case True
    let ?now = "micros (tNow (wDb w))"
    let ?upd = "\<lambda>row. if rwID row = i then row\<lparr>rwStatus := OrderStatusCancelled, rwUpdatedAt := ?now\<rparr> else row"
    have i: "i \<in> ID ` set all" using True by (simp add: M(1) image_image)
    have ok: "\<forall>y \<in> set all. row_ok y" using M(2) by blast
    have res: "res = Inr ()" and w': "wJobs w' = wJobs w"
      and db': "wDb w' = (wDb w)\<lparr>tOrders := map order_row (map (cancel_row i ?now) all)\<rparr>"
      by (rule CancelOrder_known [OF assms(1) M(1) ok dist i assms(4)], blast)+
    have "order_row (cancel_row i ?now y) = ?upd (order_row y)" for y by (simp add: cancel_row_def order_row_def)
    then have rows': "tOrders (wDb w') = map ?upd (tOrders (wDb w))" by (simp add: db' M(1))
    have "ID (ordAt (wMem w') s) \<noteq> i" if s: "s \<in> resting (wMem w') b" "wBooks w' p = Some b" for p b s
    proof
      assume i: "ID (ordAt (wMem w') s) = i"
      obtain y where y: "y \<in> set all'" "mirrors (ordAt (wMem w') s) y" using mirroredD(1) [OF M'(5) s(2,1)] by blast
      have "map order_row all' = map order_row (map (cancel_row i ?now) all)" using M'(1) unfolding db' by simp
      then have "all' = map (cancel_row i ?now) all"
        by (metis (no_types, lifting) rowsToOrders_rows sum.inject(2))
      then obtain z where z: "y = cancel_row i ?now z" using y(1) by auto
      have "ID y = i" using mirrors_eqs(1) [OF y(2)] i by (rule trans)
      then have "ID z = i" unfolding z by simp
      then have "Status y = OrderStatusCancelled" unfolding z by (simp add: cancel_row_def)
      then have "\<not> active y" by (simp add: active_def)
      then have "\<not> active (ordAt (wMem w') s)" using mirrors_eqs(8) [OF y(2)] by simp
      then show False using resting_active [OF books_invD(1) [OF bi' s(2)] s(1)] by blast
    qed
    then have gone: "\<forall>p b. \<forall>r \<in> resting (wMem w') b. wBooks w' p = Some b \<longrightarrow> ID (ordAt (wMem w') r) \<noteq> i" by blast
    have trades: "tTrades (wDb w') = tTrades (wDb w)" by (simp add: db' del: map_map)
    show ?thesis unfolding if_P [OF True] by (intro conjI res w' gone trades exI) (rule rows')
  qed
qed

lemma CancelOrder_effect_witness:
  "\<exists>w w'. svc_reachable ex_deps w \<and> OrderService_CancelOrder ex_deps ''u'' w = (w', Some (Inr ())) \<and>
    map rwStatus (tOrders (wDb w)) = [OrderStatusOpen] \<and> map rwStatus (tOrders (wDb w')) = [OrderStatusCancelled]"
proof -
  obtain c where reach: "svc_reachable ex_deps (ex_world1 c)" using ex_reachable1 by blast
  have env: "env_ok (dEnv ex_deps)" by (simp add: ex_env_ok)
  obtain w' res where run: "OrderService_CancelOrder ex_deps ''u'' (ex_world1 c) = (w', Some res)"
    using tab.CancelOrder_inv(2) [OF ex_deps_sel(1) ex_svc_inv1 prod.collapse [symmetric], of "''u''" c]
    by (metis not_None_eq prod.collapse)
  have id: "ID (stored micros (ex_placed 0 SideSell 100 200)) = ''u''" by (simp add: stored_def)
  have rows: "tOrders (wDb (ex_world1 c)) = [order_row (stored micros (ex_placed 0 SideSell 100 200))]"
    by (simp add: ex_world1_def)
  have "res = Inr () \<and> map rwStatus (tOrders (wDb w')) = [OrderStatusCancelled]"
    using CancelOrder_effect [OF ex_deps_sel(1) env reach run] by (auto simp: rows id)
  moreover have "map rwStatus (tOrders (wDb (ex_world1 c))) = [OrderStatusOpen]" by (simp add: rows stored_def)
  moreover have "OrderService_CancelOrder ex_deps ''u'' (ex_world1 c) = (w', Some (Inr ()))" using run calculation(1) by simp
  ultimately show ?thesis using reach by metis
qed

end
