(* ===== verification/PipelineClaims.thy ===== *)
theory PipelineClaims
  imports Pipeline ServiceClaims
begin

text \<open>
  The properties of the settlement pipeline: what a settled trade means, that every trade is settled at most
  once and in order, that the worker is the loop \<open>Run\<close>, and that the queue can always be drained.
\<close>

section \<open>A run with one settled trade\<close>

lemma ex_pipe:
  "\<exists>s t. pipe_reachable ex_deps (main_settler ex_eth ex_node (Some ex_client)) s \<and>
    tTrades (wDb (pWorld s)) = [t] \<and> twSettledOnChain t \<and> twID t = ''uuu'' \<and> map fst (pLog s) = [ex_job] \<and>
    wJobs (pWorld s) = [] \<and> pReplies s = []"
proof -
  let ?st = "main_settler ex_eth ex_node (Some ex_client)"
  let ?res = "\<lparr>srTxHash = ''0x'', srErr = None\<rparr>"
  obtain c where sell: "OrderService_SubmitOrder ex_deps (ex_sub SideSell 100 200) ex_world = (ex_world1 c, Some (Inr (0, [])))"
    using ex_submit_sell by blast
  obtain w where buy: "OrderService_SubmitOrder ex_deps (ex_sub SideBuy 520 130) (ex_world1 c) = (w, Some (Inr (1, [ex_match])))"
    "wJobs w = [ex_job]" using ex_submit_buy by blast
  let ?s0 = "pipe_start ex_mem0 0 0 0 ex_kv 0"
  let ?s2 = "?s0\<lparr>pWorld := w\<rparr>"
  let ?s3 = "take_job ?st ex_job [] ?s2"
  define s4 where "s4 = take_reply ex_deps (''uuu'', ?res) ([] @ []) ?s3"
  have s0: "pWorld ?s0 = ex_world" by (simp add: pipe_start_def ex_world_def)
  have r1: "pipe_reachable ex_deps ?st (?s0\<lparr>pWorld := ex_world1 c\<rparr>)"
    using pipe_reachable.step [OF pipe_reachable.start pipe_step.request] svc_step.submit [OF sell] s0 by metis
  have "svc_step ex_deps (pWorld (?s0\<lparr>pWorld := ex_world1 c\<rparr>)) w" using svc_step.submit [OF buy(1)] by simp
  from pipe_reachable.step [OF r1 pipe_step.request [OF this]] have r2: "pipe_reachable ex_deps ?st ?s2" by simp
  have r3: "pipe_reachable ex_deps ?st ?s3"
    by (rule pipe_reachable.step [OF r2 pipe_step.drain [OF drain_step.job]]) (simp add: buy(2))
  have st: "?st m mt n = (?res, n + 4)" for m mt n by (simp add: main_settler_def ex_settle)
  have s3: "pReplies ?s3 = [] @ (''uuu'', ?res) # []" "pLog ?s3 = [(ex_job, ?res)]" "wJobs (pWorld ?s3) = []"
    by (simp_all add: take_job_def pipe_start_def st ex_job_def)
  have r4: "pipe_reachable ex_deps ?st s4"
    unfolding s4_def by (rule pipe_reachable.step [OF r3 pipe_step.drain [OF drain_step.reply [OF s3(1)]]])
  have env: "env_ok (dEnv ex_deps)" by (simp add: ex_env_ok)
  note I = pipe_invD [OF pipe_reachable_inv [OF ex_deps_sel(1) env ms.settler_contract_axioms r4]]
  have s4: "pLog s4 = [(ex_job, ?res)]" "pReplies s4 = []" "wJobs (pWorld s4) = []"
    using s3 by (simp_all add: take_reply_def s4_def)
  have job: "jTradeID ex_job = ''uuu''" by (simp add: ex_job_def)
  have "map twID (tTrades (wDb (pWorld s4))) = [''uuu'']"
    using jobs_inv_ids(1) [OF I(2)] by (simp add: s4 job)
  then obtain t where t: "tTrades (wDb (pWorld s4)) = [t]" "twID t = ''uuu''" by auto
  have "settled_by (pLog s4) (pReplies s4) ''uuu''"
    by (rule settled_byI [of ex_job ?res]) (simp_all add: s4 job)
  then have "twSettledOnChain t" using I(3) t by (simp add: replies_inv_def)
  then show ?thesis using r4 t s4 by (intro exI [of _ s4] exI [of _ t]) simp
qed

section \<open>Safety\<close>

lemma replies_invD:
  assumes "replies_inv ts lg replies" "t \<in> set ts"
  shows "twSettledOnChain t \<longleftrightarrow> settled_by lg replies (twID t)"
    "(j, r) \<in> set lg \<Longrightarrow> jTradeID j = twID t \<Longrightarrow> twSettledOnChain t \<Longrightarrow> twTxHash t = srTxHash r"
  using assms unfolding replies_inv_def by blast+

text \<open>The job of a trade.\<close>

lemma jobs_inv_recorded:
  assumes inv: "jobs_inv ts m k js" and "t \<in> set ts" "j \<in> set js" "jTradeID j = twID t"
  shows "recorded m t j"
proof -
  have l: "list_all2 (recorded m) ts js" using inv by (simp add: jobs_inv_def)
  obtain i where i: "i < length ts" "ts ! i = t" using assms(2) by (auto simp: in_set_conv_nth)
  then have r: "recorded m t (js ! i)" "i < length js" using list_all2_nthD [OF l, of i] list_all2_lengthD [OF l] by auto
  obtain i' where i': "i' < length js" "js ! i' = j" using assms(3) by (auto simp: in_set_conv_nth)
  have "distinct (map jTradeID js)" by (rule jobs_inv_ids(2) [OF inv])
  moreover have "map jTradeID js ! i = map jTradeID js ! i'" using r i' assms(4) by (simp add: recorded_def)
  ultimately have "i = i'" using r(2) i'(1) by (simp add: nth_eq_iff_index_eq del: nth_map)
  then show ?thesis using r(1) i'(2) by simp
qed

text \<open>
  C4: a trade marked as settled was settled.  In every reachable state of the pipeline with a configured
  client, whatever the interleaving of requests, worker and replies, a trade row that says it is settled
  has a job the worker took, with the row's orders and amounts, whose settlement succeeded with the
  transaction hash of the row.
\<close>

theorem settled_trades_mined:
  assumes "dSql d = pg" "env_ok (dEnv d)" "pipe_reachable d (main_settler eth nd (Some cl)) s"
    and "t \<in> set (tTrades (wDb (pWorld s)))" "twSettledOnChain t"
  shows "\<exists>j n n'. j \<in> set (map fst (pLog s)) \<and> recorded (wMem (pWorld s)) t j \<and>
    settle eth nd cl (wMem (pWorld s)) (jMatch j) n = (\<lparr>srTxHash = twTxHash t, srErr = None\<rparr>, n')"
proof -
  note I = pipe_invD [OF pipe_reachable_inv [OF assms(1,2) ms.settler_contract_axioms assms(3)]]
  let ?all = "map fst (pLog s) @ wJobs (pWorld s)"
  obtain j r where j: "(j, r) \<in> set (pLog s)" "jTradeID j = twID t" "srErr r = None"
    using replies_invD(1) [OF I(3) assms(4)] assms(5) by (auto simp: settled_by_def)
  have hash: "twTxHash t = srTxHash r" by (rule replies_invD(2) [OF I(3) assms(4) j(1,2) assms(5)])
  obtain n n' where "settle eth nd cl (wMem (pWorld s)) (jMatch j) n = (r, n')"
    using I(4) j(1) by (auto simp: results_inv_def main_settler_def)
  moreover have "r = \<lparr>srTxHash = twTxHash t, srErr = None\<rparr>" using hash j(3) by simp
  moreover have "recorded (wMem (pWorld s)) t j"
    by (rule jobs_inv_recorded [OF I(2) assms(4) _ j(2)]) (use j(1) in force)
  moreover have "j \<in> set (map fst (pLog s))" using j(1) by force
  ultimately show ?thesis by blast
qed

lemma settled_trades_mined_witness:
  "\<exists>s t j n n'. pipe_reachable ex_deps (main_settler ex_eth ex_node (Some ex_client)) s \<and>
    t \<in> set (tTrades (wDb (pWorld s))) \<and> recorded (wMem (pWorld s)) t j \<and>
    settle ex_eth ex_node ex_client (wMem (pWorld s)) (jMatch j) n = (\<lparr>srTxHash = twTxHash t, srErr = None\<rparr>, n')"
proof -
  obtain s t where s: "pipe_reachable ex_deps (main_settler ex_eth ex_node (Some ex_client)) s"
    "tTrades (wDb (pWorld s)) = [t]" "twSettledOnChain t" using ex_pipe by blast
  have "env_ok (dEnv ex_deps)" "t \<in> set (tTrades (wDb (pWorld s)))" using s(2) by (simp_all add: ex_env_ok)
  from settled_trades_mined [OF ex_deps_sel(1) this(1) s(1) this(2) s(3)] s(1) this(2) show ?thesis by blast
qed

text \<open>
  C6: each trade is submitted once, in order.  The jobs the worker has taken, followed by those still in the
  channel, are the trades of the database in the order of their rows, one job for each, and all ids differ.
\<close>

theorem trades_settled_once:
  assumes "dSql d = pg" "env_ok (dEnv d)" "pipe_reachable d (main_settler eth nd clo) s"
  shows "list_all2 (recorded (wMem (pWorld s))) (tTrades (wDb (pWorld s))) (map fst (pLog s) @ wJobs (pWorld s)) \<and>
    distinct (map jTradeID (map fst (pLog s) @ wJobs (pWorld s)))"
proof -
  note I = pipe_invD [OF pipe_reachable_inv [OF assms(1,2) ms.settler_contract_axioms assms(3)]]
  show ?thesis using I(2) jobs_inv_ids(2) [OF I(2)] by (simp add: jobs_inv_def)
qed

lemma trades_settled_once_witness:
  "\<exists>s t. pipe_reachable ex_deps (main_settler ex_eth ex_node (Some ex_client)) s \<and>
    tTrades (wDb (pWorld s)) = [t] \<and> recorded (wMem (pWorld s)) t ex_job \<and> wJobs (pWorld s) = []"
proof -
  obtain s t where s: "pipe_reachable ex_deps (main_settler ex_eth ex_node (Some ex_client)) s"
    "tTrades (wDb (pWorld s)) = [t]" "map fst (pLog s) = [ex_job]" using ex_pipe by (elim exE conjE) (rule that)
  have "env_ok (dEnv ex_deps)" by (simp add: ex_env_ok)
  from trades_settled_once [OF ex_deps_sel(1) this s(1)] show ?thesis using s by (auto simp: s(2,3))
qed

section \<open>The worker's loop\<close>

lemma Run_append:
  "Run eth nd cl m (map JobReady js @ es) n =
    (let (r1, n1) = Run eth nd cl m (map JobReady js) n; (r2, n2) = Run eth nd cl m es n1 in (r1 @ r2, n2))"
  by (induction js arbitrary: n) (simp_all add: Let_def case_prod_beta)

lemma Run_terms:
  assumes "\<forall>j \<in> set js. same_terms (ordAt m (mBuyOrder (jMatch j))) (ordAt m' (mBuyOrder (jMatch j))) \<and>
    same_terms (ordAt m (mSellOrder (jMatch j))) (ordAt m' (mSellOrder (jMatch j)))"
  shows "Run eth nd cl m' (map JobReady js) n = Run eth nd cl m (map JobReady js) n"
  using assms
proof (induction js arbitrary: n)
  case (Cons j js)
  have "settle eth nd cl m' (jMatch j) n = settle eth nd cl m (jMatch j) n" for n
  proof -
    have b: "same_terms (ordAt m (mBuyOrder (jMatch j))) (ordAt m' (mBuyOrder (jMatch j)))"
      and c: "same_terms (ordAt m (mSellOrder (jMatch j))) (ordAt m' (mSellOrder (jMatch j)))" using Cons.prems by simp_all
    show ?thesis by (simp add: settle_def Let_def tuplifyOrder_terms [OF b] tuplifyOrder_terms [OF c])
  qed
  then show ?case using Cons by (simp split: prod.split)
qed simp

text \<open>The loop as steps of the pipeline, and the pipeline's log as a run of the loop.\<close>

lemma Run_drains:
  assumes "wJobs (pWorld s) = js @ rest"
  shows "\<exists>s'. (drain_step d (main_settler eth nd (Some cl)))\<^sup>*\<^sup>* s s' \<and> wJobs (pWorld s') = rest \<and>
    Run eth nd cl (wMem (pWorld s)) (map JobReady js) (pNet s) = (drop (length (pReplies s)) (pReplies s'), pNet s') \<and>
    take (length (pReplies s)) (pReplies s') = pReplies s \<and> wMem (pWorld s') = wMem (pWorld s) \<and> wDb (pWorld s') = wDb (pWorld s)"
  using assms
proof (induction js arbitrary: s)
  case Nil
  then show ?case by (intro exI [of _ s]) simp
next
  case (Cons j js)
  let ?st = "main_settler eth nd (Some cl)"
  let ?s1 = "take_job ?st j (js @ rest) s"
  obtain r n1 where r: "settle eth nd cl (wMem (pWorld s)) (jMatch j) (pNet s) = (r, n1)"
    by (cases "settle eth nd cl (wMem (pWorld s)) (jMatch j) (pNet s)")
  have s1: "wJobs (pWorld ?s1) = js @ rest" "wMem (pWorld ?s1) = wMem (pWorld s)" "wDb (pWorld ?s1) = wDb (pWorld s)"
    "pReplies ?s1 = pReplies s @ [(jTradeID j, r)]" "pNet ?s1 = n1"
    by (simp_all add: take_job_def main_settler_def r)
  have "drain_step d ?st s ?s1" using Cons.prems by (intro drain_step.job) simp
  moreover obtain s' where s': "(drain_step d ?st)\<^sup>*\<^sup>* ?s1 s'" "wJobs (pWorld s') = rest"
    "Run eth nd cl (wMem (pWorld s)) (map JobReady js) n1 = (drop (length (pReplies ?s1)) (pReplies s'), pNet s')"
    "take (length (pReplies ?s1)) (pReplies s') = pReplies ?s1"
    "wMem (pWorld s') = wMem (pWorld s)" "wDb (pWorld s') = wDb (pWorld s)"
    using Cons.IH [OF s1(1)] s1 by auto
  moreover have "pReplies s' = pReplies s @ (jTradeID j, r) # drop (length (pReplies ?s1)) (pReplies s')"
    using s'(4) append_take_drop_id [of "length (pReplies ?s1)" "pReplies s'"] s1(4) by simp
  then have "drop (length (pReplies s)) (pReplies s') = (jTradeID j, r) # drop (length (pReplies ?s1)) (pReplies s')"
    "take (length (pReplies s)) (pReplies s') = pReplies s"
    by (metis append_eq_conv_conj)+
  ultimately show ?case
    by (intro exI [of _ s']) (simp add: r s1 converse_rtranclp_into_rtranclp [of "drain_step d ?st"])
qed

definition log_runs :: "'pk eth \<Rightarrow> ('key, 'tx, 'n) node \<Rightarrow> 'key Client \<Rightarrow> 'n \<Rightarrow> ('c, 'n) pipeline \<Rightarrow> bool" where
  "log_runs eth nd cl n0 s \<longleftrightarrow> Run eth nd cl (wMem (pWorld s)) (map JobReady (map fst (pLog s))) n0 =
     (map (\<lambda>(j, r). (jTradeID j, r)) (pLog s), pNet s)"

lemma log_runs_step:
  assumes sql: "dSql d = pg" and env: "env_ok (dEnv d)" and inv: "pipe_inv (dEnv d) (main_settler eth nd (Some cl)) s"
    and log: "log_runs eth nd cl n0 s" and step: "pipe_step d (main_settler eth nd (Some cl)) s s'"
  shows "log_runs eth nd cl n0 s'"
  using step
proof (cases rule: pipe_step.cases)
  case (request w')
  note I = pipe_invD [OF inv]
  have kept: "\<forall>r < wNextO (pWorld s). same_terms (ordAt (wMem (pWorld s)) r) (ordAt (wMem w') r)"
    using svc_step_request [OF sql I(1) request(2)] by (simp add: request_ok_def terms_kept_def)
  have "\<forall>j \<in> set (map fst (pLog s)). mBuyOrder (jMatch j) < wNextO (pWorld s) \<and> mSellOrder (jMatch j) < wNextO (pWorld s)"
    using I(2) by (simp add: jobs_inv_def)
  then show ?thesis
    using log kept Run_terms [of "map fst (pLog s)" "wMem (pWorld s)" "wMem w'" eth nd cl n0]
    by (simp add: log_runs_def request(1))
next
  case drain
  then show ?thesis
  proof (cases rule: drain_step.cases)
    case (job j js)
    then show ?thesis
      using log Run_append [of eth nd cl "wMem (pWorld s)" "map fst (pLog s)" "[JobReady j]" n0]
      by (auto simp: log_runs_def take_job_def main_settler_def Let_def split: prod.splits)
  qed (use log in \<open>simp add: log_runs_def take_reply_def\<close>)
qed

text \<open>
  C32: the pipeline's worker is the loop \<open>Run\<close>.  Whatever requests and replies come in between, the results the
  worker has given so far are those of one uninterrupted \<open>Run\<close> over the jobs it took, started on the initial
  network and ended by the cancelled context; and for any number of jobs waiting in the channel, the
  pipeline can go on as \<open>Run\<close> does on them, leaving the other jobs, the memory and the database alone.
\<close>

theorem Run_refines_pipeline:
  assumes "dSql d = pg" "env_ok (dEnv d)" "(pipe_step d (main_settler eth nd (Some cl)))\<^sup>*\<^sup>* (pipe_start m k t tick c n0) s"
  shows "Run eth nd cl (wMem (pWorld s)) (map JobReady (map fst (pLog s)) @ CtxDone # es) n0 =
      (map (\<lambda>(j, r). (jTradeID j, r)) (pLog s), pNet s) \<and>
    (\<forall>js rest. wJobs (pWorld s) = js @ rest \<longrightarrow>
      (\<exists>s' replies. (drain_step d (main_settler eth nd (Some cl)))\<^sup>*\<^sup>* s s' \<and>
        Run eth nd cl (wMem (pWorld s)) (map JobReady js @ CtxDone # es) (pNet s) = (replies, pNet s') \<and>
        pReplies s' = pReplies s @ replies \<and> wJobs (pWorld s') = rest \<and>
        wMem (pWorld s') = wMem (pWorld s) \<and> wDb (pWorld s') = wDb (pWorld s)))"
proof (intro conjI allI impI)
  let ?st = "main_settler eth nd (Some cl)"
  have fin: "Run eth nd cl m (map JobReady js @ CtxDone # es) n = Run eth nd cl m (map JobReady js) n" for m js n
    by (simp add: Run_append Let_def case_prod_beta)
  have "log_runs eth nd cl n0 s \<and> pipe_reachable d ?st s"
    using assms(3)
  proof (induction rule: rtranclp_induct)
    case base
    show ?case using pipe_reachable.start [of d ?st m k t tick c n0] by (simp add: log_runs_def pipe_start_def)
  next
    case (step s s')
    have "pipe_inv (dEnv d) ?st s"
      using pipe_reachable_inv [OF assms(1,2) ms.settler_contract_axioms] step.IH by blast
    from log_runs_step [OF assms(1,2) this _ step.hyps(2)] show ?case
      using step pipe_reachable.step by blast
  qed
  then show "Run eth nd cl (wMem (pWorld s)) (map JobReady (map fst (pLog s)) @ CtxDone # es) n0 =
      (map (\<lambda>(j, r). (jTradeID j, r)) (pLog s), pNet s)"
    by (simp only: fin log_runs_def)
  fix js rest assume "wJobs (pWorld s) = js @ rest"
  from Run_drains [OF this, of d eth nd cl] obtain s' where s': "(drain_step d ?st)\<^sup>*\<^sup>* s s'" "wJobs (pWorld s') = rest"
    "Run eth nd cl (wMem (pWorld s)) (map JobReady js) (pNet s) = (drop (length (pReplies s)) (pReplies s'), pNet s')"
    "take (length (pReplies s)) (pReplies s') = pReplies s" "wMem (pWorld s') = wMem (pWorld s)" "wDb (pWorld s') = wDb (pWorld s)"
    by blast
  have "pReplies s' = pReplies s @ drop (length (pReplies s)) (pReplies s')" using s'(4) by (metis append_take_drop_id)
  then show "\<exists>s' replies. (drain_step d ?st)\<^sup>*\<^sup>* s s' \<and>
      Run eth nd cl (wMem (pWorld s)) (map JobReady js @ CtxDone # es) (pNet s) = (replies, pNet s') \<and>
      pReplies s' = pReplies s @ replies \<and> wJobs (pWorld s') = rest \<and>
      wMem (pWorld s') = wMem (pWorld s) \<and> wDb (pWorld s') = wDb (pWorld s)"
    unfolding fin using s' by blast
qed

lemma Run_refines_pipeline_witness:
  "\<exists>w s'. wJobs w = [ex_job] \<and> wJobs (pWorld s') = [] \<and> pReplies s' = [(''uuu'', \<lparr>srTxHash = ''0x'', srErr = None\<rparr>)] \<and>
    (drain_step ex_deps (main_settler ex_eth ex_node (Some ex_client)))\<^sup>*\<^sup>* ((pipe_start ex_mem0 0 0 0 ex_kv 0)\<lparr>pWorld := w\<rparr>) s'"
proof -
  let ?st = "main_settler ex_eth ex_node (Some ex_client)"
  let ?s0 = "pipe_start ex_mem0 0 0 0 ex_kv (0 :: nat)"
  obtain c where sell: "OrderService_SubmitOrder ex_deps (ex_sub SideSell 100 200) ex_world = (ex_world1 c, Some (Inr (0, [])))"
    using ex_submit_sell by blast
  obtain w where buy: "OrderService_SubmitOrder ex_deps (ex_sub SideBuy 520 130) (ex_world1 c) = (w, Some (Inr (1, [ex_match])))"
    "wJobs w = [ex_job]" using ex_submit_buy by blast
  have "pipe_step ex_deps ?st ?s0 (?s0\<lparr>pWorld := ex_world1 c\<rparr>)"
    by (rule pipe_step.request) (use svc_step.submit [OF sell] in \<open>simp add: pipe_start_def ex_world_def\<close>)
  moreover have "pipe_step ex_deps ?st (?s0\<lparr>pWorld := ex_world1 c\<rparr>) (?s0\<lparr>pWorld := ex_world1 c, pWorld := w\<rparr>)"
    by (rule pipe_step.request) (use svc_step.submit [OF buy(1)] in simp)
  ultimately have reach: "(pipe_step ex_deps ?st)\<^sup>*\<^sup>* ?s0 (?s0\<lparr>pWorld := w\<rparr>)" by simp
  have env: "env_ok (dEnv ex_deps)" by (simp add: ex_env_ok)
  have jobs: "wJobs (pWorld (?s0\<lparr>pWorld := w\<rparr>)) = [ex_job] @ []" by (simp add: buy(2))
  have job: "jTradeID ex_job = ''uuu''" by (simp add: ex_job_def)
  from conjunct2 [OF Run_refines_pipeline [OF ex_deps_sel(1) env reach, of "[]"], rule_format, OF jobs]
  obtain s' replies where s': "(drain_step ex_deps ?st)\<^sup>*\<^sup>* (?s0\<lparr>pWorld := w\<rparr>) s'"
    "Run ex_eth ex_node ex_client (wMem w) [JobReady ex_job, CtxDone] 0 = (replies, pNet s')"
    "pReplies s' = replies" "wJobs (pWorld s') = []"
    by (auto simp: pipe_start_def)
  have "replies = [(''uuu'', \<lparr>srTxHash = ''0x'', srErr = None\<rparr>)]" using s'(2) by (simp add: ex_settle job)
  then show ?thesis using s' buy(2) by (intro exI [of _ w] exI [of _ s']) simp
qed

section \<open>The queue drains\<close>

definition pending :: "('c, 'n) pipeline \<Rightarrow> nat" where
  "pending s = 2 * length (wJobs (pWorld s)) + length (pReplies s)"

lemma drain_step_pending: "drain_step d st s s' \<Longrightarrow> pending s = Suc (pending s')"
  by (cases rule: drain_step.cases)
    (auto simp: pending_def take_job_def take_reply_def split: prod.splits)

lemma drain_step_exists:
  assumes "pending s \<noteq> 0"
  shows "\<exists>s'. drain_step d st s s'"
proof (cases "wJobs (pWorld s)")
  case Nil
  then obtain x ys where "pReplies s = [] @ x # ys" using assms by (cases "pReplies s") (auto simp: pending_def)
  from drain_step.reply [OF this] show ?thesis by blast
next
  case (Cons j js)
  from drain_step.job [OF this] show ?thesis by blast
qed

lemma drain_run: "\<exists>s'. (drain_step d st)\<^sup>*\<^sup>* s s' \<and> pending s' = 0"
proof (induction "pending s" arbitrary: s)
  case 0
  then show ?case by (intro exI [of _ s]) simp
next
  case (Suc k)
  then obtain s1 where s1: "drain_step d st s s1" using drain_step_exists [of s d st] by fastforce
  then have "k = pending s1" using drain_step_pending [OF s1] Suc.hyps(2) by simp
  from Suc.hyps(1) [OF this] s1 show ?case by (meson converse_rtranclp_into_rtranclp)
qed

text \<open>
  C5: every trade is settled in the end, if the chain accepts it.  From every reachable state worker and
  goroutines can empty queue and replies, and in every state they so reach each trade has been submitted,
  and is marked as settled exactly when its settlement succeeded.
\<close>

theorem every_trade_settles:
  assumes "dSql d = pg" "env_ok (dEnv d)" "pipe_reachable d (main_settler eth nd clo) s"
  shows "(\<exists>s'. (drain_step d (main_settler eth nd clo))\<^sup>*\<^sup>* s s' \<and> wJobs (pWorld s') = [] \<and> pReplies s' = []) \<and>
    (\<forall>s'. (drain_step d (main_settler eth nd clo))\<^sup>*\<^sup>* s s' \<and> wJobs (pWorld s') = [] \<and> pReplies s' = [] \<longrightarrow>
      (\<forall>t \<in> set (tTrades (wDb (pWorld s'))). \<exists>j r. (j, r) \<in> set (pLog s') \<and> recorded (wMem (pWorld s')) t j \<and>
        (twSettledOnChain t \<longleftrightarrow> srErr r = None)))"
proof (intro conjI allI impI ballI)
  let ?st = "main_settler eth nd clo"
  show "\<exists>s'. (drain_step d ?st)\<^sup>*\<^sup>* s s' \<and> wJobs (pWorld s') = [] \<and> pReplies s' = []"
    using drain_run [of d ?st s] by (auto simp: pending_def)
  fix s' t
  assume s': "(drain_step d ?st)\<^sup>*\<^sup>* s s' \<and> wJobs (pWorld s') = [] \<and> pReplies s' = []"
    and t: "t \<in> set (tTrades (wDb (pWorld s')))"
  have "pipe_inv (dEnv d) ?st s'"
    using drain_steps_inv [OF assms(1) pipe_reachable_inv [OF assms(1,2) ms.settler_contract_axioms assms(3)]] s' by blast
  note I = pipe_invD [OF this]
  have jobs: "map fst (pLog s') @ wJobs (pWorld s') = map fst (pLog s')" using s' by simp
  note ids = jobs_inv_ids [OF I(2)]
  have "twID t \<in> jTradeID ` set (map fst (pLog s'))"
    using arg_cong [OF ids(1), of set] t unfolding jobs set_map by blast
  then obtain j r where j: "(j, r) \<in> set (pLog s')" "jTradeID j = twID t" by auto
  have rec: "recorded (wMem (pWorld s')) t j"
    by (rule jobs_inv_recorded [OF I(2) t _ j(2)]) (use j(1) in force)
  have "r' = r" if "(j', r') \<in> set (pLog s')" "jTradeID j' = twID t" for j' r'
    using log_ids(2) [OF ids that(1) j(1)] that(2) j(2) by simp
  then have "srErr r = None" if "settled_by (pLog s') (pReplies s') (twID t)"
    using that unfolding settled_by_def by metis
  moreover have "settled_by (pLog s') (pReplies s') (twID t)" if "srErr r = None"
    using s' by (intro settled_byI [OF j that]) simp
  moreover have "twSettledOnChain t \<longleftrightarrow> settled_by (pLog s') (pReplies s') (twID t)"
    by (rule replies_invD(1) [OF I(3) t])
  ultimately have "twSettledOnChain t \<longleftrightarrow> srErr r = None" by blast
  then show "\<exists>j r. (j, r) \<in> set (pLog s') \<and> recorded (wMem (pWorld s')) t j \<and> (twSettledOnChain t \<longleftrightarrow> srErr r = None)"
    using j(1) rec by (intro exI [of _ j] exI [of _ r]) simp
qed

lemma every_trade_settles_witness:
  "\<exists>s t j r. pipe_reachable ex_deps (main_settler ex_eth ex_node (Some ex_client)) s \<and>
    tTrades (wDb (pWorld s)) = [t] \<and> (j, r) \<in> set (pLog s) \<and> recorded (wMem (pWorld s)) t j \<and> srErr r = None"
proof -
  obtain s t where s: "pipe_reachable ex_deps (main_settler ex_eth ex_node (Some ex_client)) s"
    "tTrades (wDb (pWorld s)) = [t]" "twSettledOnChain t" "wJobs (pWorld s) = []" "pReplies s = []"
    using ex_pipe by (elim exE conjE) (rule that)
  have env: "env_ok (dEnv ex_deps)" by (simp add: ex_env_ok)
  note C = conjunct2 [OF every_trade_settles [OF ex_deps_sel(1) env s(1)], rule_format, of s t]
  obtain j r where "(j, r) \<in> set (pLog s)" "recorded (wMem (pWorld s)) t j" "twSettledOnChain t \<longleftrightarrow> srErr r = None"
    using C s(2,4,5) by auto
  then show ?thesis using s(1-3) by (intro exI [of _ s] exI [of _ t] exI [of _ j] exI [of _ r]) simp
qed

end
