(* ===== verification/Handler.thy ===== *)
theory Handler
  imports Service
begin

text \<open>
  \<open>internal/handler\<close>: the HTTP handlers over the order service, and the WebSocket stream.  Request parsing
  and JSON belong to gin and \<open>encoding/json\<close>: a request comes with its parsed body (or the binding
  error), and a response is its status with the value that is encoded.
\<close>

section \<open>Requests and responses\<close>

record request =
  rqMethod :: string
  rqPath :: "string list"
  rqQuery :: "string \<rightharpoonup> string"
  rqBody :: "string + OrderSubmission"

datatype body =
    JNone
  | JBindError string
  | JError svc_error
  | JRepoError repo_error
  | JOrder Order nat
  | JOrders "Order list"
  | JTrades "Trade list"
  | JSnapshot Snapshot
  | JStatus string

datatype response = Reply nat body | Stream string

text \<open>gin's \<open>DefaultQuery\<close>: the default replaces a missing parameter, not an empty one.\<close>

definition DefaultQuery :: "request \<Rightarrow> string \<Rightarrow> string \<Rightarrow> string" where
  "DefaultQuery rq key dflt = (case rqQuery rq key of None \<Rightarrow> dflt | Some v \<Rightarrow> v)"

text \<open>\<open>strconv.Atoi\<close>'s value: 0 on a syntax error, the nearest \<open>int64\<close> on a range error.\<close>

definition Atoi :: "string \<Rightarrow> int" where
  "Atoi s = (case parseBigInt s of None \<Rightarrow> 0 | Some x \<Rightarrow> max (- (2 ^ 63)) (min (2 ^ 63 - 1) x))"

section \<open>The handlers\<close>

text \<open>A panic is \<open>None\<close>, next to the world it leaves.\<close>

definition Handler_SubmitOrder ::
  "('pk, 'db, 'c) deps \<Rightarrow> request \<Rightarrow> ('db, 'c) world \<Rightarrow> ('db, 'c) world \<times> response go"
where
  "Handler_SubmitOrder d rq w =
     (case rqBody rq of
        Inl e \<Rightarrow> (w, Some (Reply 400 (JBindError e)))
      | Inr sub \<Rightarrow>
          (case OrderService_SubmitOrder d sub w of
             (w', None) \<Rightarrow> (w', None)
           | (w', Some (Inl e)) \<Rightarrow> (w', Some (Reply 400 (JError e)))
           | (w', Some (Inr (r, ms))) \<Rightarrow> (w', Some (Reply 201 (JOrder (ordAt (wMem w') r) (length ms))))))"

definition Handler_GetUserOrders ::
  "('pk, 'db, 'c) deps \<Rightarrow> string \<Rightarrow> ('db, 'c) world \<Rightarrow> ('db, 'c) world \<times> response go"
where
  "Handler_GetUserOrders d addr w =
     (case OrderService_GetOrdersByMaker d addr w of
        Inl e \<Rightarrow> (w, Some (Reply 500 (JRepoError e)))
      | Inr ods \<Rightarrow> (w, Some (Reply 200 (JOrders ods))))"

definition Handler_CancelOrder ::
  "('pk, 'db, 'c) deps \<Rightarrow> string \<Rightarrow> ('db, 'c) world \<Rightarrow> ('db, 'c) world \<times> response go"
where
  "Handler_CancelOrder d i w =
     (case OrderService_CancelOrder d i w of
        (w', None) \<Rightarrow> (w', None)
      | (w', Some (Inl e)) \<Rightarrow> (w', Some (Reply 400 (JError e)))
      | (w', Some (Inr ())) \<Rightarrow> (w', Some (Reply 200 (JStatus ''cancelled''))))"

definition Handler_GetOrderbook :: "request \<Rightarrow> ('db, 'c) world \<Rightarrow> ('db, 'c) world \<times> response go" where
  "Handler_GetOrderbook rq w =
     (case OrderService_GetOrderbook (DefaultQuery rq ''pair'' ''TKA-TKB'') w of
        None \<Rightarrow> (w, None)
      | Some (snapshot, w') \<Rightarrow> (w', Some (Reply 200 (JSnapshot snapshot))))"

definition Handler_GetTrades ::
  "('pk, 'db, 'c) deps \<Rightarrow> request \<Rightarrow> ('db, 'c) world \<Rightarrow> ('db, 'c) world \<times> response go"
where
  "Handler_GetTrades d rq w =
     (let p = DefaultQuery rq ''pair'' ''TKA-TKB'';
          limit = Atoi (DefaultQuery rq ''limit'' ''50'')
      in case OrderService_GetTrades d p limit w of
           Inl e \<Rightarrow> (w, Some (Reply 500 (JRepoError e)))
         | Inr ts \<Rightarrow> (w, Some (Reply 200 (JTrades ts))))"

section \<open>The router of \<open>main\<close>\<close>

text \<open>
  The CORS middleware answers \<open>OPTIONS\<close> before any route; gin's \<open>Recovery\<close> turns a panic into status 500.
  A path is the list of its segments; a path parameter is a third segment that is not empty.  gin's redirect
  of a path that differs from a route in a trailing slash is answered before the handlers and changes
  nothing; it is not modelled.
\<close>

definition routes ::
  "('pk, 'db, 'c) deps \<Rightarrow> request \<Rightarrow> ('db, 'c) world \<Rightarrow> ('db, 'c) world \<times> response go"
where
  "routes d rq w =
     (if rqMethod rq = ''POST'' \<and> rqPath rq = [''api'', ''orders''] then Handler_SubmitOrder d rq w
      else if rqMethod rq = ''GET'' \<and> length (rqPath rq) = 3 \<and> take 2 (rqPath rq) = [''api'', ''orders''] \<and> rqPath rq ! 2 \<noteq> []
        then Handler_GetUserOrders d (rqPath rq ! 2) w
      else if rqMethod rq = ''DELETE'' \<and> length (rqPath rq) = 3 \<and> take 2 (rqPath rq) = [''api'', ''orders''] \<and> rqPath rq ! 2 \<noteq> []
        then Handler_CancelOrder d (rqPath rq ! 2) w
      else if rqMethod rq = ''GET'' \<and> rqPath rq = [''api'', ''orderbook''] then Handler_GetOrderbook rq w
      else if rqMethod rq = ''GET'' \<and> rqPath rq = [''api'', ''trades''] then Handler_GetTrades d rq w
      else if rqMethod rq = ''GET'' \<and> rqPath rq = [''ws''] then (w, Some (Stream (DefaultQuery rq ''pair'' ''TKA-TKB'')))
      else if rqMethod rq = ''GET'' \<and> rqPath rq = [''health''] then (w, Some (Reply 200 (JStatus ''ok'')))
      else (w, Some (Reply 404 JNone)))"

definition serve ::
  "('pk, 'db, 'c) deps \<Rightarrow> request \<Rightarrow> ('db, 'c) world \<Rightarrow> ('db, 'c) world \<times> response"
where
  "serve d rq w =
     (if rqMethod rq = ''OPTIONS'' then (w, Reply 204 JNone)
      else case routes d rq w of
        (w', None) \<Rightarrow> (w', Reply 500 JNone)
      | (w', Some r) \<Rightarrow> (w', r))"

section \<open>The WebSocket stream\<close>

text \<open>
  What the loop of \<open>Handle\<close> selects, with the success of the write it leads to; \<open>WsDone\<close> is the
  cancelled context (the client left), \<open>WsClosed\<close> the closed subscription.  The result is what the client got.
\<close>

datatype ws_event = WsDone | WsClosed | WsMessage update_msg bool | WsTick bool

datatype frame = SnapshotFrame levels levels | TextFrame update_msg | PingFrame

fun ws_loop :: "ws_event list \<Rightarrow> frame list" where
  "ws_loop [] = []"
| "ws_loop (WsDone # es) = []"
| "ws_loop (WsClosed # es) = []"
| "ws_loop (WsMessage msg ok # es) = (if ok then TextFrame msg # ws_loop es else [])"
| "ws_loop (WsTick ok # es) = (if ok then PingFrame # ws_loop es else [])"

text \<open>The error of the first write is ignored.\<close>

definition WSHandler_Handle ::
  "'c redis \<Rightarrow> string \<Rightarrow> bool \<Rightarrow> bool \<Rightarrow> ws_event list \<Rightarrow> 'c \<Rightarrow> frame list"
where
  "WSHandler_Handle rd p upgraded first_ok events c =
     (if \<not> upgraded then []
      else (case Cache_GetSnapshot rd p c of
              Inl _ \<Rightarrow> []
            | Inr (bids, asks) \<Rightarrow> if first_ok then [SnapshotFrame bids asks] else []) @ ws_loop events)"

end
