(* ===== verification/Server.thy ===== *)
theory Server
  imports PipelineClaims Handler Config
begin

text \<open>
  \<open>cmd/server/main.go\<close>: how a process comes up, and the properties of the HTTP interface as the outermost layer
  of the system.
\<close>

section \<open>\<open>main\<close>\<close>

text \<open>
  What the machine answers during the start: connecting to the database, the migration file and the
  effect of executing it (an error is only logged), the ping of Redis, the parsing of the constant ABI.
\<close>

record 'db host =
  hConnect :: "string \<Rightarrow> string option"
  hMigration :: "string option"
  hExec :: "string \<Rightarrow> 'db \<Rightarrow> 'db"
  hPing :: "string \<Rightarrow> string option"
  hABI :: "string option"

datatype start_error =
    DatabaseFailed string
  | RedisFailed string
  | ClientFailed client_error
  | WorkerFailed string

text \<open>\<open>log.Fatalf\<close>, a panic, or a server that takes requests.\<close>

datatype ('pk, 'db, 'c, 'key) startup =
    Fatal start_error
  | Panicked
  | Running "('pk, 'db, 'c) deps" "('db, 'c) world" "'key Client option"

text \<open>
  The blockchain part: no client without a contract and a key; a chain id that does not parse is a nil
  pointer, which \<open>Int64\<close> dereferences.
\<close>

definition start_client ::
  "'db host \<Rightarrow> 'pk eth \<Rightarrow> ('key, 'tx, 'n) node \<Rightarrow> Config \<Rightarrow> (start_error + 'key Client option) go"
where
  "start_client host eth nd cfg =
     (if ContractAddress cfg \<noteq> [] \<and> PrivateKey cfg \<noteq> [] then do {
        chainID \<leftarrow> parseBigInt (ChainID cfg);
        Some (case NewClient eth nd (RPCUrl cfg) (TrimPrefix (PrivateKey cfg) ''0x'') (big_Int64 chainID) (ContractAddress cfg) of
                Inl e \<Rightarrow> Inl (ClientFailed e)
              | Inr cl \<Rightarrow> (case NewSettlementWorker (hABI host) cl of Inl e \<Rightarrow> Inl (WorkerFailed e) | Inr worker \<Rightarrow> Inr (Some worker)))
      }
      else Some (Inr None))"

definition start_service ::
  "'pk eth \<Rightarrow> 'db sql \<Rightarrow> 'c redis \<Rightarrow> env \<Rightarrow> Config \<Rightarrow> ('pk, 'db, 'c) deps"
where
  "start_service eth sql redis env cfg =
     NewOrderService eth sql redis env (case parseBigInt (ChainID cfg) of None \<Rightarrow> 31337 | Some chainID \<Rightarrow> chainID)
       (HexToAddress eth (ContractAddress cfg))"

definition main_start ::
  "'db host \<Rightarrow> 'pk eth \<Rightarrow> ('key, 'tx, 'n) node \<Rightarrow> 'db sql \<Rightarrow> 'c redis \<Rightarrow> env \<Rightarrow> Config \<Rightarrow>
    mem \<Rightarrow> oref \<Rightarrow> 'db \<Rightarrow> nat \<Rightarrow> 'c \<Rightarrow> ('pk, 'db, 'c, 'key) startup"
where
  "main_start host eth nd sql redis env cfg m n db k c =
     (case hConnect host (DatabaseURL cfg) of
        Some e \<Rightarrow> Fatal (DatabaseFailed e)
      | None \<Rightarrow>
          let db1 = (case hMigration host of None \<Rightarrow> db | Some migrationSQL \<Rightarrow> hExec host migrationSQL db)
          in case hPing host (RedisURL cfg) of
               Some e \<Rightarrow> Fatal (RedisFailed e)
             | None \<Rightarrow>
                 (case start_client host eth nd cfg of
                    None \<Rightarrow> Panicked
                  | Some (Inl e) \<Rightarrow> Fatal e
                  | Some (Inr clo) \<Rightarrow>
                      let d = start_service eth sql redis env cfg
                      in case LoadOpenOrders d ''TKA-TKB'' (start_world m n db1 k c) of
                           (w, None) \<Rightarrow> Panicked
                         | (w, Some _) \<Rightarrow> Running d w clo))"

section \<open>The start of a process\<close>

text \<open>
  C36: a process that settles does so on the chain and contract it verifies orders for.  When \<open>main\<close> comes up
  with a client, the chain id of the configuration parsed, the node is on it (in its low 64 bits), and the
  contract of the client is the verifying contract of the orders' domain, whose chain id is the configured one.
\<close>

theorem running_consistent:
  assumes "main_start host eth nd sql redis env cfg m n db k c = Running d w (Some cl)"
  shows "\<exists>chainID network. parseBigInt (ChainID cfg) = Some chainID \<and> NetworkChainID nd = Inr network \<and>
    big_Int64 network = big_Int64 chainID \<and> clChainID cl = big_Int64 chainID \<and>
    dDomain d = NewDomainSeparator chainID (clContract cl) \<and>
    HexToECDSA nd (TrimPrefix (PrivateKey cfg) ''0x'') = Inr (clPrivateKey cl) \<and> clAddress cl = KeyToAddress nd (clPrivateKey cl)"
  using assms
  by (auto simp: main_start_def start_client_def start_service_def NewClient_def NewSettlementWorker_def NewOrderService_def Let_def bind_Some_iff
    split: option.splits sum.splits prod.splits if_splits)

text \<open>
  C35: a restart brings the market back, or panics.  On the database that any run of the pipeline left, at
  any moment, panicked submissions included: a process that reaches database and cache, has no contract and
  key or a client its node accepts, and whose migration changes no table (as the repeated migration does,
  which fails at its first \<open>CREATE INDEX\<close>) panics if an open row of the pair TKA-TKB has two zero amounts;
  otherwise it comes up, with the book of the pair as it was (creation times rounded to microseconds).
\<close>

theorem main_recovers:
  assumes "dSql d0 = pg" "env_ok (dEnv d0)" "pipe_reachable d0 (main_settler eth0 nd0 clo0) s0" "w0 = pWorld s0"
    and "hConnect host (DatabaseURL cfg) = None" "hPing host (RedisURL cfg) = None" "\<And>s. hExec host s (wDb w0) = wDb w0"
    and "start_client host eth nd cfg = Some (Inr clo)"
  shows "if restart_blocked ''TKA-TKB'' (wDb w0)
    then main_start host eth nd pg redis env cfg m n (wDb w0) k c = Panicked
    else \<exists>w b. main_start host eth nd pg redis env cfg m n (wDb w0) k c =
      Running (start_service eth pg redis env cfg) w clo \<and> wBooks w ''TKA-TKB'' = Some b \<and> wDb w = wDb w0 \<and>
    book_inv (wMem w) b \<and>
    (\<forall>s. image_mset (\<lambda>od. od\<lparr>UpdatedAt := 0\<rparr>) (book_side (wMem w) (side_of s b)) =
      book_view rounded (wMem w0) s (wBooks w0 ''TKA-TKB''))"
proof -
  let ?d = "start_service eth pg redis env cfg"
  have sql: "dSql ?d = pg" by (simp add: start_service_def NewOrderService_def)
  have inv: "mirror_inv (dEnv d0) w0"
    unfolding assms(4) by (rule pipe_invD(1) [OF pipe_reachable_inv [OF assms(1,2) ms.settler_contract_axioms assms(3)]])
  have db: "(case hMigration host of None \<Rightarrow> wDb w0 | Some s \<Rightarrow> hExec host s (wDb w0)) = wDb w0"
    using assms(7) by (simp split: option.splits)
  show ?thesis
  proof (cases "restart_blocked ''TKA-TKB'' (wDb w0)")
    case True
    have "snd (LoadOpenOrders ?d ''TKA-TKB'' (start_world m n (wDb w0) k c)) = None"
      by (rule LoadOpenOrders_blocked_mirror [OF inv sql True])
    then obtain w where "LoadOpenOrders ?d ''TKA-TKB'' (start_world m n (wDb w0) k c) = (w, None)"
      by (metis prod.collapse)
    then have "main_start host eth nd pg redis env cfg m n (wDb w0) k c = Panicked"
      by (simp add: main_start_def assms(5,6,8) Let_def db)
    then show ?thesis using True by simp
  next
    case False
    obtain w b where load: "LoadOpenOrders ?d ''TKA-TKB'' (start_world m n (wDb w0) k c) = (w, Some (Inr ()))"
      and b: "wBooks w ''TKA-TKB'' = Some b" "wDb w = wDb w0" "book_inv (wMem w) b"
        "\<forall>s. image_mset (\<lambda>od. od\<lparr>UpdatedAt := 0\<rparr>) (book_side (wMem w) (side_of s b)) =
          book_view rounded (wMem w0) s (wBooks w0 ''TKA-TKB'')"
      using LoadOpenOrders_rebuilds [OF inv sql False, of m n k c] by blast
    have "main_start host eth nd pg redis env cfg m n (wDb w0) k c = Running ?d w clo"
      using load by (simp add: main_start_def assms(5,6,8) Let_def db)
    then show ?thesis using b False by auto
  qed
qed

section \<open>The HTTP interface\<close>

text \<open>Every request is a step of the service or none; the only panics are those of zero submissions.\<close>

lemma CancelOrder_returns: "svc_inv tables_ok tOrders w \<Longrightarrow> dSql d = pg \<Longrightarrow> snd (OrderService_CancelOrder d i w) \<noteq> None"
  using tab.CancelOrder_inv(2) [OF _ _ prod.collapse [symmetric]] by blast

lemma GetOrderbook_returns:
  assumes "svc_inv tables_ok tOrders w"
  shows "OrderService_GetOrderbook p w \<noteq> None"
proof -
  obtain book w1 where gc: "GetOrCreateOrderBook p w = Some (book, w1)" using GetOrCreateOrderBook_total by blast
  note G = GetOrCreateOrderBook_frame [OF gc]
  have "books_inv (wMem w1) (wNextO w1) (rwID ` set (tOrders (wDb w))) (wBooks w1)"
    unfolding G(1,2) G(7,8) using assms by (intro books_inv_create) (simp add: svc_inv_def)
  then have "book_inv (wMem w1) book" by (rule books_invD(1) [where p = p]) (simp add: G(7))
  then show ?thesis using GetSnapshot_total gc by (fastforce simp: OrderService_GetOrderbook_def)
qed

definition panic_reply :: "response go \<Rightarrow> bool" where
  "panic_reply res \<longleftrightarrow> res = None \<or> res = Some (Reply 500 JNone)"

lemma routes_cases:
  "routes d rq w = Handler_SubmitOrder d rq w \<or> (\<exists>i. routes d rq w = Handler_CancelOrder d i w) \<or>
   routes d rq w = Handler_GetOrderbook rq w \<or> (\<exists>r. routes d rq w = (w, r) \<and> \<not> panic_reply r)"
proof -
  let ?P = "\<lambda>x. x = Handler_SubmitOrder d rq w \<or> (\<exists>i. x = Handler_CancelOrder d i w) \<or>
   x = Handler_GetOrderbook rq w \<or> (\<exists>r. x = (w, r) \<and> \<not> panic_reply r)"
  have P_if: "?P x \<Longrightarrow> ?P y \<Longrightarrow> ?P (if c then x else y)" for x y c by simp
  have read: "?P (Handler_GetUserOrders d a w)" "?P (Handler_GetTrades d rq w)" "?P (w, Some (Stream a))"
    "?P (w, Some (Reply 200 (JStatus a)))" "?P (w, Some (Reply 404 JNone))" for a
    by (auto simp: Handler_GetUserOrders_def Handler_GetTrades_def Let_def panic_reply_def split: sum.split)
  show ?thesis unfolding routes_def by (intro P_if read) blast+
qed

lemma routes_step:
  assumes sql: "dSql d = pg" and inv: "svc_inv tables_ok tOrders w" and run: "routes d rq w = (w', res)"
  shows "(w' = w \<or> svc_step d w w') \<and> (panic_reply res \<longrightarrow>
    (\<exists>sub. rqBody rq = Inr sub \<and> parseBigInt (sAmountSell sub) = Some 0 \<and> parseBigInt (sAmountBuy sub) = Some 0))"
proof -
  have "case rqBody rq of Inl e \<Rightarrow> Handler_SubmitOrder d rq w = (w, Some (Reply 400 (JBindError e))) | Inr sub \<Rightarrow> True"
    by (simp add: Handler_SubmitOrder_def split: sum.splits)
  then consider (submit) sub where "routes d rq w = Handler_SubmitOrder d rq w" "rqBody rq = Inr sub"
    | (cancel) i where "routes d rq w = Handler_CancelOrder d i w"
    | (book) "routes d rq w = Handler_GetOrderbook rq w"
    | (other) r where "routes d rq w = (w, r)" "\<not> panic_reply r"
    using routes_cases [of d rq w] by (cases "rqBody rq") (auto simp: panic_reply_def)
  then show ?thesis
  proof cases
    case submit
    obtain w1 r1 where s: "OrderService_SubmitOrder d sub w = (w1, r1)" by (cases "OrderService_SubmitOrder d sub w")
    note P = tab.SubmitOrder_inv(2) [OF sql inv s]
    have eq: "Handler_SubmitOrder d rq w = (w', res)" unfolding submit(1) [symmetric] by (rule run)
    have step: "svc_step d w w1" by (rule svc_step.submit [OF s])
    show ?thesis
    proof (cases r1)
      case None
      then have "w' = w1" using eq unfolding Handler_SubmitOrder_def submit(2) by (simp add: s)
      then show ?thesis using step P [OF None] submit(2) by blast
    next
      case (Some x)
      have "\<exists>rr. Handler_SubmitOrder d rq w = (w1, rr) \<and> \<not> panic_reply rr"
        unfolding Handler_SubmitOrder_def submit(2) sum.case s Some prod.case option.case
        by (cases x) (simp_all add: panic_reply_def split: prod.split)
      then have "w' = w1" "\<not> panic_reply res" unfolding eq by blast+
      then show ?thesis using step by simp
    qed
  next
    case cancel
    obtain w1 r1 where s: "OrderService_CancelOrder d i w = (w1, r1)" by (cases "OrderService_CancelOrder d i w")
    then obtain r where r1: "r1 = Some r" using CancelOrder_returns [OF inv sql, of i] by auto
    have eq: "Handler_CancelOrder d i w = (w', res)" unfolding cancel [symmetric] by (rule run)
    have "\<exists>rr. Handler_CancelOrder d i w = (w1, rr) \<and> \<not> panic_reply rr"
      unfolding Handler_CancelOrder_def s r1 prod.case option.case
      by (cases r) (simp_all add: panic_reply_def split: unit.split)
    then have "w' = w1" "\<not> panic_reply res" unfolding eq by blast+
    moreover have "svc_step d w w1" by (rule svc_step.cancel [OF s])
    ultimately show ?thesis by simp
  next
    case book
    obtain x w1 where s: "OrderService_GetOrderbook (DefaultQuery rq ''pair'' ''TKA-TKB'') w = Some (x, w1)"
      using GetOrderbook_returns [OF inv, of "DefaultQuery rq ''pair'' ''TKA-TKB''"] by auto
    have eq: "Handler_GetOrderbook rq w = (w', res)" unfolding book [symmetric] by (rule run)
    have "w' = w1" "\<not> panic_reply res" using eq unfolding Handler_GetOrderbook_def s by (auto simp: panic_reply_def)
    moreover have "svc_step d w w1" by (rule svc_step.orderbook [OF s])
    ultimately show ?thesis by simp
  next
    case other
    then show ?thesis using run by simp
  qed
qed

text \<open>
  C34: the HTTP interface is the service.  In every state of the pipeline, whatever request comes, the world
  after it is the same, or is that after one step of the pipeline (so every invariant of the reachable states
  holds for clients); and the empty answer 500 of a recovered panic is given only to a submission whose two
  amounts are zero.
\<close>

theorem serve_refines_pipeline:
  assumes "dSql d = pg" "env_ok (dEnv d)" "pipe_reachable d (main_settler eth nd clo) s" "serve d rq (pWorld s) = (w', r)"
  shows "(w' = pWorld s \<or> pipe_step d (main_settler eth nd clo) s (s\<lparr>pWorld := w'\<rparr>)) \<and>
    (r = Reply 500 JNone \<longrightarrow>
      (\<exists>sub. rqBody rq = Inr sub \<and> parseBigInt (sAmountSell sub) = Some 0 \<and> parseBigInt (sAmountBuy sub) = Some 0))"
proof (cases "rqMethod rq = ''OPTIONS''")
  case True
  then show ?thesis using assms(4) by (auto simp: serve_def)
next
  case False
  have inv: "svc_inv tables_ok tOrders (pWorld s)"
    using pipe_invD(1) [OF pipe_reachable_inv [OF assms(1,2) ms.settler_contract_axioms assms(3)]] by (simp add: mirror_inv_def)
  obtain w1 res where run: "routes d rq (pWorld s) = (w1, res)" by (cases "routes d rq (pWorld s)")
  have w1: "w1 = w'" and res: "r = Reply 500 JNone \<Longrightarrow> panic_reply res"
    using assms(4) False run by (auto simp: serve_def panic_reply_def split: option.splits)
  note R = routes_step [OF assms(1) inv run]
  have "w' = pWorld s \<or> pipe_step d (main_settler eth nd clo) s (s\<lparr>pWorld := w'\<rparr>)"
    using conjunct1 [OF R] pipe_step.request [of d s w'] unfolding w1 by blast
  then show ?thesis using conjunct2 [OF R] res by blast
qed

section \<open>Reading the trades\<close>

lemma rowToTrade_sel:
  assumes "rowToTrade row = Inr t"
  shows "TradeID t = twID row" "TPair t = twPair row" "TCreatedAt t = twCreatedAt row"
  using assms by (auto simp: rowToTrade_def parse_field_def bind_sum_def split: option.splits sum.splits)

lemma rowsToTrades_total:
  assumes "\<forall>row \<in> set rows. \<exists>t. rowToTrade row = Inr t"
  shows "\<exists>ts. rowsToTrades rows = Inr ts \<and> list_all2 (\<lambda>row t. rowToTrade row = Inr t) rows ts"
  using assms
proof (induction rows)
  case (Cons row rows)
  then obtain t ts where "rowToTrade row = Inr t" "rowsToTrades rows = Inr ts"
    "list_all2 (\<lambda>row t. rowToTrade row = Inr t) rows ts" by auto
  then show ?case by simp
qed simp

lemma list_all2_map_eq: "list_all2 (\<lambda>x y. f x = g y) xs ys \<Longrightarrow> map f xs = map g ys"
  by (induction rule: list_all2_induct) simp_all

lemma recorded_parses: "recorded m row j \<Longrightarrow> \<exists>t. rowToTrade row = Inr t"
  by (simp add: recorded_def rowToTrade_def parse_field_def)

lemma pipe_rows_parse:
  assumes "pipe_inv env st s" "row \<in> set (tTrades (wDb (pWorld s)))"
  shows "\<exists>t. rowToTrade row = Inr t"
proof -
  have "list_all2 (recorded (wMem (pWorld s))) (tTrades (wDb (pWorld s))) (map fst (pLog s) @ wJobs (pWorld s))"
    using pipe_invD(2) [OF assms(1)] by (simp add: jobs_inv_def)
  then obtain j where "recorded (wMem (pWorld s)) row j"
    using assms(2) by (auto simp: list_all2_conv_all_nth in_set_conv_nth)
  then show ?thesis by (rule recorded_parses)
qed

lemma newest_first: "sorted_wrt (\<lambda>x y. f y \<le> f x) (rev (sort_key f xs))" for f :: "'a \<Rightarrow> 'b :: linorder"
proof -
  have "sorted_wrt (\<lambda>x y. f x \<le> f y) (sort_key f xs)" using sorted_sort_key [of f xs] by (simp add: sorted_map)
  then show ?thesis by (simp add: sorted_wrt_rev)
qed

text \<open>The size of a page of trades.\<close>

definition page_size :: "request \<Rightarrow> nat" where
  "page_size rq = (let limit = Atoi (DefaultQuery rq ''limit'' ''50'') in nat (if limit \<le> 0 then 50 else limit))"

text \<open>
  C38: the trades endpoint.  In every state of the pipeline \<open>GET /api/trades\<close> answers 200, with as many trades of
  the pair as there are up to the limit (50 when the limit is missing, not a number, or not positive),
  the newest first, and none left out that is newer than one given; nothing changes.
\<close>

theorem trades_page:
  assumes "dSql d = pg" "env_ok (dEnv d)" "pipe_reachable d (main_settler eth nd clo) s"
    and "rqMethod rq = ''GET''" "rqPath rq = [''api'', ''trades'']" "p = DefaultQuery rq ''pair'' ''TKA-TKB''"
  shows "\<exists>ts. serve d rq (pWorld s) = (pWorld s, Reply 200 (JTrades ts)) \<and>
    length ts = min (page_size rq) (length (filter (\<lambda>row. twPair row = p) (tTrades (wDb (pWorld s))))) \<and>
    sorted_wrt (\<lambda>x y. TCreatedAt y \<le> TCreatedAt x) ts \<and> (\<forall>t \<in> set ts. TPair t = p) \<and>
    (\<forall>row \<in> set (tTrades (wDb (pWorld s))). twPair row = p \<longrightarrow>
      twID row \<in> TradeID ` set ts \<or> (\<forall>t \<in> set ts. twCreatedAt row \<le> TCreatedAt t))"
proof -
  let ?w = "pWorld s"
  let ?rows = "filter (\<lambda>row. twPair row = p) (tTrades (wDb ?w))"
  let ?L = "rev (sort_key twCreatedAt ?rows)" and ?n = "page_size rq"
  note inv = pipe_reachable_inv [OF assms(1,2) ms.settler_contract_axioms assms(3)]
  have "\<forall>row \<in> set (take ?n ?L). \<exists>t. rowToTrade row = Inr t"
  proof
    fix row assume "row \<in> set (take ?n ?L)"
    then have "row \<in> set (tTrades (wDb ?w))" by (auto dest: in_set_takeD)
    then show "\<exists>t. rowToTrade row = Inr t" by (rule pipe_rows_parse [OF inv])
  qed
  then obtain ts where ts: "rowsToTrades (take ?n ?L) = Inr ts" "list_all2 (\<lambda>row t. rowToTrade row = Inr t) (take ?n ?L) ts"
    using rowsToTrades_total by blast
  have created: "map twCreatedAt (take ?n ?L) = map TCreatedAt ts" and ids: "map twID (take ?n ?L) = map TradeID ts"
    and pairs: "map twPair (take ?n ?L) = map TPair ts"
    using list_all2_mono [OF ts(2)] rowToTrade_sel by (intro list_all2_map_eq; force)+
  have "select_trades pg p (int ?n) (wDb ?w) = Inr (take ?n ?L)" by (simp add: pg_def t_select_trades_def)
  moreover have "(if Atoi (DefaultQuery rq ''limit'' ''50'') \<le> 0 then 50 else Atoi (DefaultQuery rq ''limit'' ''50'')) = int ?n"
    by (simp add: page_size_def Let_def)
  ultimately have "OrderService_GetTrades d p (Atoi (DefaultQuery rq ''limit'' ''50'')) ?w = Inr ts"
    by (simp add: OrderService_GetTrades_def TradeRepo_GetByPair_def assms(1) ts(1))
  then have resp: "serve d rq ?w = (?w, Reply 200 (JTrades ts))"
    by (simp add: serve_def routes_def Handler_GetTrades_def assms(4,5) assms(6) [symmetric] Let_def)
  have len: "length ts = min ?n (length ?rows)" using list_all2_lengthD [OF ts(2)] by simp
  have srt: "sorted_wrt (\<lambda>x y. twCreatedAt y \<le> twCreatedAt x) (take ?n ?L @ drop ?n ?L)"
    unfolding append_take_drop_id by (rule newest_first)
  then have "sorted_wrt (\<ge>) (map twCreatedAt (take ?n ?L))" unfolding sorted_wrt_append sorted_wrt_map by blast
  then have "sorted_wrt (\<lambda>x y. TCreatedAt y \<le> TCreatedAt x) ts" unfolding created sorted_wrt_map .
  moreover have "\<forall>t \<in> set ts. TPair t = p"
  proof -
    have "TPair ` set ts = twPair ` set (take ?n ?L)" using arg_cong [OF pairs, of set] by simp
    also have "\<dots> \<subseteq> {p}" by (auto dest: in_set_takeD)
    finally show ?thesis by blast
  qed
  moreover have "\<forall>row \<in> set (tTrades (wDb ?w)). twPair row = p \<longrightarrow>
      twID row \<in> TradeID ` set ts \<or> (\<forall>t \<in> set ts. twCreatedAt row \<le> TCreatedAt t)"
  proof (intro ballI impI)
    fix row assume "row \<in> set (tTrades (wDb ?w))" "twPair row = p"
    then have "row \<in> set (take ?n ?L @ drop ?n ?L)" unfolding append_take_drop_id by simp
    then consider "row \<in> set (take ?n ?L)" | "row \<in> set (drop ?n ?L)" unfolding set_append by blast
    then show "twID row \<in> TradeID ` set ts \<or> (\<forall>t \<in> set ts. twCreatedAt row \<le> TCreatedAt t)"
    proof cases
      case 1
      then have "twID row \<in> set (map twID (take ?n ?L))" unfolding set_map by (rule imageI)
      then show ?thesis unfolding ids by simp
    next
      case 2
      have "twCreatedAt row \<le> c" if "c \<in> set (map twCreatedAt (take ?n ?L))" for c
        using that 2 srt unfolding sorted_wrt_append set_map by blast
      then show ?thesis unfolding created by simp
    qed
  qed
  ultimately show ?thesis using resp len by blast
qed

section \<open>The stream of a pair\<close>

text \<open>
  C39: a client that connects sees the current book.  After every successful submission whose book has finite
  prices, the first frame of a new WebSocket connection of the pair holds the levels of the book as the
  submission left it, and subscribers were sent one message with the same levels.
\<close>

theorem ws_first_frame:
  assumes "dRedis d = kv_redis" "OrderService_SubmitOrder d sub w = (w', Some (Inr x))"
    and "wBooks w' (sPair sub) = Some b" "GetSnapshot (wMem w') b = Some snap"
    and "list_all finite_price (map level_data (Bids snap @ Asks snap))"
  shows "WSHandler_Handle kv_redis (sPair sub) True True es (wCache w') =
      SnapshotFrame (map level_data (Bids snap)) (map level_data (Asks snap)) # ws_loop es \<and>
    kvPublished (wCache w') = kvPublished (wCache w) @
      [(updates_channel (sPair sub), ''orderbook'', map level_data (Bids snap), map level_data (Asks snap))]"
proof -
  let ?p = "sPair sub" and ?bids = "map level_data (Bids snap)" and ?asks = "map level_data (Asks snap)"
  obtain od where od: "check_submission d sub = Inr od" and po: "place_order d od w = (w', Some (Inr x))"
    using assms(2) by (auto simp: OrderService_SubmitOrder_def split: sum.splits)
  obtain err od' db' where c: "OrderRepo_Create (dSql d) (dEnv d) (wTick w) od (wDb w) = (err, od', db')"
    by (cases "OrderRepo_Create (dSql d) (dEnv d) (wTick w) od (wDb w)")
  have pair: "OPair od' = ?p"
    using OrderRepo_Create_order(6) [OF c] od
    by (auto simp: check_submission_def submission_order_def split: option.splits sum.splits if_splits)
  from po c obtain m' book' ms w3 where w3: "wCache w3 = wCache w" "wMem w3 = m'" "wBooks w3 ?p = Some book'"
    "updateCache d ?p book' (fold (process_match d ?p) ms w3) = Some w'"
    by (cases rule: place_order_cases) (auto simp: pair)
  let ?w4 = "fold (process_match d ?p) ms w3"
  note F = updateCache_frame [OF w3(4)]
  have b: "book' = b" using F(6) w3(3) assms(3) by simp
  have "GetSnapshot (wMem ?w4) book' = Some snap" using F(1) assms(4) by (simp add: b)
  moreover have fin: "list_all finite_price ?bids" "list_all finite_price ?asks" using assms(5) by simp_all
  ultimately have "wCache w' = (wCache w)\<lparr>kvContent := kvContent (wCache w) ++ map_of (rev [(bids_key ?p, ?bids), (asks_key ?p, ?asks)]),
      kvPublished := kvPublished (wCache w) @ [(updates_channel ?p, ''orderbook'', ?bids, ?asks)]\<rparr>"
    using w3(1,4)
    by (auto simp: updateCache_def Let_def Cache_SetSnapshot_def Cache_PublishUpdate_def json_Marshal_def assms(1) kv_redis_def)
  moreover have "bids_key ?p \<noteq> asks_key ?p" by (rule kvs.keys_differ)
  ultimately show ?thesis by (simp add: WSHandler_Handle_def Cache_GetSnapshot_def kv_redis_def)
qed

end
