(* ===== verification/ServerExample.thy ===== *)
theory ServerExample
  imports Server
begin

text \<open>Concrete instances of the properties of the process and its HTTP interface.\<close>

definition ex_host :: "tables host" where
  "ex_host = \<lparr>hConnect = (\<lambda>_. None), hMigration = Some ''CREATE'', hExec = (\<lambda>_ db. db), hPing = (\<lambda>_. None), hABI = None\<rparr>"

definition ex_cfg :: "string \<Rightarrow> Config" where
  "ex_cfg contract = \<lparr>RPCUrl = [], ChainID = ''31337'', PrivateKey = ''0xab'', ContractAddress = contract, TokenAAddress = [],
     TokenBAddress = [], DatabaseURL = [], RedisURL = [], ServerPort = []\<rparr>"

lemma ex_client_started:
  "start_client ex_host ex_eth ex_node (ex_cfg ''0xc'') =
     Some (Inr (Some \<lparr>clPrivateKey = (), clAddress = replicate 20 7, clChainID = 31337, clContract = replicate 20 1\<rparr>))"
proof -
  have "parseBigInt ''31337'' = Some 31337" by (simp add: parseBigInt_def scan_nat_def digit_val_def)
  moreover have "big_Int64 31337 = 31337" by (simp add: big_Int64_def)
  ultimately show ?thesis
    by (simp add: start_client_def ex_cfg_def NewClient_def NewSettlementWorker_def ex_node_def ex_eth_def ex_host_def TrimPrefix_def)
qed

lemma ex_main:
  "\<exists>w. main_start ex_host ex_eth ex_node pg kv_redis ex_env (ex_cfg ''0xc'') ex_mem0 0 \<lparr>tOrders = [], tTrades = [], tNow = 0\<rparr> 0 ex_kv =
    Running (start_service ex_eth pg kv_redis ex_env (ex_cfg ''0xc'')) w
      (Some \<lparr>clPrivateKey = (), clAddress = replicate 20 7, clChainID = 31337, clContract = replicate 20 1\<rparr>)"
proof -
  let ?w0 = "start_world ex_mem0 0 \<lparr>tOrders = [], tTrades = [], tNow = 0\<rparr> 0 ex_kv"
  let ?d = "start_service ex_eth pg kv_redis ex_env (ex_cfg ''0xc'')"
  have "mirror_inv ex_env ?w0" using pipe_invD(1) [OF pipe_inv_start, of ex_env ex_mem0 0 0 0 ex_kv] by (simp add: pipe_start_def)
  moreover have "dSql ?d = pg" by (simp add: start_service_def NewOrderService_def)
  moreover have "\<not> restart_blocked ''TKA-TKB'' (wDb ?w0)" by (simp add: restart_blocked_def)
  ultimately obtain w where "LoadOpenOrders ?d ''TKA-TKB'' ?w0 = (w, Some (Inr ()))"
    using LoadOpenOrders_rebuilds [of ex_env ?w0 ?d "''TKA-TKB''" ex_mem0 0 0 ex_kv] by auto
  then show ?thesis
    unfolding main_start_def ex_client_started by (simp add: ex_host_def Let_def)
qed

lemma running_consistent_witness:
  "\<exists>d w cl chainID. main_start ex_host ex_eth ex_node pg kv_redis ex_env (ex_cfg ''0xc'') ex_mem0 0
      \<lparr>tOrders = [], tTrades = [], tNow = 0\<rparr> 0 ex_kv = Running d w (Some cl) \<and>
    clChainID cl = 31337 \<and> dDomain d = NewDomainSeparator chainID (clContract cl)"
proof -
  obtain w where run: "main_start ex_host ex_eth ex_node pg kv_redis ex_env (ex_cfg ''0xc'') ex_mem0 0
      \<lparr>tOrders = [], tTrades = [], tNow = 0\<rparr> 0 ex_kv =
    Running (start_service ex_eth pg kv_redis ex_env (ex_cfg ''0xc'')) w
      (Some \<lparr>clPrivateKey = (), clAddress = replicate 20 7, clChainID = 31337, clContract = replicate 20 1\<rparr>)"
    using ex_main by blast
  obtain chainID where c: "dDomain (start_service ex_eth pg kv_redis ex_env (ex_cfg ''0xc'')) =
      NewDomainSeparator chainID (clContract \<lparr>clPrivateKey = (), clAddress = replicate 20 7, clChainID = 31337, clContract = replicate 20 1\<rparr>)"
    using running_consistent [OF run] by blast
  show ?thesis by (rule exI, rule exI, rule exI, rule exI [of _ chainID], rule conjI [OF run], rule conjI [OF _ c]) simp
qed

text \<open>A process without a contract, started after the sell order of the example, and after a panicked submission.\<close>

lemma main_recovers_witness:
  "(\<exists>s w b. pipe_reachable ex_deps (main_settler ex_eth ex_node None) s \<and> length (tOrders (wDb (pWorld s))) = 1 \<and>
    main_start ex_host ex_eth ex_node pg kv_redis ex_env (ex_cfg []) ex_mem0 0 (wDb (pWorld s)) 0 ex_kv =
      Running (start_service ex_eth pg kv_redis ex_env (ex_cfg [])) w None \<and> wBooks w ''TKA-TKB'' = Some b) \<and>
   (\<exists>s. pipe_reachable ex_deps (main_settler ex_eth ex_node None) s \<and>
    main_start ex_host ex_eth ex_node pg kv_redis ex_env (ex_cfg []) ex_mem0 0 (wDb (pWorld s)) 0 ex_kv = Panicked)"
proof (rule conjI)
  let ?st = "main_settler ex_eth ex_node None"
  let ?s0 = "pipe_start ex_mem0 0 0 0 ex_kv (0 :: nat)"
  have w0: "pWorld ?s0 = ex_world" by (simp add: pipe_start_def ex_world_def)
  have env: "env_ok (dEnv ex_deps)" by (simp add: ex_env_ok)
  have cl: "start_client ex_host ex_eth ex_node (ex_cfg []) = Some (Inr None)" by (simp add: start_client_def ex_cfg_def)
  have reach: "pipe_reachable ex_deps ?st (?s0\<lparr>pWorld := w\<rparr>)" if "svc_step ex_deps ex_world w" for w
    using pipe_reachable.step [OF pipe_reachable.start pipe_step.request] that w0 by metis
  note R = main_recovers [OF ex_deps_sel(1) env reach refl _ _ _ cl, where redis = kv_redis and env = ex_env and m = ex_mem0
      and n = 0 and k = 0 and c = ex_kv, simplified ex_host_def host.simps]
  obtain c where sell: "OrderService_SubmitOrder ex_deps (ex_sub SideSell 100 200) ex_world = (ex_world1 c, Some (Inr (0, [])))"
    using ex_submit_sell by blast
  let ?s1 = "?s0\<lparr>pWorld := ex_world1 c\<rparr>"
  have nb: "\<not> restart_blocked ''TKA-TKB'' (wDb (pWorld ?s1))" using ex_not_blocked by simp
  obtain w b where "main_start ex_host ex_eth ex_node pg kv_redis ex_env (ex_cfg []) ex_mem0 0 (wDb (pWorld ?s1)) 0 ex_kv =
      Running (start_service ex_eth pg kv_redis ex_env (ex_cfg [])) w None" "wBooks w ''TKA-TKB'' = Some b"
    using R [OF svc_step.submit [OF sell]] unfolding if_not_P [OF nb] ex_host_def by auto
  moreover have "length (tOrders (wDb (pWorld ?s1))) = 1" by (simp add: ex_world1_def)
  ultimately show "\<exists>s w b. pipe_reachable ex_deps ?st s \<and> length (tOrders (wDb (pWorld s))) = 1 \<and>
    main_start ex_host ex_eth ex_node pg kv_redis ex_env (ex_cfg []) ex_mem0 0 (wDb (pWorld s)) 0 ex_kv =
      Running (start_service ex_eth pg kv_redis ex_env (ex_cfg [])) w None \<and> wBooks w ''TKA-TKB'' = Some b"
    using reach [OF svc_step.submit [OF sell]] by (intro exI [of _ ?s1] exI [of _ w] exI [of _ b] conjI)
  obtain w where zero: "OrderService_SubmitOrder ex_deps (ex_sub SideSell 0 0) ex_world = (w, None)"
    and blocked: "restart_blocked ''TKA-TKB'' (wDb (pWorld (?s0\<lparr>pWorld := w\<rparr>)))"
    using ex_zero_panics by auto
  show "\<exists>s. pipe_reachable ex_deps ?st s \<and>
    main_start ex_host ex_eth ex_node pg kv_redis ex_env (ex_cfg []) ex_mem0 0 (wDb (pWorld s)) 0 ex_kv = Panicked"
    using R [OF svc_step.submit [OF zero]] reach [OF svc_step.submit [OF zero]] unfolding if_P [OF blocked] ex_host_def by blast
qed

definition ex_request :: "string \<Rightarrow> string list \<Rightarrow> (string \<rightharpoonup> string) \<Rightarrow> string + OrderSubmission \<Rightarrow> request" where
  "ex_request meth path query bd = \<lparr>rqMethod = meth, rqPath = path, rqQuery = query, rqBody = bd\<rparr>"

lemma serve_refines_pipeline_witness:
  "\<exists>w'. fst (serve ex_deps (ex_request ''POST'' [''api'', ''orders''] Map.empty (Inr (ex_sub SideSell 100 200))) ex_world) = w' \<and>
    w' \<noteq> ex_world \<and>
    pipe_step ex_deps (main_settler ex_eth ex_node None) (pipe_start ex_mem0 0 0 0 ex_kv 0) ((pipe_start ex_mem0 0 0 0 ex_kv 0)\<lparr>pWorld := w'\<rparr>)"
proof -
  obtain c where sell: "OrderService_SubmitOrder ex_deps (ex_sub SideSell 100 200) ex_world = (ex_world1 c, Some (Inr (0, [])))"
    using ex_submit_sell by blast
  let ?rq = "ex_request ''POST'' [''api'', ''orders''] Map.empty (Inr (ex_sub SideSell 100 200))"
  let ?s = "pipe_start ex_mem0 0 0 0 ex_kv 0"
  have w0: "pWorld ?s = ex_world" by (simp add: pipe_start_def ex_world_def)
  have run: "serve ex_deps ?rq (pWorld ?s) = (ex_world1 c, Reply 201 (JOrder (ordAt (wMem (ex_world1 c)) 0) 0))"
    unfolding w0 by (simp add: serve_def routes_def ex_request_def Handler_SubmitOrder_def sell)
  have ne: "ex_world1 c \<noteq> ex_world"
    by (rule notI, drule arg_cong [where f = wNextO]) (simp add: ex_world1_def ex_world_def)
  have env: "env_ok (dEnv ex_deps)" by (simp add: ex_env_ok)
  have "pipe_step ex_deps (main_settler ex_eth ex_node None) ?s (?s\<lparr>pWorld := ex_world1 c\<rparr>)"
    using serve_refines_pipeline [OF ex_deps_sel(1) env pipe_reachable.start run] ne by (simp add: w0)
  then show ?thesis using run ne by (simp add: w0)
qed

lemma trades_page_witness:
  "\<exists>s t ts. pipe_reachable ex_deps (main_settler ex_eth ex_node (Some ex_client)) s \<and> tTrades (wDb (pWorld s)) = [t] \<and>
    serve ex_deps (ex_request ''GET'' [''api'', ''trades''] [''pair'' \<mapsto> twPair t, ''limit'' \<mapsto> ''x''] (Inl [])) (pWorld s) =
      (pWorld s, Reply 200 (JTrades ts)) \<and> length ts = 1"
proof -
  obtain s t where s: "pipe_reachable ex_deps (main_settler ex_eth ex_node (Some ex_client)) s"
    "tTrades (wDb (pWorld s)) = [t]" "twID t = ''uuu''"
    using ex_pipe by (elim exE conjE) (rule that)
  let ?rq = "ex_request ''GET'' [''api'', ''trades''] [''pair'' \<mapsto> twPair t, ''limit'' \<mapsto> ''x''] (Inl [])"
  have env: "env_ok (dEnv ex_deps)" by (simp add: ex_env_ok)
  have rq: "rqMethod ?rq = ''GET''" "rqPath ?rq = [''api'', ''trades'']" "twPair t = DefaultQuery ?rq ''pair'' ''TKA-TKB''"
    by (simp_all add: ex_request_def DefaultQuery_def)
  have page: "page_size ?rq = 50"
    by (simp add: page_size_def DefaultQuery_def ex_request_def Atoi_def parseBigInt_def scan_nat_def digit_val_def)
  obtain ts where ts: "serve ex_deps ?rq (pWorld s) = (pWorld s, Reply 200 (JTrades ts))" "length ts = 1"
    using trades_page [OF ex_deps_sel(1) env s(1) rq] by (auto simp: page s(2,3))
  show ?thesis by (intro exI [of _ s] exI [of _ t] exI [of _ ts] conjI s(1,2) ts)
qed

lemma ws_first_frame_witness:
  "\<exists>c. WSHandler_Handle kv_redis ''TKA-TKB'' True True [WsTick True] c =
    [SnapshotFrame [] [\<lparr>pdPrice = Fin 2, pdAmount = big_String 100, pdCount = 1\<rparr>], PingFrame]"
proof -
  obtain c where sell: "OrderService_SubmitOrder ex_deps (ex_sub SideSell 100 200) ex_world = (ex_world1 c, Some (Inr (0, [])))"
    using ex_submit_sell by blast
  let ?snap = "\<lparr>Bids = [], Asks = [\<lparr>PLPrice = Fin 2, PLAmount = 100, PLCount = 1\<rparr>]\<rparr>"
  have "GetSnapshot ex_mem1 ex_book1 = Some ?snap"
    by (simp add: GetSnapshot_def aggregateLevels_def aggregateSellLevels_def ex_book1_def ex_mem1_def ex_mem0_def
      add_to_levels_def RemainingBase_def sortDesc_def sortAsc_def sortDesc_outer.simps sortAsc_outer.simps)
  then have snap: "wBooks (ex_world1 c) (sPair (ex_sub SideSell 100 200)) = Some ex_book1"
    "GetSnapshot (wMem (ex_world1 c)) ex_book1 = Some ?snap"
    by (simp_all add: ex_world1_def ex_book1_def ex_sub_def)
  have fin: "list_all finite_price (map level_data (Bids ?snap @ Asks ?snap))" by (simp add: finite_price_def level_data_def)
  have "sPair (ex_sub SideSell 100 200) = ''TKA-TKB''" by (simp add: ex_sub_def)
  then show ?thesis
    using ws_first_frame [OF ex_deps_sel(4) sell snap fin, of "[WsTick True]"]
    by (intro exI [of _ "wCache (ex_world1 c)"]) (simp add: level_data_def)
qed

end
