(* ===== verification/Indexer.thy ===== *)
theory Indexer
  imports Eip712
begin

text \<open>
  \<open>internal/blockchain/indexer.go\<close>: the loop that polls the chain for the contract's events and hands
  them to an \<open>EventHandler\<close>.  What a poll of the node answers is data (\<open>poll\<close>); the event ids and the
  decoder, which go-ethereum derives from the constant \<open>eventsABI\<close>, are the fields of \<open>events_abi\<close>.
  The calls of the handler are collected as a list.
\<close>

section \<open>Events\<close>

record Log =
  lgTopics :: "hash list"
  lgData :: "byte list"

datatype chain_event =
    OnDeposit address address int
  | OnWithdraw address address int
  | OnTradeSettled hash hash address address int int

record events_abi =
  depositSig :: hash
  withdrawSig :: hash
  tradeSettledSig :: hash
  UnpackTradeSettled :: "byte list \<Rightarrow> string + address \<times> address \<times> int \<times> int"
  BytesToAddress :: "byte list \<Rightarrow> address"

text \<open>\<open>vLog.Topics[i]\<close> panics when the log has no such topic; the result is the list of handler calls.\<close>

definition topic :: "Log \<Rightarrow> nat \<Rightarrow> hash go" where
  "topic vLog i = (if i < length (lgTopics vLog) then Some (lgTopics vLog ! i) else None)"

definition processLog :: "events_abi \<Rightarrow> Log \<Rightarrow> chain_event list go" where
  "processLog ev vLog =
     (if length (lgTopics vLog) = 0 then Some []
      else if lgTopics vLog ! 0 = depositSig ev then do {
        t1 \<leftarrow> topic vLog 1;
        t2 \<leftarrow> topic vLog 2;
        Some [OnDeposit (BytesToAddress ev t1) (BytesToAddress ev t2) (big_SetBytes (lgData vLog))]
      }
      else if lgTopics vLog ! 0 = withdrawSig ev then do {
        t1 \<leftarrow> topic vLog 1;
        t2 \<leftarrow> topic vLog 2;
        Some [OnWithdraw (BytesToAddress ev t1) (BytesToAddress ev t2) (big_SetBytes (lgData vLog))]
      }
      else if lgTopics vLog ! 0 = tradeSettledSig ev then do {
        buyHash \<leftarrow> topic vLog 1;
        sellHash \<leftarrow> topic vLog 2;
        (case UnpackTradeSettled ev (lgData vLog) of
           Inl _ \<Rightarrow> Some []
         | Inr (buyer, seller, baseAmount, quoteAmount) \<Rightarrow>
             Some [OnTradeSettled buyHash sellHash buyer seller baseAmount quoteAmount])
      }
      else Some [])"

fun processLogs :: "events_abi \<Rightarrow> Log list \<Rightarrow> chain_event list go" where
  "processLogs ev [] = Some []"
| "processLogs ev (vLog # logs) = do {
     es \<leftarrow> processLog ev vLog;
     rest \<leftarrow> processLogs ev logs;
     Some (es @ rest)
   }"

section \<open>The loop\<close>

text \<open>
  One turn of the loop needs the answers of \<open>BlockNumber\<close> and, for the range it then asks, of
  \<open>FilterLogs\<close>.  \<open>ixSlept\<close> collects the arguments of \<open>time.Sleep\<close>.
\<close>

record poll =
  plBlockNumber :: "string + 64 word"
  plFilterLogs :: "64 word \<Rightarrow> 64 word \<Rightarrow> string + Log list"

record index_state =
  ixLastBlock :: "64 word"
  ixBackoff :: int
  ixEvents :: "chain_event list"
  ixSlept :: "int list"

definition time_Second :: int where
  "time_Second = 1000000000"

definition index_start :: index_state where
  "index_start = \<lparr>ixLastBlock = 0, ixBackoff = time_Second, ixEvents = [], ixSlept = []\<rparr>"

definition index_turn :: "events_abi \<Rightarrow> poll \<Rightarrow> index_state \<Rightarrow> index_state go" where
  "index_turn ev pl s =
     (case plBlockNumber pl of
        Inl _ \<Rightarrow> Some (s\<lparr>ixSlept := ixSlept s @ [ixBackoff s], ixBackoff := min (ixBackoff s * 2) (30 * time_Second)\<rparr>)
      | Inr currentBlock \<Rightarrow>
          if currentBlock \<le> ixLastBlock s then Some (s\<lparr>ixSlept := ixSlept s @ [2 * time_Second]\<rparr>)
          else
            let s1 = s\<lparr>ixBackoff := time_Second\<rparr>
            in case plFilterLogs pl (ixLastBlock s + 1) currentBlock of
                 Inl _ \<Rightarrow> Some (s1\<lparr>ixSlept := ixSlept s1 @ [ixBackoff s1]\<rparr>)
               | Inr logs \<Rightarrow> do {
                   es \<leftarrow> processLogs ev logs;
                   Some (s1\<lparr>ixEvents := ixEvents s1 @ es, ixLastBlock := currentBlock\<rparr>)
                 })"

text \<open>\<open>Start\<close> until the context is done, after the turns for which \<open>polls\<close> has the answers.\<close>

fun Start_loop :: "events_abi \<Rightarrow> poll list \<Rightarrow> index_state \<Rightarrow> index_state go" where
  "Start_loop ev [] s = Some s"
| "Start_loop ev (pl # pls) s = Option.bind (index_turn ev pl s) (Start_loop ev pls)"

definition Start :: "events_abi \<Rightarrow> poll list \<Rightarrow> index_state go" where
  "Start ev polls = Start_loop ev polls index_start"

section \<open>Every block once\<close>

text \<open>
  A node over a fixed chain: its \<open>FilterLogs\<close> fails or returns the logs of the blocks asked for, in order.
  What \<open>BlockNumber\<close> says may go up and down.
\<close>

definition block_logs :: "(nat \<Rightarrow> Log list) \<Rightarrow> nat \<Rightarrow> nat \<Rightarrow> Log list" where
  "block_logs chain a b = concat (map chain [a..<Suc b])"

definition honest_poll :: "(nat \<Rightarrow> Log list) \<Rightarrow> poll \<Rightarrow> bool" where
  "honest_poll chain pl \<longleftrightarrow>
     (\<forall>a b logs. plFilterLogs pl a b = Inr logs \<longrightarrow> logs = block_logs chain (unat a) (unat b))"

lemma block_logs_split:
  assumes "a \<le> Suc k" "k \<le> b"
  shows "block_logs chain a b = block_logs chain a k @ block_logs chain (Suc k) b"
proof -
  obtain d where "Suc b = Suc k + d" using assms(2) by (metis add_Suc le_Suc_ex)
  then have "[a..<Suc b] = [a..<Suc k] @ [Suc k..<Suc b]" using upt_add_eq_append [OF assms(1), of d] by simp
  then show ?thesis by (simp only: block_logs_def map_append concat_append)
qed

lemma processLogs_append:
  "processLogs ev (xs @ ys) = Option.bind (processLogs ev xs) (\<lambda>es. Option.bind (processLogs ev ys) (\<lambda>fs. Some (es @ fs)))"
  by (induction xs) (auto simp: bind_eq_Some_conv split: Option.bind_splits)

lemma honest_pollD: "honest_poll chain pl \<Longrightarrow> plFilterLogs pl a b = Inr logs \<Longrightarrow> logs = block_logs chain (unat a) (unat b)"
  by (simp add: honest_poll_def)

lemma unat_next:
  assumes "(x :: 64 word) < y"
  shows "unat (x + 1) = Suc (unat x)" "unat x < unat y"
proof -
  show lt: "unat x < unat y" using assms by (simp add: word_less_nat_alt)
  moreover have "unat y < 2 ^ 64" using unsigned_less [where ?'a = nat, of y] by simp
  ultimately show "unat (x + 1) = Suc (unat x)" by (simp add: unat_word_ariths)
qed

lemma index_turn_inv:
  assumes honest: "honest_poll chain pl" and inv: "processLogs ev (block_logs chain 1 (unat (ixLastBlock s))) = Some (ixEvents s)"
    and run: "index_turn ev pl s = Some s'"
  shows "processLogs ev (block_logs chain 1 (unat (ixLastBlock s'))) = Some (ixEvents s') \<and> ixLastBlock s \<le> ixLastBlock s'"
proof (cases "\<exists>cur logs. plBlockNumber pl = Inr cur \<and> ixLastBlock s < cur \<and> plFilterLogs pl (ixLastBlock s + 1) cur = Inr logs")
  case False
  then have "ixLastBlock s' = ixLastBlock s" "ixEvents s' = ixEvents s"
    using run by (auto simp: index_turn_def Let_def split: sum.splits if_splits)
  then show ?thesis using inv by simp
next
  case True
  then obtain cur logs where c: "plBlockNumber pl = Inr cur" "ixLastBlock s < cur" "plFilterLogs pl (ixLastBlock s + 1) cur = Inr logs"
    by blast
  note U = unat_next [OF c(2)]
  have n: "\<not> cur \<le> ixLastBlock s" using c(2) by (simp add: not_le)
  have logs: "logs = block_logs chain (Suc (unat (ixLastBlock s))) (unat cur)"
    using honest_pollD [OF honest c(3)] U(1) by simp
  obtain es where es: "processLogs ev logs = Some es" "s' = s\<lparr>ixBackoff := time_Second, ixEvents := ixEvents s @ es, ixLastBlock := cur\<rparr>"
    using run c(1,3) n by (auto simp: index_turn_def Let_def bind_Some_iff)
  have "block_logs chain 1 (unat cur) = block_logs chain 1 (unat (ixLastBlock s)) @ logs"
    unfolding logs using U(2) by (intro block_logs_split) simp_all
  then show ?thesis using inv es c(2) by (simp add: processLogs_append)
qed

lemma Start_loop_inv:
  assumes "\<forall>pl \<in> set polls. honest_poll chain pl" "Start_loop ev polls s = Some s'"
    "processLogs ev (block_logs chain 1 (unat (ixLastBlock s))) = Some (ixEvents s)"
  shows "processLogs ev (block_logs chain 1 (unat (ixLastBlock s'))) = Some (ixEvents s')"
  using assms
proof (induction polls arbitrary: s)
  case (Cons pl pls)
  then obtain s1 where s1: "index_turn ev pl s = Some s1" "Start_loop ev pls s1 = Some s'" by (auto simp: bind_Some_iff)
  have "honest_poll chain pl" using Cons.prems(1) by simp
  from index_turn_inv [OF this Cons.prems(3) s1(1)] show ?case using Cons.IH [OF _ s1(2)] Cons.prems(1) by simp
qed simp

text \<open>A log makes the loop panic exactly when it is one of the three events with fewer than three topics.\<close>

lemma processLog_panics:
  "processLog ev vLog = None \<longleftrightarrow> lgTopics vLog \<noteq> [] \<and> length (lgTopics vLog) < 3 \<and>
     lgTopics vLog ! 0 \<in> {depositSig ev, withdrawSig ev, tradeSettledSig ev}"
  by (auto simp: processLog_def topic_def bind_eq_None_conv split: sum.splits)

lemma processLogs_panics: "processLogs ev logs = None \<longleftrightarrow> (\<exists>l \<in> set logs. processLog ev l = None)"
  by (induction logs) (auto simp: bind_eq_None_conv)

lemma Start_loop_total:
  assumes "\<forall>pl \<in> set polls. honest_poll chain pl" "\<forall>n. \<forall>l \<in> set (chain n). processLog ev l \<noteq> None"
  shows "\<exists>s'. Start_loop ev polls s = Some s'"
  using assms(1)
proof (induction polls arbitrary: s)
  case (Cons pl pls)
  have h: "honest_poll chain pl" using Cons.prems by simp
  have "processLogs ev (block_logs chain a b) \<noteq> None" for a b
    using assms(2) unfolding processLogs_panics by (auto simp: block_logs_def)
  then have "processLogs ev logs \<noteq> None" if "plFilterLogs pl a b = Inr logs" for a b logs
    unfolding honest_pollD [OF h that] .
  moreover have "\<exists>a b logs. plFilterLogs pl a b = Inr logs \<and> processLogs ev logs = None" if "index_turn ev pl s = None"
    using that by (auto simp: index_turn_def Let_def bind_eq_None_conv split: sum.splits if_splits)
  ultimately have "index_turn ev pl s \<noteq> None" by metis
  then obtain s1 where "index_turn ev pl s = Some s1" by blast
  then show ?case using Cons by simp
qed simp

section \<open>Properties\<close>

text \<open>
  C37: the indexer hands over every event once, in order.  Over a chain whose known events have their three
  topics the loop never panics, whatever the node's answers and errors, and after any number of
  turns the handler has been called for exactly the logs of the blocks 1 to \<open>lastBlock\<close>, in their order.
  (Block 0 is never read.)
\<close>

theorem index_exactly_once:
  assumes "\<forall>pl \<in> set polls. honest_poll chain pl"
    "\<forall>n. \<forall>l \<in> set (chain n). lgTopics l = [] \<or> 3 \<le> length (lgTopics l) \<or>
      lgTopics l ! 0 \<notin> {depositSig ev, withdrawSig ev, tradeSettledSig ev}"
  shows "\<exists>s. Start ev polls = Some s \<and> processLogs ev (block_logs chain 1 (unat (ixLastBlock s))) = Some (ixEvents s)"
proof -
  have "\<forall>n. \<forall>l \<in> set (chain n). processLog ev l \<noteq> None" using assms(2) unfolding processLog_panics by (meson not_le)
  then obtain s where s: "Start ev polls = Some s" unfolding Start_def using Start_loop_total [OF assms(1)] by blast
  moreover have "processLogs ev (block_logs chain 1 (unat (ixLastBlock s))) = Some (ixEvents s)"
    by (rule Start_loop_inv [OF assms(1) s [unfolded Start_def]]) (simp add: index_start_def block_logs_def)
  ultimately show ?thesis by blast
qed

lemma index_turn_backoff:
  assumes "index_turn ev pl s = Some s'" "time_Second \<le> ixBackoff s" "ixBackoff s \<le> 30 * time_Second"
    "\<forall>t \<in> set (ixSlept s). time_Second \<le> t \<and> t \<le> 30 * time_Second"
  shows "time_Second \<le> ixBackoff s' \<and> ixBackoff s' \<le> 30 * time_Second \<and>
    (\<forall>t \<in> set (ixSlept s'). time_Second \<le> t \<and> t \<le> 30 * time_Second)"
  using assms by (auto simp: index_turn_def Let_def time_Second_def bind_Some_iff split: sum.splits if_splits)

text \<open>
  Every wait of the indexer is between one and thirty seconds, whatever the node answers.
\<close>

theorem index_sleeps_bounded:
  assumes "Start ev polls = Some s" "t \<in> set (ixSlept s)"
  shows "1000000000 \<le> t \<and> t \<le> 30000000000"
proof -
  have "(\<forall>t \<in> set (ixSlept s'). time_Second \<le> t \<and> t \<le> 30 * time_Second)"
    if "Start_loop ev polls s0 = Some s'" "time_Second \<le> ixBackoff s0" "ixBackoff s0 \<le> 30 * time_Second"
      "\<forall>t \<in> set (ixSlept s0). time_Second \<le> t \<and> t \<le> 30 * time_Second" for s0 s'
    using that
  proof (induction polls arbitrary: s0)
    case (Cons pl pls)
    then obtain s1 where s1: "index_turn ev pl s0 = Some s1" "Start_loop ev pls s1 = Some s'" by (auto simp: bind_Some_iff)
    show ?case using Cons.IH [OF s1(2)] index_turn_backoff [OF s1(1) Cons.prems(2-4)] by blast
  qed simp
  from this [OF assms(1) [unfolded Start_def]] show ?thesis using assms(2) by (simp add: index_start_def time_Second_def)
qed

section \<open>Witnesses\<close>

text \<open>A chain with a deposit in block 2, and a node that fails once.\<close>

definition ex_events :: events_abi where
  "ex_events = \<lparr>depositSig = [1], withdrawSig = [2], tradeSettledSig = [3], UnpackTradeSettled = (\<lambda>_. Inl []),
     BytesToAddress = id\<rparr>"

definition ex_chain :: "nat \<Rightarrow> Log list" where
  "ex_chain n = (if n = 2 then [\<lparr>lgTopics = [[1], [7], [8]], lgData = [5]\<rparr>] else [])"

definition ex_poll :: "string + 64 word \<Rightarrow> poll" where
  "ex_poll bn = \<lparr>plBlockNumber = bn, plFilterLogs = (\<lambda>a b. Inr (block_logs ex_chain (unat a) (unat b)))\<rparr>"

lemma ex_blocks: "block_logs ex_chain (Suc 0) 3 = [\<lparr>lgTopics = [[1], [7], [8]], lgData = [5]\<rparr>]"
  by (simp add: block_logs_def upt_conv_Cons ex_chain_def)

lemma ex_index: "Start ex_events [ex_poll (Inl ''down''), ex_poll (Inr 3)] =
  Some \<lparr>ixLastBlock = 3, ixBackoff = 1000000000, ixEvents = [OnDeposit [7] [8] 5], ixSlept = [1000000000]\<rparr>"
  by (simp add: Start_def index_turn_def ex_poll_def index_start_def time_Second_def ex_blocks processLog_def topic_def ex_events_def big_SetBytes_def bytes_nat_def)

lemma index_exactly_once_witness:
  "\<exists>s. Start ex_events [ex_poll (Inl ''down''), ex_poll (Inr 3)] = Some s \<and>
    processLogs ex_events (block_logs ex_chain 1 3) = Some (ixEvents s) \<and> ixEvents s = [OnDeposit [7] [8] 5]"
proof -
  have "\<forall>pl \<in> set [ex_poll (Inl ''down''), ex_poll (Inr 3)]. honest_poll ex_chain pl" by (simp add: honest_poll_def ex_poll_def)
  moreover have "\<forall>n. \<forall>l \<in> set (ex_chain n). lgTopics l = [] \<or> 3 \<le> length (lgTopics l) \<or>
      lgTopics l ! 0 \<notin> {depositSig ex_events, withdrawSig ex_events, tradeSettledSig ex_events}"
    by (simp add: ex_chain_def)
  ultimately obtain s where "Start ex_events [ex_poll (Inl ''down''), ex_poll (Inr 3)] = Some s"
    "processLogs ex_events (block_logs ex_chain 1 (unat (ixLastBlock s))) = Some (ixEvents s)"
    using index_exactly_once by metis
  then show ?thesis using ex_index by auto
qed

lemma index_sleeps_bounded_witness:
  "\<exists>s. Start ex_events [ex_poll (Inl ''down''), ex_poll (Inr 3)] = Some s \<and> ixSlept s = [1000000000] \<and>
    (1000000000 :: int) \<le> 30000000000"
  using index_sleeps_bounded [OF ex_index, of 1000000000] ex_index by simp

end
