(* ===== verification/Spec2Isabelle.thy ===== *)
theory Spec2Isabelle
  imports EngineClaims SnapshotProps ServerExample Indexer
begin

text \<open>
  The backend of the Nexus order book exchange (\<open>backend/\<close>, Go), modelled in Isabelle/HOL.

  The program.  A client signs an order (EIP-712) and posts it.  The HTTP handler passes it to the order
  service, which checks the signature, stores the order in PostgreSQL, matches it in the in-memory order
  book of its pair, stores the trades with the new fills and statuses, queues one settlement job for each
  trade, and refreshes the snapshot in Redis, from which WebSocket clients are served.  One worker takes the
  jobs in order, sends a transaction to the contract for each, waits for its receipt and replies; a
  goroutine marks the trade as settled.  An indexer polls the chain for the contract's events.  At the
  start \<open>main\<close> rebuilds the book of one pair from the open rows.

  Theories and code.

  \<^item> \<open>Prelude\<close>: generic lemmas (lists, multisets, options) and the collections of simplification rules.
  \<^item> \<open>Float64\<close>, \<open>Orders\<close>: \<open>internal/domain\<close>.  \<open>Order\<close>, \<open>Trade\<close> and \<open>OrderSubmission\<close> are records, sides and
    statuses the strings of the code.  \<open>Price\<close> is the quotient of \<open>big.Float\<close>s rounded to 64 bits and again to
    \<open>float64\<close>, \<open>None\<close> being the panic of 0/0.
  \<^item> \<open>GoHeap\<close>, \<open>BookHeap\<close>: \<open>container/heap\<close> as a locale over the methods of an interface, and the methods of
    \<open>heap.go\<close> that interpret it for both sides.  Orders and entries live in an explicit store \<open>mem\<close>,
    since a match, the book and the database see the same order.
  \<^item> \<open>Engine\<close>, \<open>BookInv\<close>, \<open>MatchSpec\<close>, \<open>Matching\<close>, \<open>BookOps\<close>, \<open>EngineProps\<close>, \<open>EngineClaims\<close>: \<open>engine.go\<close>.
    \<open>Engine\<close> has the operations (\<open>AddOrder\<close>, \<open>matchBuy\<close>, \<open>matchSell\<close>, \<open>CancelOrder\<close>); \<open>BookInv\<close> the invariant of a
    book; \<open>MatchSpec\<close> the abstract matching relation on multisets of orders; \<open>Matching\<close> and \<open>BookOps\<close> the
    simulation; the last two the properties (refinement, priority, conservation, prices, the ledger
    over runs, rounding, the cases in which float64 prices differ from the contract's check).
  \<^item> \<open>Snapshot\<close>, \<open>SnapshotProps\<close>: \<open>GetSnapshot\<close> with its aggregation and its hand-written sorts.
  \<^item> \<open>Texts\<close>, \<open>Eip712\<close>: decimal and hexadecimal texts; \<open>pkg/eip712\<close> over a record of go-ethereum's functions.
  \<^item> \<open>Repo\<close>, \<open>Tables\<close>: \<open>internal/repository/postgres\<close> over a record of the effects of the SQL statements, with
    their contracts as locales, and these executed on the tables of \<open>migrations/001_init.sql\<close> (keys, checks,
    ranges), which interpret the contracts.
  \<^item> \<open>Cache\<close>: \<open>internal/repository/redis\<close> in the same way, over a key-value store.
  \<^item> \<open>Service\<close>, \<open>ServiceInv\<close>, \<open>ServiceOps\<close>: \<open>order_service.go\<close> and the invariant that each operation keeps.
  \<^item> \<open>Restart\<close>, \<open>Mirror\<close>, \<open>Mirror2\<close>, \<open>Recovery\<close>, \<open>ServiceExample\<close>, \<open>ServiceClaims\<close>: the rows as a mirror of the
    books over all runs of requests, panicked ones included (the server recovers them and goes on), what
    loading the rows rebuilds, and the properties of the service.  A load panics exactly on an open row with two
    zero amounts (\<open>restart_blocked\<close>), which a panicked submission leaves behind.
  \<^item> \<open>Settlement\<close>: \<open>client.go\<close> and \<open>settlement.go\<close> over a record of the node and of go-ethereum.
  \<^item> \<open>Requests\<close>, \<open>Pipeline\<close>, \<open>PipelineClaims\<close>: requests, worker and reply goroutines as one step relation
    with queue and replies, its invariant, and the properties of settlement.  What the worker returns depends on
    the terms of the orders only (locale \<open>settler_contract\<close>), so that matching may go on while a job waits;
    the worker of the step relation is the loop \<open>Run\<close> of the code (\<open>Run_refines_pipeline\<close>).
  \<^item> \<open>Indexer\<close>: \<open>indexer.go\<close>, a turn of its loop as a function of what the node answers.
  \<^item> \<open>Config\<close>: \<open>config.go\<close>.
  \<^item> \<open>Handler\<close>: \<open>internal/handler\<close>, the router of \<open>main\<close>, and the WebSocket stream.
  \<^item> \<open>Server\<close>, \<open>ServerExample\<close>: the start of a process, and the properties of the outermost layer.

  Conventions.  A panic is \<open>None\<close> (type \<open>go\<close>); an error is a left value of a sum, or \<open>Some\<close> of a text where
  the code returns only an \<open>error\<close>.  \<open>big.Int\<close> is \<open>int\<close>, \<open>uint64\<close> a 64-bit word.  The methods of a book hold its
  mutex for their whole body and are atomic; so is a request of the service in the model, while worker and
  goroutines interleave with requests freely.

  Loops.  All loops are total functions: the matching loops recurse on the heap they shorten, the sorts on the
  rest of the slice, the sifting loops of the heap on indices.  \<open>Run\<close>, \<open>Start_loop\<close> and \<open>ws_loop\<close>, which do not
  end in the code, recurse on the list of events or answers they get; no fuel is used.  That worker and
  goroutines can finish the jobs they have is part of \<open>every_trade_settles\<close>.

  Hypotheses.  \<open>dSql d = pg\<close> says that statements are executed on the schema's tables and do not fail for
  other reasons than its constraints; \<open>env_ok\<close> that generated ids are new and not empty; \<open>honest_poll\<close>
  that the node filters the logs of one chain.  \<open>main_recovers\<close> supposes that the repeated migration changes no
  table (it is one multi-statement execution, which fails at its first \<open>CREATE INDEX\<close>).  Each has an instance
  among the witnesses.  Texts are valid UTF-8 without NUL, which PostgreSQL would refuse.

  Where code and comments differ.  The comment in engine.go line 148 promises a seller the buy (maker) price;
  the code computes the quote at the incoming sell order's own ratio, and the model follows the code
  (\<open>AddOrder_trade_prices\<close>, \<open>incoming_sell_not_at_maker_price\<close>, \<open>seller_receipts\<close>).

  Not modelled.  Requests of the same pair in parallel (the code lets their database statements interleave, and
  reads and writes the map of books without a lock); a full settlement channel (100 jobs), which blocks
  requests; failing connections in the mirror and pipeline properties; the JSON and header formats of gin and
  its redirect of paths with a trailing slash; the Solidity contract, the frontend and the scripts, which are
  not part of the backend.
\<close>

end
